(* ===== verification/Prelude.thy ===== *)
theory Prelude
  imports Main "HOL-Library.Word" "HOL-Library.Signed_Division"
begin

text \<open>
  Shared vocabulary of the development: the width and value types of the model, the named
  collections that carry the component proofs, and generic facts about truncation
  (\<open>take_bit\<close>), lists and options that several components use.
\<close>

unbundle bit_operations_syntax

type_synonym width = nat

named_theorems bv_simps "truncation of fixed-width arithmetic"
named_theorems ap_simps "unfolding of the operations on machine constants"
named_theorems create_simps "the branches of the expression constructors"

text \<open>The width \<open>1\<close> stays written as a numeral.\<close>

declare One_nat_def [simp del]

subsection \<open>Truncation to a width\<close>

text \<open>Inner truncations are absorbed by the outer one.\<close>

lemma take_bit_absorb [bv_simps]:
  fixes x y :: int
  shows "take_bit w (take_bit w x + y) = take_bit w (x + y)" "take_bit w (y + take_bit w x) = take_bit w (y + x)"
    "take_bit w (take_bit w x - y) = take_bit w (x - y)" "take_bit w (y - take_bit w x) = take_bit w (y - x)"
  by (simp_all add: take_bit_eq_mod mod_simps)

lemma take_bit_id: "0 \<le> v \<Longrightarrow> v < 2 ^ w \<Longrightarrow> take_bit w v = (v::int)"
  by (simp add: take_bit_int_eq_self)

lemma take_bit_range [simp]: "0 \<le> take_bit w (v::int)" "take_bit w v < 2 ^ w"
  by simp_all

lemma take_bit_idem [simp]: "take_bit w (take_bit w v) = take_bit w (v::int)"
  by simp

lemma take_bit_eqD: "take_bit w v = v \<Longrightarrow> 0 \<le> v \<and> v < 2 ^ w" for v :: int
  by (metis take_bit_range)

lemma take_bit_eq_iff: "take_bit w v = v \<longleftrightarrow> 0 \<le> v \<and> v < 2 ^ w" for v :: int
  using take_bit_eqD take_bit_id by blast

lemma take_bit_1_cases: "take_bit 1 v = v \<Longrightarrow> v = 0 \<or> v = 1" for v :: int
  using take_bit_eqD [of 1 v] by auto

lemma take_bit_wider: "m \<le> n \<Longrightarrow> take_bit m v = v \<Longrightarrow> take_bit n v = v" for v :: int
  by (metis min.absorb2 take_bit_take_bit)

subsection \<open>Two's complement reading of a truncated value\<close>

definition sgn_val :: "width \<Rightarrow> int \<Rightarrow> int" where
  "sgn_val w v = signed_take_bit (w - 1) v"

lemma sgn_val_take_bit [simp]: "0 < w \<Longrightarrow> sgn_val w (take_bit w v) = sgn_val w v"
  by (cases w) (simp_all add: sgn_val_def signed_take_bit_take_bit)

lemma take_bit_sgn_val [simp]: "0 < w \<Longrightarrow> take_bit w (sgn_val w v) = take_bit w v"
  using take_bit_signed_take_bit [of w "w - 1" v] by (simp add: sgn_val_def)

lemma sgn_val_inj: "0 < w \<Longrightarrow> sgn_val w a = sgn_val w b \<longleftrightarrow> take_bit w a = take_bit w b"
  by (cases w) (simp_all add: sgn_val_def signed_take_bit_eq_iff_take_bit_eq)

end
