(* ===== verification/ConstantExprs.thy ===== *)
theory ConstantExprs
  imports Prelude
begin

text \<open>
  Machine constants: the arbitrary-width integer a \<open>ConstantExpr\<close> wraps and the constant
  operations of \<open>klee/lib/Expr/Expr.cpp\<close> (\<open>ConstantExpr::Concat\<close> to \<open>ConstantExpr::Sge\<close>).
  LLVM's \<open>APInt\<close> is a bit width and an unsigned value below two to that width; every
  constructor truncates. Division and remainder by zero are an assertion failure of \<open>APInt\<close>: the
  model gives the quotient the value of the dividend and the remainder the value zero, and
  \<open>div_safe\<close> below singles out the evaluations that never meet this case.
\<close>

datatype apint = APInt (getBitWidth: width) (uval: int)

definition mkAPInt :: "width \<Rightarrow> int \<Rightarrow> apint" where
  "mkAPInt w v = APInt w (take_bit w v)"

definition apint_ok :: "apint \<Rightarrow> bool" where
  "apint_ok c \<longleftrightarrow> 0 < getBitWidth c \<and> take_bit (getBitWidth c) (uval c) = uval c"

definition sval :: "apint \<Rightarrow> int" where
  "sval c = sgn_val (getBitWidth c) (uval c)"

abbreviation Bool :: width where "Bool \<equiv> 1"
abbreviation Int8 :: width where "Int8 \<equiv> 8"
abbreviation Int16 :: width where "Int16 \<equiv> 16"
abbreviation Int32 :: width where "Int32 \<equiv> 32"
abbreviation Int64 :: width where "Int64 \<equiv> 64"
abbreviation Fl80 :: width where "Fl80 \<equiv> 80"

subsection \<open>Queries on a constant\<close>

definition getZExtValue :: "apint \<Rightarrow> int" where
  "getZExtValue c = uval c"

definition getLimitedValue :: "apint \<Rightarrow> int \<Rightarrow> int" where
  "getLimitedValue c Limit = (if uval c < Limit then uval c else Limit)"

definition isZero :: "apint \<Rightarrow> bool" where
  "isZero c \<longleftrightarrow> uval c = 0"

definition isOne :: "apint \<Rightarrow> bool" where
  "isOne c \<longleftrightarrow> getLimitedValue c (2 ^ 64 - 1) = 1"

definition isTrue :: "apint \<Rightarrow> bool" where
  "isTrue c \<longleftrightarrow> getBitWidth c = Bool \<and> uval c \<noteq> 0"

definition isFalse :: "apint \<Rightarrow> bool" where
  "isFalse c \<longleftrightarrow> getBitWidth c = Bool \<and> uval c = 0"

definition isAllOnes :: "apint \<Rightarrow> bool" where
  "isAllOnes c \<longleftrightarrow> uval c = 2 ^ getBitWidth c - 1"

subsection \<open>Constant operations\<close>

definition zextOrTrunc :: "apint \<Rightarrow> width \<Rightarrow> apint" where
  "zextOrTrunc c W = mkAPInt W (uval c)"

definition sextOrTrunc :: "apint \<Rightarrow> width \<Rightarrow> apint" where
  "sextOrTrunc c W = mkAPInt W (sval c)"

definition ap_shl :: "apint \<Rightarrow> nat \<Rightarrow> apint" where
  "ap_shl c n = mkAPInt (getBitWidth c) (push_bit n (uval c))"

definition ap_lshr :: "apint \<Rightarrow> nat \<Rightarrow> apint" where
  "ap_lshr c n = mkAPInt (getBitWidth c) (drop_bit n (uval c))"

definition ap_ashr :: "apint \<Rightarrow> nat \<Rightarrow> apint" where
  "ap_ashr c n = mkAPInt (getBitWidth c) (drop_bit n (sval c))"

definition shiftAmt :: "apint \<Rightarrow> apint \<Rightarrow> nat" where
  "shiftAmt c RHS = nat (getLimitedValue RHS (int (getBitWidth c)))"

definition CE_Concat :: "apint \<Rightarrow> apint \<Rightarrow> apint" where
  "CE_Concat c RHS =
     (let W = getBitWidth c + getBitWidth RHS;
          Tmp = zextOrTrunc c W;
          Tmp = ap_shl Tmp (getBitWidth RHS)
      in mkAPInt W (uval Tmp OR uval (zextOrTrunc RHS W)))"

definition CE_Extract :: "apint \<Rightarrow> nat \<Rightarrow> width \<Rightarrow> apint" where
  "CE_Extract c Offset W = zextOrTrunc (ap_ashr c Offset) W"

definition CE_ZExt :: "apint \<Rightarrow> width \<Rightarrow> apint" where
  "CE_ZExt c W = zextOrTrunc c W"

definition CE_SExt :: "apint \<Rightarrow> width \<Rightarrow> apint" where
  "CE_SExt c W = sextOrTrunc c W"

definition CE_Add :: "apint \<Rightarrow> apint \<Rightarrow> apint" where
  "CE_Add c RHS = mkAPInt (getBitWidth c) (uval c + uval RHS)"

definition CE_Neg :: "apint \<Rightarrow> apint" where
  "CE_Neg c = mkAPInt (getBitWidth c) (- uval c)"

definition CE_Sub :: "apint \<Rightarrow> apint \<Rightarrow> apint" where
  "CE_Sub c RHS = mkAPInt (getBitWidth c) (uval c - uval RHS)"

definition CE_Mul :: "apint \<Rightarrow> apint \<Rightarrow> apint" where
  "CE_Mul c RHS = mkAPInt (getBitWidth c) (uval c * uval RHS)"

definition CE_UDiv :: "apint \<Rightarrow> apint \<Rightarrow> apint" where
  "CE_UDiv c RHS = mkAPInt (getBitWidth c) (if uval RHS = 0 then uval c else uval c div uval RHS)"

definition CE_SDiv :: "apint \<Rightarrow> apint \<Rightarrow> apint" where
  "CE_SDiv c RHS = mkAPInt (getBitWidth c) (if uval RHS = 0 then uval c else sval c sdiv sval RHS)"

definition CE_URem :: "apint \<Rightarrow> apint \<Rightarrow> apint" where
  "CE_URem c RHS = mkAPInt (getBitWidth c) (if uval RHS = 0 then 0 else uval c mod uval RHS)"

definition CE_SRem :: "apint \<Rightarrow> apint \<Rightarrow> apint" where
  "CE_SRem c RHS = mkAPInt (getBitWidth c) (if uval RHS = 0 then 0 else sval c smod sval RHS)"

definition CE_And :: "apint \<Rightarrow> apint \<Rightarrow> apint" where
  "CE_And c RHS = mkAPInt (getBitWidth c) (uval c AND uval RHS)"

definition CE_Or :: "apint \<Rightarrow> apint \<Rightarrow> apint" where
  "CE_Or c RHS = mkAPInt (getBitWidth c) (uval c OR uval RHS)"

definition CE_Xor :: "apint \<Rightarrow> apint \<Rightarrow> apint" where
  "CE_Xor c RHS = mkAPInt (getBitWidth c) (uval c XOR uval RHS)"

definition CE_Shl :: "apint \<Rightarrow> apint \<Rightarrow> apint" where
  "CE_Shl c RHS = ap_shl c (shiftAmt c RHS)"

definition CE_LShr :: "apint \<Rightarrow> apint \<Rightarrow> apint" where
  "CE_LShr c RHS = ap_lshr c (shiftAmt c RHS)"

definition CE_AShr :: "apint \<Rightarrow> apint \<Rightarrow> apint" where
  "CE_AShr c RHS = ap_ashr c (shiftAmt c RHS)"

definition CE_Not :: "apint \<Rightarrow> apint" where
  "CE_Not c = mkAPInt (getBitWidth c) (NOT (uval c))"

definition CE_bool :: "bool \<Rightarrow> apint" where
  "CE_bool b = mkAPInt Bool (of_bool b)"

definition CE_Eq :: "apint \<Rightarrow> apint \<Rightarrow> apint" where
  "CE_Eq c RHS = CE_bool (uval c = uval RHS)"

definition CE_Ne :: "apint \<Rightarrow> apint \<Rightarrow> apint" where
  "CE_Ne c RHS = CE_bool (uval c \<noteq> uval RHS)"

definition CE_Ult :: "apint \<Rightarrow> apint \<Rightarrow> apint" where
  "CE_Ult c RHS = CE_bool (uval c < uval RHS)"

definition CE_Ule :: "apint \<Rightarrow> apint \<Rightarrow> apint" where
  "CE_Ule c RHS = CE_bool (uval c \<le> uval RHS)"

definition CE_Ugt :: "apint \<Rightarrow> apint \<Rightarrow> apint" where
  "CE_Ugt c RHS = CE_bool (uval c > uval RHS)"

definition CE_Uge :: "apint \<Rightarrow> apint \<Rightarrow> apint" where
  "CE_Uge c RHS = CE_bool (uval c \<ge> uval RHS)"

definition CE_Slt :: "apint \<Rightarrow> apint \<Rightarrow> apint" where
  "CE_Slt c RHS = CE_bool (sval c < sval RHS)"

definition CE_Sle :: "apint \<Rightarrow> apint \<Rightarrow> apint" where
  "CE_Sle c RHS = CE_bool (sval c \<le> sval RHS)"

definition CE_Sgt :: "apint \<Rightarrow> apint \<Rightarrow> apint" where
  "CE_Sgt c RHS = CE_bool (sval c > sval RHS)"

definition CE_Sge :: "apint \<Rightarrow> apint \<Rightarrow> apint" where
  "CE_Sge c RHS = CE_bool (sval c \<ge> sval RHS)"

lemmas [ap_simps] = mkAPInt_def zextOrTrunc_def sextOrTrunc_def ap_shl_def ap_lshr_def ap_ashr_def
  CE_ZExt_def CE_SExt_def CE_Add_def CE_Neg_def CE_Sub_def CE_Mul_def CE_UDiv_def CE_SDiv_def
  CE_URem_def CE_SRem_def CE_And_def CE_Or_def CE_Xor_def CE_Shl_def CE_LShr_def CE_AShr_def
  CE_Not_def CE_bool_def CE_Eq_def CE_Ne_def CE_Ult_def CE_Ule_def CE_Ugt_def CE_Uge_def
  CE_Slt_def CE_Sle_def CE_Sgt_def CE_Sge_def

subsection \<open>Well-formed constants\<close>

lemma apint_ok_mkAPInt [simp]: "apint_ok (mkAPInt w v) \<longleftrightarrow> 0 < w"
  by (simp add: apint_ok_def mkAPInt_def)

lemma mkAPInt_sel [simp]: "getBitWidth (mkAPInt w v) = w" "uval (mkAPInt w v) = take_bit w v"
  by (simp_all add: mkAPInt_def)

lemma apint_okD:
  assumes "apint_ok c"
  shows "0 < getBitWidth c" "0 \<le> uval c" "uval c < 2 ^ getBitWidth c"
    "take_bit (getBitWidth c) (uval c) = uval c"
  using assms take_bit_eqD by (auto simp: apint_ok_def)

lemma apint_ok_bool_cases: "apint_ok c \<Longrightarrow> getBitWidth c = Bool \<Longrightarrow> uval c = 0 \<or> uval c = 1"
  using take_bit_1_cases [of "uval c"] by (simp add: apint_ok_def)

lemma apint_ok_isTrue: "apint_ok c \<Longrightarrow> getBitWidth c = Bool \<Longrightarrow> isTrue c \<longleftrightarrow> uval c = 1"
  using apint_ok_bool_cases by (auto simp: isTrue_def)

lemma apint_ok_isOne: "apint_ok c \<Longrightarrow> isOne c \<longleftrightarrow> uval c = 1"
  by (auto simp: isOne_def getLimitedValue_def)

lemma CE_width [simp]:
  "getBitWidth (CE_Add a b) = getBitWidth a" "getBitWidth (CE_Sub a b) = getBitWidth a"
  "getBitWidth (CE_ZExt a W) = W" "getBitWidth (CE_SExt a W) = W" "getBitWidth (CE_Extract a n W) = W"
  "getBitWidth (CE_Concat a b) = getBitWidth a + getBitWidth b" "getBitWidth (CE_Not a) = getBitWidth a"
  by (simp_all add: ap_simps CE_Extract_def CE_Concat_def Let_def)

text \<open>The arithmetic shift inside \<open>Extract\<close> never shows: the offset and width stay inside the constant.\<close>

lemma take_bit_inner: "m \<le> n \<Longrightarrow> take_bit m (take_bit n v) = take_bit m (v::int)"
  by (simp add: min_absorb1)

lemma CE_Extract_uval:
  assumes "apint_ok c" and "off + W \<le> getBitWidth c"
  shows "uval (CE_Extract c off W) = take_bit W (drop_bit off (uval c))"
proof -
  let ?w = "getBitWidth c"
  have "take_bit W (drop_bit off (sval c)) = drop_bit off (take_bit (off + W) (sval c))"
    by (simp add: take_bit_drop_bit add.commute)
  also have "take_bit (off + W) (sval c) = take_bit (off + W) (take_bit ?w (sval c))"
    using assms(2) by (simp add: take_bit_inner)
  also have "take_bit ?w (sval c) = uval c"
    using apint_okD [OF assms(1)] by (simp add: sval_def)
  finally have "take_bit W (drop_bit off (sval c)) = take_bit W (drop_bit off (uval c))"
    by (simp add: take_bit_drop_bit add.commute)
  then show ?thesis
    using assms(2) by (simp add: CE_Extract_def ap_simps take_bit_inner)
qed

lemma CE_Concat_uval:
  assumes "apint_ok a" and "apint_ok b"
  shows "uval (CE_Concat a b) = push_bit (getBitWidth b) (uval a) + uval b"
proof -
  let ?wa = "getBitWidth a" and ?wb = "getBitWidth b"
  have a: "take_bit (?wa + ?wb) (uval a) = uval a" and b: "take_bit (?wa + ?wb) (uval b) = uval b"
    using apint_okD [OF assms(1)] apint_okD [OF assms(2)] by (auto intro: take_bit_wider [rotated])
  have p: "take_bit (?wa + ?wb) (push_bit ?wb (uval a)) = push_bit ?wb (uval a)"
    using apint_okD(4) [OF assms(1)] by (simp add: take_bit_push_bit)
  have "push_bit ?wb (uval a) OR uval b = push_bit ?wb (uval a) + uval b"
    using apint_okD(4) [OF assms(2)]
    by (intro disjunctive_add [symmetric])
      (metis bit_push_bit_iff bit_take_bit_iff not_le)
  moreover have "take_bit (?wa + ?wb) (push_bit ?wb (uval a) OR uval b) = push_bit ?wb (uval a) OR uval b"
    using p b by (simp add: take_bit_or)
  ultimately show ?thesis
    using a b p by (simp add: CE_Concat_def ap_simps Let_def)
qed

end
