(* ===== verification/Exprs.thy ===== *)
theory Exprs
  imports ConstantExprs
begin

text \<open>
  The expression language of \<open>klee/include/klee/Expr/Expr.h\<close>: arrays, update nodes and the
  expression classes, their widths and kinds, the well-typedness that the assertions of the
  constructors demand, and the denotation of an expression under an environment that gives
  every symbolic array its initial contents. Division by a zero divisor has no meaning in the
  code (folding it is an assertion failure, and the executor guards every division): the
  denotation gives it the value that the width-one constructors make of it (the dividend, or
  remainder zero), and \<open>div_safe\<close> says that an expression performs no such division under an
  environment.
\<close>

subsection \<open>Data\<close>

text \<open>The binary classes, one constructor per instance of the two class macros.\<close>

datatype bkind = Add | Sub | Mul | UDiv | SDiv | URem | SRem | And | Or | Xor | Shl | LShr | AShr
  | Eq | Ne | Ult | Ule | Ugt | Uge | Slt | Sle | Sgt | Sge

definition isCmp :: "bkind \<Rightarrow> bool" where
  "isCmp k \<longleftrightarrow> k \<in> {Eq, Ne, Ult, Ule, Ugt, Uge, Slt, Sle, Sgt, Sge}"

definition isDiv :: "bkind \<Rightarrow> bool" where
  "isDiv k \<longleftrightarrow> k \<in> {UDiv, SDiv, URem, SRem}"

text \<open>
  An array object. The code compares arrays by their address, so the address is part of the
  record: two arrays of the same name and contents are different objects.
\<close>

record array =
  arr_addr :: nat
  arr_name :: string
  arr_size :: nat
  arr_domain :: width
  arr_range :: width
  constantValues :: "apint list"

definition isSymbolicArray :: "array \<Rightarrow> bool" where
  "isSymbolicArray a \<longleftrightarrow> constantValues a = []"

definition isConstantArray :: "array \<Rightarrow> bool" where
  "isConstantArray a \<longleftrightarrow> \<not> isSymbolicArray a"

text \<open>\<open>UpdateList\<close> is the pair of a root array and the head of a chain of update nodes.\<close>

datatype expr =
    ConstantExpr apint
  | NotOptimizedExpr expr
  | ReadExpr array updates expr
  | SelectExpr expr expr expr
  | ConcatExpr expr expr
  | ExtractExpr expr nat width
  | NotExpr expr
  | ZExtExpr expr width
  | SExtExpr expr width
  | BinaryExpr bkind expr expr
and updates =
    NullNode
  | UpdateNode expr expr updates

text \<open>Induction along the chain of updates alone, and over expressions alone.\<close>

lemma updates_induct [case_names NullNode UpdateNode]:
  assumes "P NullNode" "\<And>i v n. P n \<Longrightarrow> P (UpdateNode i v n)"
  shows "P us"
  by (rule updates.induct [where ?P1.0 = "\<lambda>_. True"]) (auto intro: assms)

lemma expr_size_induct [case_names smaller]:
  assumes "\<And>e. (\<And>e'. size e' < size e \<Longrightarrow> P e') \<Longrightarrow> P (e::expr)"
  shows "P e"
  using measure_induct_rule [of size P] assms by blast

fun isConst :: "expr \<Rightarrow> bool" where
  "isConst (ConstantExpr c) = True"
| "isConst _ = False"

fun getWidth :: "expr \<Rightarrow> width" where
  "getWidth (ConstantExpr c) = getBitWidth c"
| "getWidth (NotOptimizedExpr e) = getWidth e"
| "getWidth (ReadExpr a us i) = arr_range a"
| "getWidth (SelectExpr c t f) = getWidth t"
| "getWidth (ConcatExpr l r) = getWidth l + getWidth r"
| "getWidth (ExtractExpr e off w) = w"
| "getWidth (NotExpr e) = getWidth e"
| "getWidth (ZExtExpr e w) = w"
| "getWidth (SExtExpr e w) = w"
| "getWidth (BinaryExpr k l r) = (if isCmp k then Bool else getWidth l)"

fun kids :: "expr \<Rightarrow> expr list" where
  "kids (ConstantExpr c) = []"
| "kids (NotOptimizedExpr e) = [e]"
| "kids (ReadExpr a us i) = [i]"
| "kids (SelectExpr c t f) = [c, t, f]"
| "kids (ConcatExpr l r) = [l, r]"
| "kids (ExtractExpr e off w) = [e]"
| "kids (NotExpr e) = [e]"
| "kids (ZExtExpr e w) = [e]"
| "kids (SExtExpr e w) = [e]"
| "kids (BinaryExpr k l r) = [l, r]"

definition getNumKids :: "expr \<Rightarrow> nat" where
  "getNumKids e = length (kids e)"

primrec getSize :: "updates \<Rightarrow> nat" where
  "getSize NullNode = 0"
| "getSize (UpdateNode i v n) = 1 + getSize n"

subsection \<open>Well-typed expressions\<close>

definition array_ok :: "array \<Rightarrow> bool" where
  "array_ok a \<longleftrightarrow> 0 < arr_domain a \<and> 0 < arr_range a \<and>
     (isSymbolicArray a \<or> length (constantValues a) = arr_size a) \<and>
     (\<forall>c \<in> set (constantValues a). apint_ok c \<and> getBitWidth c = arr_range a)"

primrec wt :: "expr \<Rightarrow> bool" and wtU :: "array \<Rightarrow> updates \<Rightarrow> bool" where
  "wt (ConstantExpr c) = apint_ok c"
| "wt (NotOptimizedExpr e) = wt e"
| "wt (ReadExpr a us i) = (array_ok a \<and> wtU a us \<and> wt i \<and> getWidth i = arr_domain a)"
| "wt (SelectExpr c t f) = (wt c \<and> wt t \<and> wt f \<and> getWidth c = Bool \<and> getWidth t = getWidth f)"
| "wt (ConcatExpr l r) = (wt l \<and> wt r)"
| "wt (ExtractExpr e off w) = (wt e \<and> 0 < w \<and> off + w \<le> getWidth e)"
| "wt (NotExpr e) = wt e"
| "wt (ZExtExpr e w) = (wt e \<and> getWidth e \<le> w)"
| "wt (SExtExpr e w) = (wt e \<and> getWidth e \<le> w)"
| "wt (BinaryExpr k l r) = (wt l \<and> wt r \<and> getWidth l = getWidth r)"
| "wtU a NullNode = True"
| "wtU a (UpdateNode i v n) = (wt i \<and> wt v \<and> getWidth i = arr_domain a \<and> getWidth v = arr_range a \<and> wtU a n)"

lemma wt_width_pos: "wt e \<Longrightarrow> 0 < getWidth e"
proof (induction e rule: expr.induct [where ?P2.0 = "\<lambda>_. True"])
  case (ZExtExpr e w)
  then show ?case by simp
next
  case (SExtExpr e w)
  then show ?case by simp
qed (auto simp: apint_ok_def array_ok_def)

subsection \<open>Denotation\<close>

type_synonym env = "array \<Rightarrow> nat \<Rightarrow> int"

fun sem_bin :: "bkind \<Rightarrow> width \<Rightarrow> int \<Rightarrow> int \<Rightarrow> int" where
  "sem_bin Add w a b = take_bit w (a + b)"
| "sem_bin Sub w a b = take_bit w (a - b)"
| "sem_bin Mul w a b = take_bit w (a * b)"
| "sem_bin UDiv w a b = (if b = 0 then a else take_bit w (a div b))"
| "sem_bin SDiv w a b = (if b = 0 then a else take_bit w (sgn_val w a sdiv sgn_val w b))"
| "sem_bin URem w a b = (if b = 0 then 0 else take_bit w (a mod b))"
| "sem_bin SRem w a b = (if b = 0 then 0 else take_bit w (sgn_val w a smod sgn_val w b))"
| "sem_bin And w a b = a AND b"
| "sem_bin Or w a b = a OR b"
| "sem_bin Xor w a b = a XOR b"
| "sem_bin Shl w a b = (if b < int w then take_bit w (push_bit (nat b) a) else 0)"
| "sem_bin LShr w a b = (if b < int w then drop_bit (nat b) a else 0)"
| "sem_bin AShr w a b = take_bit w (drop_bit (if b < int w then nat b else w) (sgn_val w a))"
| "sem_bin Eq w a b = of_bool (a = b)"
| "sem_bin Ne w a b = of_bool (a \<noteq> b)"
| "sem_bin Ult w a b = of_bool (a < b)"
| "sem_bin Ule w a b = of_bool (a \<le> b)"
| "sem_bin Ugt w a b = of_bool (a > b)"
| "sem_bin Uge w a b = of_bool (a \<ge> b)"
| "sem_bin Slt w a b = of_bool (sgn_val w a < sgn_val w b)"
| "sem_bin Sle w a b = of_bool (sgn_val w a \<le> sgn_val w b)"
| "sem_bin Sgt w a b = of_bool (sgn_val w a > sgn_val w b)"
| "sem_bin Sge w a b = of_bool (sgn_val w a \<ge> sgn_val w b)"

text \<open>
  The value an array holds before any update: the listed constant inside a constant array,
  the environment's byte otherwise.
\<close>

definition initial_value :: "env \<Rightarrow> array \<Rightarrow> nat \<Rightarrow> int" where
  "initial_value \<rho> a i =
     (if isConstantArray a \<and> i < arr_size a then uval (constantValues a ! i)
      else take_bit (arr_range a) (\<rho> a i))"

primrec eval :: "env \<Rightarrow> expr \<Rightarrow> int" and evalU :: "env \<Rightarrow> array \<Rightarrow> int \<Rightarrow> updates \<Rightarrow> int" where
  "eval \<rho> (ConstantExpr c) = uval c"
| "eval \<rho> (NotOptimizedExpr e) = eval \<rho> e"
| "eval \<rho> (ReadExpr a us i) = evalU \<rho> a (eval \<rho> i) us"
| "eval \<rho> (SelectExpr c t f) = (if eval \<rho> c = 1 then eval \<rho> t else eval \<rho> f)"
| "eval \<rho> (ConcatExpr l r) = push_bit (getWidth r) (eval \<rho> l) + eval \<rho> r"
| "eval \<rho> (ExtractExpr e off w) = take_bit w (drop_bit off (eval \<rho> e))"
| "eval \<rho> (NotExpr e) = take_bit (getWidth e) (NOT (eval \<rho> e))"
| "eval \<rho> (ZExtExpr e w) = eval \<rho> e"
| "eval \<rho> (SExtExpr e w) = take_bit w (sgn_val (getWidth e) (eval \<rho> e))"
| "eval \<rho> (BinaryExpr k l r) = sem_bin k (getWidth l) (eval \<rho> l) (eval \<rho> r)"
| "evalU \<rho> a iv NullNode = initial_value \<rho> a (nat iv)"
| "evalU \<rho> a iv (UpdateNode i v n) = (if eval \<rho> i = iv then eval \<rho> v else evalU \<rho> a iv n)"

text \<open>No division or remainder by zero anywhere in the expression.\<close>

primrec div_safe :: "env \<Rightarrow> expr \<Rightarrow> bool" and div_safeU :: "env \<Rightarrow> updates \<Rightarrow> bool" where
  "div_safe \<rho> (ConstantExpr c) = True"
| "div_safe \<rho> (NotOptimizedExpr e) = div_safe \<rho> e"
| "div_safe \<rho> (ReadExpr a us i) = (div_safeU \<rho> us \<and> div_safe \<rho> i)"
| "div_safe \<rho> (SelectExpr c t f) = (div_safe \<rho> c \<and> div_safe \<rho> t \<and> div_safe \<rho> f)"
| "div_safe \<rho> (ConcatExpr l r) = (div_safe \<rho> l \<and> div_safe \<rho> r)"
| "div_safe \<rho> (ExtractExpr e off w) = div_safe \<rho> e"
| "div_safe \<rho> (NotExpr e) = div_safe \<rho> e"
| "div_safe \<rho> (ZExtExpr e w) = div_safe \<rho> e"
| "div_safe \<rho> (SExtExpr e w) = div_safe \<rho> e"
| "div_safe \<rho> (BinaryExpr k l r) =
     (div_safe \<rho> l \<and> div_safe \<rho> r \<and> (isDiv k \<longrightarrow> eval \<rho> r \<noteq> 0))"
| "div_safeU \<rho> NullNode = True"
| "div_safeU \<rho> (UpdateNode i v n) = (div_safe \<rho> i \<and> div_safe \<rho> v \<and> div_safeU \<rho> n)"

subsection \<open>Values stay inside their width\<close>

lemma sem_bin_range:
  assumes "0 < w" "take_bit w a = a" "take_bit w b = b"
  shows "take_bit (if isCmp k then Bool else w) (sem_bin k w a b) = sem_bin k w a b"
proof (cases k)
  case LShr
  have "take_bit w (drop_bit (nat b) a) = drop_bit (nat b) (take_bit (w + nat b) a)"
    by (simp add: take_bit_drop_bit)
  also have "take_bit (w + nat b) a = a"
    using assms(2) by (rule take_bit_wider [rotated]) simp
  finally show ?thesis using LShr by (simp add: isCmp_def)
next
  case And
  then show ?thesis using assms by (simp add: isCmp_def take_bit_and)
next
  case Or
  then show ?thesis using assms by (simp add: isCmp_def take_bit_or)
next
  case Xor
  then show ?thesis using assms by (simp add: isCmp_def take_bit_xor)
qed (use assms in \<open>simp_all add: isCmp_def take_bit_eq_iff\<close>)

lemma initial_value_range:
  "array_ok a \<Longrightarrow> take_bit (arr_range a) (initial_value \<rho> a i) = initial_value \<rho> a i"
proof -
  assume ok: "array_ok a"
  show ?thesis
  proof (cases "isConstantArray a \<and> i < arr_size a")
    case True
    with ok have "constantValues a ! i \<in> set (constantValues a)"
      by (auto simp: array_ok_def isConstantArray_def)
    with ok have "apint_ok (constantValues a ! i)" "getBitWidth (constantValues a ! i) = arr_range a"
      by (auto simp: array_ok_def)
    with True show ?thesis using apint_okD(4) by (fastforce simp: initial_value_def)
  next
    case False
    then have "initial_value \<rho> a i = take_bit (arr_range a) (\<rho> a i)"
      by (simp only: initial_value_def if_False)
    then show ?thesis by simp
  qed
qed

lemma concat_range:
  assumes "take_bit m a = a" "take_bit n b = (b::int)"
  shows "take_bit (m + n) (push_bit n a + b) = push_bit n a + b"
proof -
  from assms have a: "0 \<le> a" "a + 1 \<le> 2 ^ m" and b: "0 \<le> b" "b < 2 ^ n"
    using take_bit_eqD by fastforce+
  have "push_bit n a + b < (a + 1) * 2 ^ n"
    using b by (simp add: push_bit_eq_mult algebra_simps)
  also have "\<dots> \<le> 2 ^ m * 2 ^ n"
    using a by (intro mult_right_mono) auto
  finally show ?thesis
    using a b by (simp add: take_bit_eq_iff power_add push_bit_eq_mult)
qed

lemma eval_range_both:
  "wt e \<Longrightarrow> take_bit (getWidth e) (eval \<rho> e) = eval \<rho> e"
  "wtU a us \<Longrightarrow> array_ok a \<Longrightarrow> take_bit (arr_range a) (evalU \<rho> a iv us) = evalU \<rho> a iv us"
proof (induction e and us arbitrary: and a iv)
  case (BinaryExpr k l r)
  then have "0 < getWidth l" by (simp add: wt_width_pos)
  with BinaryExpr show ?case
    using sem_bin_range [of "getWidth l" "eval \<rho> l" "eval \<rho> r" k] by simp
next
  case (ZExtExpr e w)
  then show ?case by (auto intro: take_bit_wider)
qed (auto simp: apint_ok_def initial_value_range concat_range)

lemma eval_range:
  assumes "wt e"
  shows "take_bit (getWidth e) (eval \<rho> e) = eval \<rho> e" "0 \<le> eval \<rho> e" "eval \<rho> e < 2 ^ getWidth e"
  using eval_range_both(1) [OF assms] take_bit_eqD by metis+

lemma eval_bool_cases: "wt e \<Longrightarrow> getWidth e = Bool \<Longrightarrow> eval \<rho> e = 0 \<or> eval \<rho> e = 1"
  using eval_range(1) [of e \<rho>] take_bit_1_cases by simp

end
