(* ===== verification/ExprCreate.thy ===== *)
theory ExprCreate
  imports Exprs
begin

text \<open>
  The simplifying constructors of \<open>klee/lib/Expr/Expr.cpp\<close>. A class method
  \<open>XExpr::create\<close> is \<open>X_create\<close> here; the file's static helpers keep their names
  (\<open>XExpr_create\<close>, \<open>XExpr_createPartial\<close>, \<open>XExpr_createPartialR\<close>). Where the source
  calls a constructor on an operand that is known to be a constant, the model calls the
  constructor's constant-operand half (\<open>X_createC\<close>), so every recursion descends into a
  smaller expression; the equations the source writes are proved after the definitions.
\<close>

subsection \<open>Casts of an expression to a class\<close>

fun asConst :: "expr \<Rightarrow> apint option" where
  "asConst (ConstantExpr c) = Some c"
| "asConst _ = None"

fun asBin :: "bkind \<Rightarrow> expr \<Rightarrow> (expr \<times> expr) option" where
  "asBin k (BinaryExpr k' l r) = (if k' = k then Some (l, r) else None)"
| "asBin k _ = None"

definition asBinC :: "bkind \<Rightarrow> expr \<Rightarrow> (apint \<times> expr) option" where
  "asBinC k e = (case asBin k e of None \<Rightarrow> None
     | Some (l, r) \<Rightarrow> (case asConst l of None \<Rightarrow> None | Some c \<Rightarrow> Some (c, r)))"

fun asSExt :: "expr \<Rightarrow> expr option" where
  "asSExt (SExtExpr e w) = Some e"
| "asSExt _ = None"

fun asZExt :: "expr \<Rightarrow> expr option" where
  "asZExt (ZExtExpr e w) = Some e"
| "asZExt _ = None"

fun asRead :: "expr \<Rightarrow> (array \<times> updates \<times> expr) option" where
  "asRead (ReadExpr a us i) = Some (a, us, i)"
| "asRead _ = None"

fun asConcat :: "expr \<Rightarrow> (expr \<times> expr) option" where
  "asConcat (ConcatExpr l r) = Some (l, r)"
| "asConcat _ = None"

fun asExtract :: "expr \<Rightarrow> (expr \<times> nat \<times> width) option" where
  "asExtract (ExtractExpr e off w) = Some (e, off, w)"
| "asExtract _ = None"

lemma asConst_Some [simp]: "asConst e = Some c \<longleftrightarrow> e = ConstantExpr c"
  by (cases e) auto

lemma asBin_Some [simp]: "asBin k e = Some (l, r) \<longleftrightarrow> e = BinaryExpr k l r"
  by (cases e) auto

lemma asBinC_Some [simp]: "asBinC k e = Some (c, r) \<longleftrightarrow> e = BinaryExpr k (ConstantExpr c) r"
  by (auto simp: asBinC_def split: option.splits prod.splits)

lemma asBinC_Binary: "asBinC k (BinaryExpr k' l r) =
    (if k' = k then map_option (\<lambda>c. (c, r)) (asConst l) else None)"
  by (auto simp: asBinC_def split: option.split)

lemma asSExt_Some [simp]: "asSExt e = Some s \<longleftrightarrow> (\<exists>w. e = SExtExpr s w)"
  by (cases e) auto

lemma asZExt_Some [simp]: "asZExt e = Some s \<longleftrightarrow> (\<exists>w. e = ZExtExpr s w)"
  by (cases e) auto

lemma asRead_Some [simp]: "asRead e = Some (a, us, i) \<longleftrightarrow> e = ReadExpr a us i"
  by (cases e) auto

lemma asConcat_Some [simp]: "asConcat e = Some (l, r) \<longleftrightarrow> e = ConcatExpr l r"
  by (cases e) auto

lemma asExtract_Some [simp]: "asExtract e = Some (x, off, w) \<longleftrightarrow> e = ExtractExpr x off w"
  by (cases e) auto

lemma isConst_asConst: "isConst e \<longleftrightarrow> (\<exists>c. e = ConstantExpr c)"
  by (cases e) auto

subsection \<open>Constant folding for every binary class\<close>

fun CE_bin :: "bkind \<Rightarrow> apint \<Rightarrow> apint \<Rightarrow> apint" where
  "CE_bin Add = CE_Add" | "CE_bin Sub = CE_Sub" | "CE_bin Mul = CE_Mul"
| "CE_bin UDiv = CE_UDiv" | "CE_bin SDiv = CE_SDiv" | "CE_bin URem = CE_URem" | "CE_bin SRem = CE_SRem"
| "CE_bin And = CE_And" | "CE_bin Or = CE_Or" | "CE_bin Xor = CE_Xor"
| "CE_bin Shl = CE_Shl" | "CE_bin LShr = CE_LShr" | "CE_bin AShr = CE_AShr"
| "CE_bin Eq = CE_Eq" | "CE_bin Ne = CE_Ne" | "CE_bin Ult = CE_Ult" | "CE_bin Ule = CE_Ule"
| "CE_bin Ugt = CE_Ugt" | "CE_bin Uge = CE_Uge" | "CE_bin Slt = CE_Slt" | "CE_bin Sle = CE_Sle"
| "CE_bin Sgt = CE_Sgt" | "CE_bin Sge = CE_Sge"

text \<open>The three method-generating macros; the constant cases come before any helper is called.\<close>

definition BCREATE_R ::
  "bkind \<Rightarrow> (expr \<Rightarrow> apint \<Rightarrow> expr) \<Rightarrow> (apint \<Rightarrow> expr \<Rightarrow> expr) \<Rightarrow> (expr \<Rightarrow> expr \<Rightarrow> expr) \<Rightarrow>
   expr \<Rightarrow> expr \<Rightarrow> expr" where
  "BCREATE_R k partialL partialR create l r =
     (case asConst l of
        Some cl \<Rightarrow> (case asConst r of Some cr \<Rightarrow> ConstantExpr (CE_bin k cl cr) | None \<Rightarrow> partialR cl r)
      | None \<Rightarrow> (case asConst r of Some cr \<Rightarrow> partialL l cr | None \<Rightarrow> create l r))"

definition BCREATE :: "bkind \<Rightarrow> (expr \<Rightarrow> expr \<Rightarrow> expr) \<Rightarrow> expr \<Rightarrow> expr \<Rightarrow> expr" where
  "BCREATE k create l r =
     (case asConst l of
        Some cl \<Rightarrow> (case asConst r of Some cr \<Rightarrow> ConstantExpr (CE_bin k cl cr) | None \<Rightarrow> create l r)
      | None \<Rightarrow> create l r)"

definition CMPCREATE :: "bkind \<Rightarrow> (expr \<Rightarrow> expr \<Rightarrow> expr) \<Rightarrow> expr \<Rightarrow> expr \<Rightarrow> expr" where
  "CMPCREATE k create l r =
     (case asConst l of
        Some cl \<Rightarrow> (case asConst r of Some cr \<Rightarrow> ConstantExpr (CE_bin k cl cr) | None \<Rightarrow> create l r)
      | None \<Rightarrow> create l r)"

definition CMPCREATE_T ::
  "bkind \<Rightarrow> (expr \<Rightarrow> apint \<Rightarrow> expr) \<Rightarrow> (apint \<Rightarrow> expr \<Rightarrow> expr) \<Rightarrow> (expr \<Rightarrow> expr \<Rightarrow> expr) \<Rightarrow>
   expr \<Rightarrow> expr \<Rightarrow> expr" where
  "CMPCREATE_T k partialL partialR create l r =
     (case asConst l of
        Some cl \<Rightarrow> (case asConst r of Some cr \<Rightarrow> ConstantExpr (CE_bin k cl cr) | None \<Rightarrow> partialR cl r)
      | None \<Rightarrow> (case asConst r of Some cr \<Rightarrow> partialL l cr | None \<Rightarrow> create l r))"

subsection \<open>And, Or\<close>

definition AndExpr_createPartial :: "expr \<Rightarrow> apint \<Rightarrow> expr" where
  "AndExpr_createPartial l cr =
     (if isAllOnes cr then l
      else if isZero cr then ConstantExpr cr
      else BinaryExpr And l (ConstantExpr cr))"

definition AndExpr_createPartialR :: "apint \<Rightarrow> expr \<Rightarrow> expr" where
  "AndExpr_createPartialR cl r = AndExpr_createPartial r cl"

definition AndExpr_create :: "expr \<Rightarrow> expr \<Rightarrow> expr" where
  "AndExpr_create l r = BinaryExpr And l r"

definition And_create :: "expr \<Rightarrow> expr \<Rightarrow> expr" where
  "And_create = BCREATE_R And AndExpr_createPartial AndExpr_createPartialR AndExpr_create"

definition OrExpr_createPartial :: "expr \<Rightarrow> apint \<Rightarrow> expr" where
  "OrExpr_createPartial l cr =
     (if isAllOnes cr then ConstantExpr cr
      else if isZero cr then l
      else BinaryExpr Or l (ConstantExpr cr))"

definition OrExpr_createPartialR :: "apint \<Rightarrow> expr \<Rightarrow> expr" where
  "OrExpr_createPartialR cl r = OrExpr_createPartial r cl"

definition OrExpr_create :: "expr \<Rightarrow> expr \<Rightarrow> expr" where
  "OrExpr_create l r = BinaryExpr Or l r"

definition Or_create :: "expr \<Rightarrow> expr \<Rightarrow> expr" where
  "Or_create = BCREATE_R Or OrExpr_createPartial OrExpr_createPartialR OrExpr_create"

subsection \<open>Eq\<close>

text \<open>The command line option \<open>const-array-opt\<close>, at its default.\<close>

definition ConstArrayOpt :: bool where
  "ConstArrayOpt = False"

definition EqExpr_create :: "expr \<Rightarrow> expr \<Rightarrow> expr" where
  "EqExpr_create l r = (if l = r then ConstantExpr (mkAPInt Bool 1) else BinaryExpr Eq l r)"

text \<open>
  The loop of \<open>TryConstArrayOpt\<close> over the array's values: \<open>mayBe i\<close> is the equality of the
  index with \<open>i\<close>; \<open>None\<close> is the early return after more than one hundred matches.
\<close>

fun constArray_loop :: "(nat \<Rightarrow> expr) \<Rightarrow> apint \<Rightarrow> apint list \<Rightarrow> nat \<Rightarrow> nat \<Rightarrow> expr \<Rightarrow> expr option" where
  "constArray_loop mayBe cl [] i numMatches res = Some res"
| "constArray_loop mayBe cl (v # vs) i numMatches res =
     (if cl = v then
        (if numMatches + 1 > 100 then None
         else constArray_loop mayBe cl vs (i + 1) (numMatches + 1) (Or_create res (mayBe i)))
      else constArray_loop mayBe cl vs (i + 1) numMatches res)"

definition TryConstArrayOpt_with :: "(expr \<Rightarrow> apint \<Rightarrow> expr) \<Rightarrow> apint \<Rightarrow> array \<Rightarrow> updates \<Rightarrow> expr \<Rightarrow> expr" where
  "TryConstArrayOpt_with eqC cl a us index =
     (if isSymbolicArray a \<or> getSize us \<noteq> 0 then EqExpr_create (ConstantExpr cl) (ReadExpr a us index)
      else case constArray_loop (\<lambda>i. eqC index (mkAPInt (getWidth index) (int i))) cl
                  (constantValues a) 0 0 (ConstantExpr (mkAPInt Bool 0)) of
             None \<Rightarrow> EqExpr_create (ConstantExpr cl) (ReadExpr a us index)
           | Some res \<Rightarrow> res)"

lemma TryConstArrayOpt_with_cong [fundef_cong]:
  "\<lbrakk>cl = cl'; a = a'; us = us'; x = x'; \<And>c. f x' c = g x' c\<rbrakk> \<Longrightarrow>
    TryConstArrayOpt_with f cl a us x = TryConstArrayOpt_with g cl' a' us' x'"
  by (simp add: TryConstArrayOpt_with_def)

function EqExpr_createPartialR :: "apint \<Rightarrow> expr \<Rightarrow> expr"
  and Eq_createC :: "expr \<Rightarrow> apint \<Rightarrow> expr" where
  "EqExpr_createPartialR cl r =
     (if getBitWidth cl = Bool then
        (if isTrue cl then r
         else case asBin Eq r of
           Some (left, right) \<Rightarrow>
             (case asConst left of
                Some CE \<Rightarrow> if getBitWidth CE = Bool \<and> isFalse CE then right
                           else EqExpr_create (ConstantExpr cl) r
              | None \<Rightarrow> EqExpr_create (ConstantExpr cl) r)
         | None \<Rightarrow>
             (case asBin Or r of
                Some (left, right) \<Rightarrow>
                  And_create (Eq_createC left (mkAPInt (getWidth left) 0))
                             (Eq_createC right (mkAPInt (getWidth right) 0))
              | None \<Rightarrow> EqExpr_create (ConstantExpr cl) r))
      else case asSExt r of
        Some src \<Rightarrow>
          (let trunc = CE_ZExt cl (getWidth src) in
           if cl = CE_SExt trunc (getBitWidth cl) then Eq_createC src trunc
           else ConstantExpr (mkAPInt Bool 0))
      | None \<Rightarrow> (case asZExt r of
        Some src \<Rightarrow>
          (let trunc = CE_ZExt cl (getWidth src) in
           if cl = CE_ZExt trunc (getBitWidth cl) then Eq_createC src trunc
           else ConstantExpr (mkAPInt Bool 0))
      | None \<Rightarrow> (case asBinC Add r of
        Some (c1, b) \<Rightarrow> EqExpr_createPartialR (CE_Sub cl c1) b
      | None \<Rightarrow> (case asBinC Sub r of
        Some (c1, b) \<Rightarrow> EqExpr_createPartialR (CE_Sub c1 cl) b
      | None \<Rightarrow> (case asRead r of
        Some (a, us, i) \<Rightarrow>
          if ConstArrayOpt then TryConstArrayOpt_with Eq_createC cl a us i
          else EqExpr_create (ConstantExpr cl) r
      | None \<Rightarrow> EqExpr_create (ConstantExpr cl) r)))))"
| "Eq_createC e c =
     (case asConst e of
        Some ce \<Rightarrow> ConstantExpr (CE_Eq ce c)
      | None \<Rightarrow> EqExpr_createPartialR c e)"
  by pat_completeness auto
termination
  by (relation "measure (case_sum (\<lambda>(cl, r). 2 * size r) (\<lambda>(e, c). 2 * size e + 1))") auto

definition EqExpr_createPartial :: "expr \<Rightarrow> apint \<Rightarrow> expr" where
  "EqExpr_createPartial l cr = EqExpr_createPartialR cr l"

definition Eq_create :: "expr \<Rightarrow> expr \<Rightarrow> expr" where
  "Eq_create = CMPCREATE_T Eq EqExpr_createPartial EqExpr_createPartialR EqExpr_create"

definition createIsZero :: "expr \<Rightarrow> expr" where
  "createIsZero e = Eq_create e (ConstantExpr (mkAPInt (getWidth e) 0))"

definition TryConstArrayOpt :: "apint \<Rightarrow> array \<Rightarrow> updates \<Rightarrow> expr \<Rightarrow> expr" where
  "TryConstArrayOpt = TryConstArrayOpt_with (\<lambda>e c. Eq_create e (ConstantExpr c))"

declare EqExpr_createPartialR.simps [simp del] Eq_createC.simps [simp del]

lemma Eq_createC_eq: "Eq_createC e c = Eq_create e (ConstantExpr c)"
  by (simp add: Eq_createC.simps Eq_create_def CMPCREATE_T_def EqExpr_createPartial_def split: option.split)

subsection \<open>Xor, Add, Sub, Mul\<close>

definition XorExpr_createPartialR :: "apint \<Rightarrow> expr \<Rightarrow> expr" where
  "XorExpr_createPartialR cl r =
     (if isZero cl then r
      else if getBitWidth cl = Bool then EqExpr_createPartial r (mkAPInt Bool 0)
      else BinaryExpr Xor (ConstantExpr cl) r)"

definition XorExpr_createPartial :: "expr \<Rightarrow> apint \<Rightarrow> expr" where
  "XorExpr_createPartial l cr = XorExpr_createPartialR cr l"

definition XorExpr_create :: "expr \<Rightarrow> expr \<Rightarrow> expr" where
  "XorExpr_create l r = BinaryExpr Xor l r"

definition Xor_create :: "expr \<Rightarrow> expr \<Rightarrow> expr" where
  "Xor_create = BCREATE_R Xor XorExpr_createPartial XorExpr_createPartialR XorExpr_create"

function AddExpr_createPartialR :: "apint \<Rightarrow> expr \<Rightarrow> expr"
  and SubExpr_createPartialR :: "apint \<Rightarrow> expr \<Rightarrow> expr"
  and Add_createC :: "apint \<Rightarrow> expr \<Rightarrow> expr"
  and Sub_createC :: "apint \<Rightarrow> expr \<Rightarrow> expr" where
  "AddExpr_createPartialR cl r =
     (if getBitWidth cl = Bool then XorExpr_createPartialR cl r
      else if isZero cl then r
      else case asBinC Add r of
        Some (k, c) \<Rightarrow> Add_createC (CE_Add cl k) c
      | None \<Rightarrow> (case asBinC Sub r of
        Some (k, c) \<Rightarrow> Sub_createC (CE_Add cl k) c
      | None \<Rightarrow> BinaryExpr Add (ConstantExpr cl) r))"
| "SubExpr_createPartialR cl r =
     (if getBitWidth cl = Bool then XorExpr_createPartialR cl r
      else case asBinC Add r of
        Some (k, c) \<Rightarrow> Sub_createC (CE_Sub cl k) c
      | None \<Rightarrow> (case asBinC Sub r of
        Some (k, c) \<Rightarrow> Add_createC (CE_Sub cl k) c
      | None \<Rightarrow> BinaryExpr Sub (ConstantExpr cl) r))"
| "Add_createC cl r =
     (case asConst r of Some cr \<Rightarrow> ConstantExpr (CE_Add cl cr) | None \<Rightarrow> AddExpr_createPartialR cl r)"
| "Sub_createC cl r =
     (case asConst r of Some cr \<Rightarrow> ConstantExpr (CE_Sub cl cr) | None \<Rightarrow> SubExpr_createPartialR cl r)"
  by pat_completeness auto
termination
  by (relation "measure (case_sum (case_sum (\<lambda>(cl, r). 2 * size r) (\<lambda>(cl, r). 2 * size r))
        (case_sum (\<lambda>(cl, r). 2 * size r + 1) (\<lambda>(cl, r). 2 * size r + 1)))") auto

definition AddExpr_createPartial :: "expr \<Rightarrow> apint \<Rightarrow> expr" where
  "AddExpr_createPartial l cr = AddExpr_createPartialR cr l"

definition SubExpr_createPartial :: "expr \<Rightarrow> apint \<Rightarrow> expr" where
  "SubExpr_createPartial l cr = AddExpr_createPartial l (CE_Sub (mkAPInt (getBitWidth cr) 0) cr)"

text \<open>\<open>SubExpr::create\<close> with a constant right operand.\<close>

definition Sub_createRC :: "expr \<Rightarrow> apint \<Rightarrow> expr" where
  "Sub_createRC l cr =
     (case asConst l of Some cl \<Rightarrow> ConstantExpr (CE_Sub cl cr) | None \<Rightarrow> SubExpr_createPartial l cr)"

function AddExpr_create :: "expr \<Rightarrow> expr \<Rightarrow> expr"
  and SubExpr_create :: "expr \<Rightarrow> expr \<Rightarrow> expr"
  and Add_create :: "expr \<Rightarrow> expr \<Rightarrow> expr"
  and Sub_create :: "expr \<Rightarrow> expr \<Rightarrow> expr" where
  "AddExpr_create l r =
     (if getWidth l = Bool then XorExpr_create l r
      else case asBinC Add l of
        Some (k, a) \<Rightarrow> Add_createC k (Add_create a r)
      | None \<Rightarrow> (case asBinC Sub l of
        Some (k, a) \<Rightarrow> Add_createC k (Sub_create r a)
      | None \<Rightarrow> (case asBinC Add r of
        Some (k, b) \<Rightarrow> Add_createC k (Add_create l b)
      | None \<Rightarrow> (case asBinC Sub r of
        Some (k, b) \<Rightarrow> Add_createC k (Sub_create l b)
      | None \<Rightarrow> BinaryExpr Add l r))))"
| "SubExpr_create l r =
     (if getWidth l = Bool then XorExpr_create l r
      else if l = r then ConstantExpr (mkAPInt (getWidth l) 0)
      else case asBinC Add l of
        Some (k, a) \<Rightarrow> Add_createC k (Sub_create a r)
      | None \<Rightarrow> (case asBinC Sub l of
        Some (k, a) \<Rightarrow> Sub_createC k (Add_create a r)
      | None \<Rightarrow> (case asBinC Add r of
        Some (k, b) \<Rightarrow> Sub_createRC (Sub_create l b) k
      | None \<Rightarrow> (case asBinC Sub r of
        Some (k, b) \<Rightarrow> Sub_createRC (Add_create l b) k
      | None \<Rightarrow> BinaryExpr Sub l r))))"
| "Add_create l r =
     (case asConst l of
        Some cl \<Rightarrow> (case asConst r of Some cr \<Rightarrow> ConstantExpr (CE_Add cl cr)
                     | None \<Rightarrow> AddExpr_createPartialR cl r)
      | None \<Rightarrow> (case asConst r of Some cr \<Rightarrow> AddExpr_createPartial l cr
                     | None \<Rightarrow> AddExpr_create l r))"
| "Sub_create l r =
     (case asConst l of
        Some cl \<Rightarrow> (case asConst r of Some cr \<Rightarrow> ConstantExpr (CE_Sub cl cr)
                     | None \<Rightarrow> SubExpr_createPartialR cl r)
      | None \<Rightarrow> (case asConst r of Some cr \<Rightarrow> SubExpr_createPartial l cr
                     | None \<Rightarrow> SubExpr_create l r))"
  by pat_completeness auto
termination
  by (relation "measure (case_sum (case_sum (\<lambda>(l, r). 2 * (size l + size r)) (\<lambda>(l, r). 2 * (size l + size r)))
        (case_sum (\<lambda>(l, r). 2 * (size l + size r) + 1) (\<lambda>(l, r). 2 * (size l + size r) + 1)))") auto

definition MulExpr_createPartialR :: "apint \<Rightarrow> expr \<Rightarrow> expr" where
  "MulExpr_createPartialR cl r =
     (if getBitWidth cl = Bool then AndExpr_createPartialR cl r
      else if isOne cl then r
      else if isZero cl then ConstantExpr cl
      else BinaryExpr Mul (ConstantExpr cl) r)"

definition MulExpr_createPartial :: "expr \<Rightarrow> apint \<Rightarrow> expr" where
  "MulExpr_createPartial l cr = MulExpr_createPartialR cr l"

definition MulExpr_create :: "expr \<Rightarrow> expr \<Rightarrow> expr" where
  "MulExpr_create l r = (if getWidth l = Bool then BinaryExpr And l r else BinaryExpr Mul l r)"

definition Mul_create :: "expr \<Rightarrow> expr \<Rightarrow> expr" where
  "Mul_create = BCREATE_R Mul MulExpr_createPartial MulExpr_createPartialR MulExpr_create"

declare AddExpr_createPartialR.simps [simp del] SubExpr_createPartialR.simps [simp del]
  Add_createC.simps [simp del] Sub_createC.simps [simp del]
  AddExpr_create.simps [simp del] SubExpr_create.simps [simp del]
  Add_create.simps [simp del] Sub_create.simps [simp del]

subsection \<open>The recursion equations as the source writes them\<close>

lemma Add_createC_eq: "Add_createC k e = Add_create (ConstantExpr k) e"
  by (simp add: Add_createC.simps Add_create.simps)

lemma Sub_createC_eq: "Sub_createC k e = Sub_create (ConstantExpr k) e"
  by (simp add: Sub_createC.simps Sub_create.simps)

lemma Sub_createRC_eq: "Sub_createRC e k = Sub_create e (ConstantExpr k)"
  by (simp add: Sub_createRC_def Sub_create.simps split: option.split)

lemma Add_create_source:
  "Add_create = BCREATE_R Add AddExpr_createPartial AddExpr_createPartialR AddExpr_create"
  by (simp add: fun_eq_iff Add_create.simps BCREATE_R_def split: option.split)

lemma Sub_create_source:
  "Sub_create = BCREATE_R Sub SubExpr_createPartial SubExpr_createPartialR SubExpr_create"
  by (simp add: fun_eq_iff Sub_create.simps BCREATE_R_def split: option.split)

subsection \<open>Division, remainder and shifts\<close>

definition UDivExpr_create :: "expr \<Rightarrow> expr \<Rightarrow> expr" where
  "UDivExpr_create l r = (if getWidth l = Bool then l else BinaryExpr UDiv l r)"

definition SDivExpr_create :: "expr \<Rightarrow> expr \<Rightarrow> expr" where
  "SDivExpr_create l r = (if getWidth l = Bool then l else BinaryExpr SDiv l r)"

definition URemExpr_create :: "expr \<Rightarrow> expr \<Rightarrow> expr" where
  "URemExpr_create l r =
     (if getWidth l = Bool then ConstantExpr (mkAPInt Bool 0) else BinaryExpr URem l r)"

definition SRemExpr_create :: "expr \<Rightarrow> expr \<Rightarrow> expr" where
  "SRemExpr_create l r =
     (if getWidth l = Bool then ConstantExpr (mkAPInt Bool 0) else BinaryExpr SRem l r)"

definition ShlExpr_create :: "expr \<Rightarrow> expr \<Rightarrow> expr" where
  "ShlExpr_create l r =
     (if getWidth l = Bool then And_create l (createIsZero r) else BinaryExpr Shl l r)"

definition LShrExpr_create :: "expr \<Rightarrow> expr \<Rightarrow> expr" where
  "LShrExpr_create l r =
     (if getWidth l = Bool then And_create l (createIsZero r) else BinaryExpr LShr l r)"

definition AShrExpr_create :: "expr \<Rightarrow> expr \<Rightarrow> expr" where
  "AShrExpr_create l r = (if getWidth l = Bool then l else BinaryExpr AShr l r)"

definition UDiv_create :: "expr \<Rightarrow> expr \<Rightarrow> expr" where
  "UDiv_create = BCREATE UDiv UDivExpr_create"

definition SDiv_create :: "expr \<Rightarrow> expr \<Rightarrow> expr" where
  "SDiv_create = BCREATE SDiv SDivExpr_create"

definition URem_create :: "expr \<Rightarrow> expr \<Rightarrow> expr" where
  "URem_create = BCREATE URem URemExpr_create"

definition SRem_create :: "expr \<Rightarrow> expr \<Rightarrow> expr" where
  "SRem_create = BCREATE SRem SRemExpr_create"

definition Shl_create :: "expr \<Rightarrow> expr \<Rightarrow> expr" where
  "Shl_create = BCREATE Shl ShlExpr_create"

definition LShr_create :: "expr \<Rightarrow> expr \<Rightarrow> expr" where
  "LShr_create = BCREATE LShr LShrExpr_create"

definition AShr_create :: "expr \<Rightarrow> expr \<Rightarrow> expr" where
  "AShr_create = BCREATE AShr AShrExpr_create"

subsection \<open>Comparisons\<close>

definition Ne_create :: "expr \<Rightarrow> expr \<Rightarrow> expr" where
  "Ne_create l r = Eq_create (ConstantExpr (mkAPInt Bool 0)) (Eq_create l r)"

definition UltExpr_create :: "expr \<Rightarrow> expr \<Rightarrow> expr" where
  "UltExpr_create l r =
     (if getWidth l = Bool then And_create (createIsZero l) r else BinaryExpr Ult l r)"

definition UleExpr_create :: "expr \<Rightarrow> expr \<Rightarrow> expr" where
  "UleExpr_create l r =
     (if getWidth l = Bool then Or_create (createIsZero l) r else BinaryExpr Ule l r)"

definition SltExpr_create :: "expr \<Rightarrow> expr \<Rightarrow> expr" where
  "SltExpr_create l r =
     (if getWidth l = Bool then And_create l (createIsZero r) else BinaryExpr Slt l r)"

definition SleExpr_create :: "expr \<Rightarrow> expr \<Rightarrow> expr" where
  "SleExpr_create l r =
     (if getWidth l = Bool then Or_create l (createIsZero r) else BinaryExpr Sle l r)"

definition Ult_create :: "expr \<Rightarrow> expr \<Rightarrow> expr" where
  "Ult_create = CMPCREATE Ult UltExpr_create"

definition Ule_create :: "expr \<Rightarrow> expr \<Rightarrow> expr" where
  "Ule_create = CMPCREATE Ule UleExpr_create"

definition Slt_create :: "expr \<Rightarrow> expr \<Rightarrow> expr" where
  "Slt_create = CMPCREATE Slt SltExpr_create"

definition Sle_create :: "expr \<Rightarrow> expr \<Rightarrow> expr" where
  "Sle_create = CMPCREATE Sle SleExpr_create"

definition Ugt_create :: "expr \<Rightarrow> expr \<Rightarrow> expr" where
  "Ugt_create l r = Ult_create r l"

definition Uge_create :: "expr \<Rightarrow> expr \<Rightarrow> expr" where
  "Uge_create l r = Ule_create r l"

definition Sgt_create :: "expr \<Rightarrow> expr \<Rightarrow> expr" where
  "Sgt_create l r = Slt_create r l"

definition Sge_create :: "expr \<Rightarrow> expr \<Rightarrow> expr" where
  "Sge_create l r = Sle_create r l"

definition createImplies :: "expr \<Rightarrow> expr \<Rightarrow> expr" where
  "createImplies hyp conc = Or_create (createIsZero hyp) conc"

text \<open>The binary half of \<open>Expr::createFromKind\<close> and of the \<open>rebuild\<close> methods.\<close>

fun Binary_create :: "bkind \<Rightarrow> expr \<Rightarrow> expr \<Rightarrow> expr" where
  "Binary_create Add = Add_create" | "Binary_create Sub = Sub_create" | "Binary_create Mul = Mul_create"
| "Binary_create UDiv = UDiv_create" | "Binary_create SDiv = SDiv_create"
| "Binary_create URem = URem_create" | "Binary_create SRem = SRem_create"
| "Binary_create And = And_create" | "Binary_create Or = Or_create" | "Binary_create Xor = Xor_create"
| "Binary_create Shl = Shl_create" | "Binary_create LShr = LShr_create" | "Binary_create AShr = AShr_create"
| "Binary_create Eq = Eq_create" | "Binary_create Ne = Ne_create"
| "Binary_create Ult = Ult_create" | "Binary_create Ule = Ule_create"
| "Binary_create Ugt = Ugt_create" | "Binary_create Uge = Uge_create"
| "Binary_create Slt = Slt_create" | "Binary_create Sle = Sle_create"
| "Binary_create Sgt = Sgt_create" | "Binary_create Sge = Sge_create"

subsection \<open>Not, Concat, Extract, casts, Select\<close>

definition NotOptimized_create :: "expr \<Rightarrow> expr" where
  "NotOptimized_create src = NotOptimizedExpr src"

definition Not_create :: "expr \<Rightarrow> expr" where
  "Not_create e = (case asConst e of Some CE \<Rightarrow> ConstantExpr (CE_Not CE) | None \<Rightarrow> NotExpr e)"

text \<open>
  Concatenation may merge two extracts of one expression into an extract, and an extract of
  a concatenation is the concatenation of the parts: the two methods are mutually recursive.
\<close>

function (domintros) Concat_create :: "expr \<Rightarrow> expr \<Rightarrow> expr"
  and Extract_create :: "expr \<Rightarrow> nat \<Rightarrow> width \<Rightarrow> expr" where
  "Concat_create l r =
     (case asConst l of
        Some lCE \<Rightarrow> (case asConst r of Some rCE \<Rightarrow> ConstantExpr (CE_Concat lCE rCE) | None \<Rightarrow> ConcatExpr l r)
      | None \<Rightarrow> (case asExtract l of
        Some (le, lo, lw) \<Rightarrow> (case asExtract r of
            Some (re, ro, rw) \<Rightarrow>
              if le = re \<and> ro + rw = lo then Extract_create le ro (getWidth l + getWidth r)
              else ConcatExpr l r
          | None \<Rightarrow> ConcatExpr l r)
      | None \<Rightarrow> ConcatExpr l r))"
| "Extract_create e off w =
     (if w = getWidth e then e
      else case asConst e of
        Some CE \<Rightarrow> ConstantExpr (CE_Extract CE off w)
      | None \<Rightarrow> (case asConcat e of
        Some (l, r) \<Rightarrow>
          if getWidth r \<le> off then Extract_create l (off - getWidth r) w
          else if off + w \<le> getWidth r then Extract_create r off w
          else Concat_create (Extract_create l 0 (w + off - getWidth r)) (Extract_create r off (getWidth r - off))
      | None \<Rightarrow> ExtractExpr e off w))"
  by pat_completeness auto

text \<open>
  The recursion nests: an extract that comes out of \<open>Extract_create e\<close> is taken from an
  expression no larger than \<open>e\<close>. This partial fact carries the termination proof.
\<close>

lemma extract_inner_size:
  "Concat_create_Extract_create_dom (Inl (l, r)) \<Longrightarrow>
     Concat_create l r = ExtractExpr x o' w' \<Longrightarrow> \<exists>le lo lw. l = ExtractExpr le lo lw \<and> size x \<le> size le"
  "Concat_create_Extract_create_dom (Inr (e, off, w)) \<Longrightarrow>
     Extract_create e off w = ExtractExpr x o' w' \<Longrightarrow> size x \<le> size e"
proof (induction arbitrary: x o' w' and x o' w' rule: Concat_create_Extract_create.pinduct)
  case (1 l r)
  from "1.prems" obtain le lo lw ro rw where l: "l = ExtractExpr le lo lw" and r: "r = ExtractExpr le ro rw"
    and off: "ro + rw = lo" and x: "Extract_create le ro (getWidth l + getWidth r) = ExtractExpr x o' w'"
    by (auto simp: Concat_create.psimps [OF "1.hyps"] split: option.splits if_splits)
  have "size x \<le> size le"
    using "1.IH" [of "(le, lo, lw)" le "(lo, lw)" lo lw "(le, ro, rw)" le "(ro, rw)" ro rw] l r off x by simp
  with l show ?case by blast
next
  case (2 e off w)
  show ?case
  proof (cases "asConcat e")
    case None
    with "2.prems" show ?thesis
      by (auto simp: Extract_create.psimps [OF "2.hyps"] split: option.splits if_splits)
  next
    case (Some lr)
    then obtain l r where e: "e = ConcatExpr l r" by (cases lr) auto
    consider "w = getWidth e" | "w \<noteq> getWidth e" "getWidth r \<le> off"
      | "w \<noteq> getWidth e" "\<not> getWidth r \<le> off" "off + w \<le> getWidth r"
      | "w \<noteq> getWidth e" "\<not> getWidth r \<le> off" "\<not> off + w \<le> getWidth r" by blast
    then show ?thesis
    proof cases
      case 4
      let ?X = "Extract_create l 0 (w + off - getWidth r)"
      have "Extract_create e off w = Concat_create ?X (Extract_create r off (getWidth r - off))"
        by (subst Extract_create.psimps [OF "2.hyps"]) (use 4 e in simp)
      with 4 e "2.prems" obtain le lo lw where X: "?X = ExtractExpr le lo lw" and "size x \<le> size le"
        using "2.IH"(5) [of "(l, r)" l r x o' w'] by auto
      moreover from 4 e X have "size le \<le> size l"
        using "2.IH"(3) [of "(l, r)" l r] by auto
      ultimately show ?thesis using e by simp
    qed (use e "2.prems" "2.IH"(1,2) [of "(l, r)" l r x o' w'] Extract_create.psimps [OF "2.hyps"] in auto)
  qed
qed

termination Concat_create
proof (relation "measure (case_sum (\<lambda>(l, r). case asExtract l of Some (le, _) \<Rightarrow> 2 * size le + 1 | None \<Rightarrow> 0)
        (\<lambda>(e, off, w). 2 * size e))", goal_cases)
  case (7 e off w x l r)
  then show ?case
    using extract_inner_size(2) [of l 0 "w + off - getWidth r"] by (auto split: option.split)
qed (auto split: option.splits)

declare Concat_create.simps [simp del] Extract_create.simps [simp del]

definition ZExt_create :: "expr \<Rightarrow> width \<Rightarrow> expr" where
  "ZExt_create e w =
     (if w = getWidth e then e
      else if w < getWidth e then Extract_create e 0 w
      else case asConst e of Some CE \<Rightarrow> ConstantExpr (CE_ZExt CE w) | None \<Rightarrow> ZExtExpr e w)"

definition SExt_create :: "expr \<Rightarrow> width \<Rightarrow> expr" where
  "SExt_create e w =
     (if w = getWidth e then e
      else if w < getWidth e then Extract_create e 0 w
      else case asConst e of Some CE \<Rightarrow> ConstantExpr (CE_SExt CE w) | None \<Rightarrow> SExtExpr e w)"

definition Select_create :: "expr \<Rightarrow> expr \<Rightarrow> expr \<Rightarrow> expr" where
  "Select_create c t f =
     (case asConst c of
        Some CE \<Rightarrow> if isTrue CE then t else f
      | None \<Rightarrow>
          if t = f then t
          else if getWidth t = Bool then
            (case asConst t of
               Some CE \<Rightarrow> if isTrue CE then Or_create c f else And_create (createIsZero c) f
             | None \<Rightarrow> (case asConst f of
               Some CE \<Rightarrow> if isTrue CE then Or_create (createIsZero c) t else And_create c t
             | None \<Rightarrow> SelectExpr c t f))
          else SelectExpr c t f)"

text \<open>\<open>ConcatExpr::createN\<close>: the chain leans to the right; the empty argument list is an assertion failure.\<close>

fun Concat_createN :: "expr list \<Rightarrow> expr option" where
  "Concat_createN [] = None"
| "Concat_createN [k] = Some k"
| "Concat_createN (k # ks) = map_option (Concat_create k) (Concat_createN ks)"

definition Concat_create4 :: "expr \<Rightarrow> expr \<Rightarrow> expr \<Rightarrow> expr \<Rightarrow> expr" where
  "Concat_create4 k1 k2 k3 k4 = Concat_create k1 (Concat_create k2 (Concat_create k3 k4))"

definition Concat_create8 ::
  "expr \<Rightarrow> expr \<Rightarrow> expr \<Rightarrow> expr \<Rightarrow> expr \<Rightarrow> expr \<Rightarrow> expr \<Rightarrow> expr \<Rightarrow> expr" where
  "Concat_create8 k1 k2 k3 k4 k5 k6 k7 k8 =
     Concat_create k1 (Concat_create k2 (Concat_create k3 (Concat_create k4 (Concat_create4 k5 k6 k7 k8))))"

subsection \<open>Read\<close>

text \<open>
  The scan of \<open>ReadExpr::create\<close> over the update list, most recent first: the value of an update
  whose index equals the read index, or the remaining list at the first update whose index
  may be equal, or the end of the list.
\<close>

datatype scan = Found expr | SymbolicWrite updates | ScanEnd

primrec read_scan :: "expr \<Rightarrow> updates \<Rightarrow> scan" where
  "read_scan index NullNode = ScanEnd"
| "read_scan index (UpdateNode i v n) =
     (case asConst (Eq_create index i) of
        Some CE \<Rightarrow> if isTrue CE then Found v else read_scan index n
      | None \<Rightarrow> SymbolicWrite (UpdateNode i v n))"

definition read_rest :: "scan \<Rightarrow> updates" where
  "read_rest s = (case s of SymbolicWrite un \<Rightarrow> un | _ \<Rightarrow> NullNode)"

definition Read_create :: "array \<Rightarrow> updates \<Rightarrow> expr \<Rightarrow> expr" where
  "Read_create root head index =
     (case read_scan index head of
        Found v \<Rightarrow> v
      | s \<Rightarrow>
         (case asConst index of
            None \<Rightarrow> ReadExpr root head index
          | Some CE \<Rightarrow>
              if isConstantArray root \<and> s = ScanEnd \<and> nat (getZExtValue CE) < arr_size root
              then ConstantExpr (constantValues root ! nat (getZExtValue CE))
              else if nat (getZExtValue CE) < arr_size root
              then ReadExpr root (read_rest s) index
              else ReadExpr root head index))"

definition createTempRead :: "array \<Rightarrow> width \<Rightarrow> expr option" where
  "createTempRead array w =
     (let rd = (\<lambda>i. Read_create array NullNode (ConstantExpr (mkAPInt Int32 i))) in
      if w = Bool then Some (ZExt_create (rd 0) Bool)
      else if w = Int8 then Some (rd 0)
      else if w = Int16 then Some (Concat_create (rd 1) (rd 0))
      else if w = Int32 then Some (Concat_create4 (rd 3) (rd 2) (rd 1) (rd 0))
      else if w = Int64 then
        Some (Concat_create8 (rd 7) (rd 6) (rd 5) (rd 4) (rd 3) (rd 2) (rd 1) (rd 0))
      else None)"

subsection \<open>\<open>rebuild\<close>: the same class on new kids\<close>

fun rebuild :: "expr \<Rightarrow> expr list \<Rightarrow> expr" where
  "rebuild (NotOptimizedExpr e) ks = NotOptimized_create (ks ! 0)"
| "rebuild (ReadExpr a us i) ks = Read_create a us (ks ! 0)"
| "rebuild (SelectExpr c t f) ks = Select_create (ks ! 0) (ks ! 1) (ks ! 2)"
| "rebuild (ConcatExpr l r) ks = Concat_create (ks ! 0) (ks ! 1)"
| "rebuild (ExtractExpr e off w) ks = Extract_create (ks ! 0) off w"
| "rebuild (NotExpr e) ks = Not_create (ks ! 0)"
| "rebuild (ZExtExpr e w) ks = ZExt_create (ks ! 0) w"
| "rebuild (SExtExpr e w) ks = SExt_create (ks ! 0) w"
| "rebuild (BinaryExpr k l r) ks = Binary_create k (ks ! 0) (ks ! 1)"
| "rebuild (ConstantExpr c) ks = ConstantExpr c"

end
