(* ===== verification/ExprSound.thy ===== *)
theory ExprSound
  imports ExprCreate
begin

text \<open>
  Soundness of the simplifying constructors: what \<open>create\<close> returns is well typed, has the
  width of the plain node, evaluates to the same value under every environment and divides
  by zero in no environment in which the plain node does not.
\<close>

subsection \<open>Equivalence of expressions\<close>

definition expr_equiv :: "expr \<Rightarrow> expr \<Rightarrow> bool" where
  "expr_equiv e' e \<longleftrightarrow> wt e' \<and> getWidth e' = getWidth e \<and>
     (\<forall>\<rho>. eval \<rho> e' = eval \<rho> e) \<and> (\<forall>\<rho>. div_safe \<rho> e \<longrightarrow> div_safe \<rho> e')"

lemma expr_equiv_refl [simp, intro]: "wt e \<Longrightarrow> expr_equiv e e"
  by (simp add: expr_equiv_def)

lemma expr_equiv_trans [trans]: "expr_equiv a b \<Longrightarrow> expr_equiv b c \<Longrightarrow> expr_equiv a c"
  by (simp add: expr_equiv_def)

lemma expr_equivI:
  "\<lbrakk>wt e'; getWidth e' = getWidth e; \<And>\<rho>. eval \<rho> e' = eval \<rho> e;
    \<And>\<rho>. div_safe \<rho> e \<Longrightarrow> div_safe \<rho> e'\<rbrakk> \<Longrightarrow> expr_equiv e' e"
  by (simp add: expr_equiv_def)

lemma expr_equivD:
  assumes "expr_equiv e' e"
  shows "wt e'" "getWidth e' = getWidth e" "eval \<rho> e' = eval \<rho> e" "div_safe \<rho> e \<Longrightarrow> div_safe \<rho> e'"
  using assms by (auto simp: expr_equiv_def)

lemma expr_equiv_Binary:
  "expr_equiv l' l \<Longrightarrow> expr_equiv r' r \<Longrightarrow> getWidth l = getWidth r \<Longrightarrow>
     expr_equiv (BinaryExpr k l' r') (BinaryExpr k l r)"
  by (auto simp: expr_equiv_def)

subsection \<open>Constant folding\<close>

lemma CE_bin_ok:
  assumes "apint_ok a" "apint_ok b" "getBitWidth a = getBitWidth b"
  shows "apint_ok (CE_bin k a b)"
    "getBitWidth (CE_bin k a b) = (if isCmp k then Bool else getBitWidth a)"
  using assms by (cases k; simp add: ap_simps apint_ok_def isCmp_def)+

lemma shift_amount:
  assumes "apint_ok a" "apint_ok b" "getBitWidth a = getBitWidth b"
  shows "shiftAmt a b = (if uval b < int (getBitWidth a) then nat (uval b) else getBitWidth a)"
  by (simp add: shiftAmt_def getLimitedValue_def)

lemma drop_bit_eq_0: "0 \<le> v \<Longrightarrow> v < 2 ^ n \<Longrightarrow> drop_bit n v = (0::int)"
  by (simp add: drop_bit_eq_div div_pos_pos_trivial)

lemma CE_bin_uval:
  assumes "apint_ok a" "apint_ok b" "getBitWidth a = getBitWidth b"
  shows "uval (CE_bin k a b) = sem_bin k (getBitWidth a) (uval a) (uval b)"
proof -
  note rng = apint_okD [OF assms(1)] apint_okD [OF assms(2)]
  show ?thesis
  proof (cases k)
    case LShr
    have "take_bit (getBitWidth a) (drop_bit (nat (uval b)) (uval a)) = drop_bit (nat (uval b)) (uval a)"
      using sem_bin_range [of "getBitWidth a" "uval a" 0 LShr]
      by (metis (no_types) add.commute rng(4) take_bit_drop_bit take_bit_wider le_add1)
    then show ?thesis
      using LShr rng assms by (simp add: ap_simps shift_amount drop_bit_eq_0)
  next
    case Shl
    then show ?thesis using rng assms by (simp add: ap_simps shift_amount take_bit_push_bit)
  next
    case And
    then show ?thesis using rng assms by (simp add: ap_simps take_bit_and)
  next
    case Or
    then show ?thesis using rng assms by (simp add: ap_simps take_bit_or)
  next
    case Xor
    then show ?thesis using rng assms by (simp add: ap_simps take_bit_xor)
  qed (use rng assms in \<open>simp_all add: ap_simps shift_amount sval_def\<close>)
qed

lemma fold_equiv:
  "wt (BinaryExpr k (ConstantExpr a) (ConstantExpr b)) \<Longrightarrow>
    expr_equiv (ConstantExpr (CE_bin k a b)) (BinaryExpr k (ConstantExpr a) (ConstantExpr b))"
  by (auto simp: expr_equiv_def CE_bin_ok CE_bin_uval)

lemma CE_eq_equiv:
  "apint_ok a \<Longrightarrow> apint_ok b \<Longrightarrow> getBitWidth a = getBitWidth b \<Longrightarrow>
    expr_equiv (ConstantExpr (CE_Eq a b)) (BinaryExpr Eq (ConstantExpr a) (ConstantExpr b))"
  using fold_equiv [of Eq a b] by simp

text \<open>One rule per method macro.\<close>

lemma BCREATE_R_equiv:
  assumes "wt (BinaryExpr k l r)"
    and "\<And>cl. l = ConstantExpr cl \<Longrightarrow> expr_equiv (pR cl r) (BinaryExpr k (ConstantExpr cl) r)"
    and "\<And>cr. r = ConstantExpr cr \<Longrightarrow> expr_equiv (pL l cr) (BinaryExpr k l (ConstantExpr cr))"
    and "expr_equiv (f l r) (BinaryExpr k l r)"
  shows "expr_equiv (BCREATE_R k pL pR f l r) (BinaryExpr k l r)"
  using assms fold_equiv by (auto simp: BCREATE_R_def split: option.split simp del: wt.simps)

lemma CMPCREATE_T_equiv:
  assumes "wt (BinaryExpr k l r)"
    and "\<And>cl. l = ConstantExpr cl \<Longrightarrow> expr_equiv (pR cl r) (BinaryExpr k (ConstantExpr cl) r)"
    and "\<And>cr. r = ConstantExpr cr \<Longrightarrow> expr_equiv (pL l cr) (BinaryExpr k l (ConstantExpr cr))"
    and "expr_equiv (f l r) (BinaryExpr k l r)"
  shows "expr_equiv (CMPCREATE_T k pL pR f l r) (BinaryExpr k l r)"
proof -
  have "CMPCREATE_T k pL pR f l r = BCREATE_R k pL pR f l r"
    by (simp add: BCREATE_R_def CMPCREATE_T_def)
  then show ?thesis using BCREATE_R_equiv [where pL = pL and pR = pR and f = f] assms by metis
qed

lemma BCREATE_equiv:
  assumes "wt (BinaryExpr k l r)" and "expr_equiv (f l r) (BinaryExpr k l r)"
  shows "expr_equiv (BCREATE k f l r) (BinaryExpr k l r)"
  using assms fold_equiv by (auto simp: BCREATE_def split: option.split simp del: wt.simps)

lemma CMPCREATE_equiv:
  assumes "wt (BinaryExpr k l r)" and "expr_equiv (f l r) (BinaryExpr k l r)"
  shows "expr_equiv (CMPCREATE k f l r) (BinaryExpr k l r)"
proof -
  have "CMPCREATE k f l r = BCREATE k f l r"
    by (simp add: BCREATE_def CMPCREATE_def)
  then show ?thesis using BCREATE_equiv [where f = f] assms by metis
qed

subsection \<open>And, Or\<close>

lemma and_all_ones: "take_bit w v = v \<Longrightarrow> v AND (2 ^ w - 1) = (v::int)"
  by (metis mask_eq_exp_minus_1 take_bit_eq_mask)

lemma or_all_ones:
  assumes "take_bit w v = v"
  shows "v OR (2 ^ w - 1) = (2 ^ w - 1 :: int)"
proof -
  have "v = v AND mask w" using assms by (simp add: take_bit_eq_mask)
  then have "v OR mask w = mask w" by (metis and.commute bit.disj_conj_distrib2 bit.conj_disj_distrib or.idem
        or.right_idem bit_eqI bit_or_iff bit_and_iff)
  then show ?thesis by (simp add: mask_eq_exp_minus_1)
qed

lemma eval_all_ones:
  assumes "wt e" "getWidth e = w"
  shows "eval \<rho> e AND (2 ^ w - 1) = eval \<rho> e" "eval \<rho> e OR (2 ^ w - 1) = 2 ^ w - 1"
  using eval_range(1) [OF assms(1), of \<rho>] assms(2) and_all_ones or_all_ones by auto

lemma And_createPartial_equiv:
  assumes "wt (BinaryExpr And l (ConstantExpr c))"
  shows "expr_equiv (AndExpr_createPartial l c) (BinaryExpr And l (ConstantExpr c))"
proof (cases "isAllOnes c")
  case True
  with assms show ?thesis
    by (simp add: AndExpr_createPartial_def expr_equiv_def isCmp_def isAllOnes_def eval_all_ones)
next
  case False
  with assms show ?thesis
    by (auto simp: AndExpr_createPartial_def expr_equiv_def isCmp_def isZero_def)
qed

lemma Or_createPartial_equiv:
  assumes "wt (BinaryExpr Or l (ConstantExpr c))"
  shows "expr_equiv (OrExpr_createPartial l c) (BinaryExpr Or l (ConstantExpr c))"
proof (cases "isAllOnes c")
  case True
  with assms show ?thesis
    by (simp add: OrExpr_createPartial_def expr_equiv_def isCmp_def isAllOnes_def eval_all_ones)
next
  case False
  with assms show ?thesis
    by (auto simp: OrExpr_createPartial_def expr_equiv_def isCmp_def isZero_def)
qed

lemma Binary_commute:
  "k \<in> {And, Or, Xor, Add, Mul, Eq} \<Longrightarrow> wt (BinaryExpr k l r) \<Longrightarrow>
    expr_equiv e (BinaryExpr k r l) \<Longrightarrow> expr_equiv e (BinaryExpr k l r)"
  by (auto simp: expr_equiv_def isCmp_def isDiv_def and.commute or.commute xor.commute add.commute mult.commute)

lemma And_create_equiv:
  "wt (BinaryExpr And l r) \<Longrightarrow> expr_equiv (And_create l r) (BinaryExpr And l r)"
  unfolding And_create_def
  by (rule BCREATE_R_equiv)
    (auto simp: AndExpr_createPartialR_def AndExpr_create_def
      intro!: And_createPartial_equiv intro: Binary_commute [of And, OF _ _ And_createPartial_equiv])

lemma Or_create_equiv:
  "wt (BinaryExpr Or l r) \<Longrightarrow> expr_equiv (Or_create l r) (BinaryExpr Or l r)"
  unfolding Or_create_def
  by (rule BCREATE_R_equiv)
    (auto simp: OrExpr_createPartialR_def OrExpr_create_def
      intro!: Or_createPartial_equiv intro: Binary_commute [of Or, OF _ _ Or_createPartial_equiv])

subsection \<open>Eq\<close>

lemma EqExpr_create_equiv:
  "wt (BinaryExpr Eq l r) \<Longrightarrow> expr_equiv (EqExpr_create l r) (BinaryExpr Eq l r)"
  by (auto simp: EqExpr_create_def expr_equiv_def isCmp_def)

text \<open>When is an extended value equal to a constant? Exactly when the truncated constant is the value
  and extends back to the constant.\<close>

lemma sext_eq_iff:
  assumes "0 < m" "m \<le> n" "take_bit m a = a"
  shows "take_bit n (sgn_val m a) = v \<longleftrightarrow>
    v = take_bit n (sgn_val m (take_bit m v)) \<and> a = take_bit m v"
proof -
  have "take_bit m (take_bit n (sgn_val m a)) = a"
    using assms by (simp add: take_bit_inner)
  then show ?thesis by metis
qed

lemma zext_eq_iff:
  assumes "m \<le> n" "take_bit m a = (a::int)"
  shows "a = v \<longleftrightarrow> v = take_bit n (take_bit m v) \<and> a = take_bit m v"
proof -
  have "take_bit n a = a" using assms by (rule take_bit_wider)
  then show ?thesis using assms(2) by auto
qed

lemma add_eq_iff:
  assumes "take_bit w b = b" "take_bit w v = (v::int)"
  shows "v = take_bit w (k + b) \<longleftrightarrow> take_bit w (v - k) = b"
    and "v = take_bit w (k - b) \<longleftrightarrow> take_bit w (k - v) = b"
proof -
  have "take_bit w (take_bit w (k + b) - k) = b" "take_bit w (k - take_bit w (k - b)) = b"
    using assms(1) by (simp_all add: bv_simps)
  moreover have "take_bit w (k + take_bit w (v - k)) = v" "take_bit w (k - take_bit w (k - v)) = v"
    using assms(2) by (simp_all add: bv_simps)
  ultimately show "v = take_bit w (k + b) \<longleftrightarrow> take_bit w (v - k) = b"
    and "v = take_bit w (k - b) \<longleftrightarrow> take_bit w (k - v) = b"
    by auto
qed

lemma mkAPInt_eq_iff: "c = mkAPInt w v \<longleftrightarrow> getBitWidth c = w \<and> uval c = take_bit w v"
  by (cases c) (auto simp: mkAPInt_def)

lemma CE_Sub_ok [simp]: "apint_ok a \<Longrightarrow> apint_ok (CE_Sub a b)"
  by (simp add: CE_Sub_def apint_okD)

lemma CE_Add_ok [simp]: "apint_ok a \<Longrightarrow> apint_ok (CE_Add a b)"
  by (simp add: CE_Add_def apint_okD)

text \<open>One lemma per branch of \<open>EqExpr_createPartialR\<close>.\<close>

lemma eqR_true:
  assumes "wt r" "apint_ok cl" "getBitWidth cl = Bool" "getWidth r = Bool" "isTrue cl"
  shows "expr_equiv r (BinaryExpr Eq (ConstantExpr cl) r)"
  using assms eval_bool_cases [OF assms(1,4)]
  by (fastforce simp: expr_equiv_def isCmp_def isDiv_def apint_ok_isTrue)

lemma eqR_double_neg:
  assumes "wt (BinaryExpr Eq (ConstantExpr CE) r)" "isFalse CE"
    and "apint_ok cl" "getBitWidth cl = Bool" "\<not> isTrue cl"
  shows "expr_equiv r (BinaryExpr Eq (ConstantExpr cl) (BinaryExpr Eq (ConstantExpr CE) r))"
  using assms eval_bool_cases [of r]
  by (fastforce simp: expr_equiv_def isCmp_def isDiv_def isTrue_def isFalse_def)

lemma eqR_or:
  assumes l: "expr_equiv l' (BinaryExpr Eq l (ConstantExpr (mkAPInt Bool 0)))"
    and r: "expr_equiv r' (BinaryExpr Eq r (ConstantExpr (mkAPInt Bool 0)))"
    and wt: "wt (BinaryExpr Or l r)" "getWidth l = Bool"
    and cl: "apint_ok cl" "getBitWidth cl = Bool" "\<not> isTrue cl"
  shows "expr_equiv (And_create l' r') (BinaryExpr Eq (ConstantExpr cl) (BinaryExpr Or l r))"
proof -
  have "wt (BinaryExpr And l' r')"
    using l r by (simp add: expr_equiv_def isCmp_def)
  then have "expr_equiv (And_create l' r') (BinaryExpr And l' r')"
    by (rule And_create_equiv)
  also have "expr_equiv (BinaryExpr And l' r') (BinaryExpr Eq (ConstantExpr cl) (BinaryExpr Or l r))"
  proof (rule expr_equivI)
    fix \<rho>
    have "eval \<rho> l = 0 \<or> eval \<rho> l = 1" "eval \<rho> r = 0 \<or> eval \<rho> r = 1"
      using wt eval_bool_cases by simp_all
    then show "eval \<rho> (BinaryExpr And l' r') = eval \<rho> (BinaryExpr Eq (ConstantExpr cl) (BinaryExpr Or l r))"
      using l r cl by (auto simp: expr_equiv_def isTrue_def)
  qed (use l r in \<open>auto simp: expr_equiv_def isCmp_def isDiv_def\<close>)
  finally show ?thesis .
qed

lemma Eq_node_cong:
  assumes "expr_equiv x (BinaryExpr Eq a b)"
    and "\<And>\<rho>. eval \<rho> a = eval \<rho> b \<longleftrightarrow> eval \<rho> c = eval \<rho> d"
    and "\<And>\<rho>. div_safe \<rho> c \<Longrightarrow> div_safe \<rho> d \<Longrightarrow> div_safe \<rho> a \<and> div_safe \<rho> b"
  shows "expr_equiv x (BinaryExpr Eq c d)"
  using assms by (simp add: expr_equiv_def isCmp_def isDiv_def)

lemma Eq_node_false:
  assumes "\<And>\<rho>. eval \<rho> c \<noteq> eval \<rho> d"
  shows "expr_equiv (ConstantExpr (mkAPInt Bool 0)) (BinaryExpr Eq c d)"
  using assms by (simp add: expr_equiv_def isCmp_def)

lemma sext_const_iff:
  assumes "wt src" "getWidth src \<le> w" "apint_ok cl" "getBitWidth cl = w"
  shows "uval cl = eval \<rho> (SExtExpr src w) \<longleftrightarrow>
    cl = CE_SExt (CE_ZExt cl (getWidth src)) w \<and> eval \<rho> src = uval (CE_ZExt cl (getWidth src))"
  using sext_eq_iff [OF wt_width_pos [OF assms(1)] assms(2) eval_range(1) [OF assms(1)], of \<rho> "uval cl"]
    assms wt_width_pos [OF assms(1)]
  by (simp add: CE_SExt_def CE_ZExt_def sextOrTrunc_def zextOrTrunc_def sval_def mkAPInt_eq_iff) metis

lemma zext_const_iff:
  assumes "wt src" "getWidth src \<le> w" "apint_ok cl" "getBitWidth cl = w"
  shows "uval cl = eval \<rho> (ZExtExpr src w) \<longleftrightarrow>
    cl = CE_ZExt (CE_ZExt cl (getWidth src)) w \<and> eval \<rho> src = uval (CE_ZExt cl (getWidth src))"
  using zext_eq_iff [OF assms(2) eval_range(1) [OF assms(1)], of \<rho> "uval cl"] assms
  by (simp add: CE_ZExt_def zextOrTrunc_def mkAPInt_eq_iff) metis

lemma eqR_sext:
  assumes "expr_equiv x (BinaryExpr Eq src (ConstantExpr (CE_ZExt cl (getWidth src))))"
    and src: "wt src" "getWidth src \<le> w" "apint_ok cl" "getBitWidth cl = w"
  shows "expr_equiv (if cl = CE_SExt (CE_ZExt cl (getWidth src)) w then x else ConstantExpr (mkAPInt Bool 0))
    (BinaryExpr Eq (ConstantExpr cl) (SExtExpr src w))"
proof (cases "cl = CE_SExt (CE_ZExt cl (getWidth src)) w")
  case True
  with assms(1) sext_const_iff [OF src] show ?thesis
    by (simp only: if_True) (auto elim!: Eq_node_cong simp del: eval.simps(9))
next
  case False
  with sext_const_iff [OF src] show ?thesis
    by (simp only: if_False) (auto intro!: Eq_node_false simp del: eval.simps(9))
qed

lemma eqR_zext:
  assumes "expr_equiv x (BinaryExpr Eq src (ConstantExpr (CE_ZExt cl (getWidth src))))"
    and src: "wt src" "getWidth src \<le> w" "apint_ok cl" "getBitWidth cl = w"
  shows "expr_equiv (if cl = CE_ZExt (CE_ZExt cl (getWidth src)) w then x else ConstantExpr (mkAPInt Bool 0))
    (BinaryExpr Eq (ConstantExpr cl) (ZExtExpr src w))"
proof (cases "cl = CE_ZExt (CE_ZExt cl (getWidth src)) w")
  case True
  with assms(1) zext_const_iff [OF src] show ?thesis
    by (simp only: if_True) (auto elim!: Eq_node_cong simp del: eval.simps(8))
next
  case False
  with zext_const_iff [OF src] show ?thesis
    by (simp only: if_False) (auto intro!: Eq_node_false simp del: eval.simps(8))
qed

lemma eqR_add:
  assumes "expr_equiv x (BinaryExpr Eq (ConstantExpr (CE_Sub cl k)) b)"
    and "wt b" "apint_ok cl" "getBitWidth k = getWidth b" "getBitWidth cl = getWidth b"
  shows "expr_equiv x (BinaryExpr Eq (ConstantExpr cl) (BinaryExpr Add (ConstantExpr k) b))"
  using assms(1)
proof (rule Eq_node_cong)
  fix \<rho>
  show "eval \<rho> (ConstantExpr (CE_Sub cl k)) = eval \<rho> b \<longleftrightarrow>
    eval \<rho> (ConstantExpr cl) = eval \<rho> (BinaryExpr Add (ConstantExpr k) b)"
    using assms add_eq_iff(1) [OF eval_range(1) [OF assms(2)], of "uval cl" "uval k" \<rho>] apint_okD(4) [of cl]
    by (simp add: CE_Sub_def)
qed simp

lemma eqR_sub:
  assumes "expr_equiv x (BinaryExpr Eq (ConstantExpr (CE_Sub k cl)) b)"
    and "wt b" "apint_ok cl" "getBitWidth k = getWidth b" "getBitWidth cl = getWidth b"
  shows "expr_equiv x (BinaryExpr Eq (ConstantExpr cl) (BinaryExpr Sub (ConstantExpr k) b))"
  using assms(1)
proof (rule Eq_node_cong)
  fix \<rho>
  show "eval \<rho> (ConstantExpr (CE_Sub k cl)) = eval \<rho> b \<longleftrightarrow>
    eval \<rho> (ConstantExpr cl) = eval \<rho> (BinaryExpr Sub (ConstantExpr k) b)"
    using assms add_eq_iff(2) [OF eval_range(1) [OF assms(2)], of "uval cl" "uval k" \<rho>] apint_okD(4) [of cl]
    by (simp add: CE_Sub_def)
qed simp

lemma Eq_partialR_bool:
  assumes IH: "\<And>l r'. r = BinaryExpr Or l r' \<Longrightarrow>
      expr_equiv (Eq_createC l (mkAPInt (getWidth l) 0)) (BinaryExpr Eq l (ConstantExpr (mkAPInt (getWidth l) 0))) \<and>
      expr_equiv (Eq_createC r' (mkAPInt (getWidth r') 0)) (BinaryExpr Eq r' (ConstantExpr (mkAPInt (getWidth r') 0)))"
    and prems: "wt r" "apint_ok cl" "getBitWidth cl = getWidth r" and bool: "getBitWidth cl = Bool"
  shows "expr_equiv (EqExpr_createPartialR cl r) (BinaryExpr Eq (ConstantExpr cl) r)"
proof -
  have dflt: "expr_equiv (EqExpr_create (ConstantExpr cl) r) (BinaryExpr Eq (ConstantExpr cl) r)"
    using prems by (intro EqExpr_create_equiv) simp
  consider (true) "isTrue cl" | (eq) c r' where "\<not> isTrue cl" "r = BinaryExpr Eq (ConstantExpr c) r'"
      "getBitWidth c = Bool" "isFalse c"
    | (or) l r' where "\<not> isTrue cl" "r = BinaryExpr Or l r'"
    | (other) "EqExpr_createPartialR cl r = EqExpr_create (ConstantExpr cl) r"
    using bool by (fastforce simp: EqExpr_createPartialR.simps [of cl r] split: option.splits if_splits prod.splits)
  then show ?thesis
  proof cases
    case true
    then show ?thesis using prems bool eqR_true by (simp add: EqExpr_createPartialR.simps)
  next
    case eq
    then show ?thesis using prems bool eqR_double_neg by (simp add: EqExpr_createPartialR.simps)
  next
    case or
    then have "EqExpr_createPartialR cl r =
      And_create (Eq_createC l (mkAPInt (getWidth l) 0)) (Eq_createC r' (mkAPInt (getWidth r') 0))"
      using bool by (simp add: EqExpr_createPartialR.simps)
    moreover have "getWidth l = Bool" "getWidth r' = Bool"
      using or prems bool by (simp_all add: isCmp_def)
    ultimately show ?thesis using IH [OF or(2)] or prems bool eqR_or by simp
  next
    case other
    then show ?thesis using dflt by simp
  qed
qed

lemma Eq_createC_from_partialR:
  assumes "wt e" "apint_ok c" "getBitWidth c = getWidth e"
    and "expr_equiv (EqExpr_createPartialR c e) (BinaryExpr Eq (ConstantExpr c) e)"
  shows "expr_equiv (Eq_createC e c) (BinaryExpr Eq e (ConstantExpr c))"
proof (cases "asConst e")
  case None
  with assms show ?thesis
    by (auto simp: Eq_createC.simps intro: Binary_commute [of Eq])
next
  case (Some ce)
  with assms show ?thesis by (simp add: Eq_createC.simps CE_eq_equiv)
qed

lemma Eq_partialR_equiv:
  "wt r \<Longrightarrow> apint_ok cl \<Longrightarrow> getBitWidth cl = getWidth r \<Longrightarrow>
    expr_equiv (EqExpr_createPartialR cl r) (BinaryExpr Eq (ConstantExpr cl) r)"
proof (induction r arbitrary: cl rule: measure_induct_rule [of size])
  case (less r)
  note prems = less.prems
  have EqC: "expr_equiv (Eq_createC e c) (BinaryExpr Eq e (ConstantExpr c))"
    if "size e < size r" "wt e" "apint_ok c" "getBitWidth c = getWidth e" for e c
    using that less.IH by (intro Eq_createC_from_partialR) auto
  have dflt: "expr_equiv (EqExpr_create (ConstantExpr cl) r) (BinaryExpr Eq (ConstantExpr cl) r)"
    using prems by (intro EqExpr_create_equiv) simp
  show ?case
  proof (cases "getBitWidth cl = Bool")
    case True
    then show ?thesis
      using prems by (intro Eq_partialR_bool conjI EqC) (auto simp: wt_width_pos)
  next
    case nb: False
    show ?thesis
    proof (cases r)
      case (SExtExpr src w)
      with prems have src: "wt src" "getWidth src \<le> w" "apint_ok cl" "getBitWidth cl = w" by auto
      have "expr_equiv (Eq_createC src (CE_ZExt cl (getWidth src)))
          (BinaryExpr Eq src (ConstantExpr (CE_ZExt cl (getWidth src))))"
        using SExtExpr src by (intro EqC) (simp_all add: CE_ZExt_def zextOrTrunc_def wt_width_pos)
      from eqR_sext [OF this src] nb SExtExpr src show ?thesis
        by (simp add: EqExpr_createPartialR.simps Let_def)
    next
      case (ZExtExpr src w)
      with prems have src: "wt src" "getWidth src \<le> w" "apint_ok cl" "getBitWidth cl = w" by auto
      have "expr_equiv (Eq_createC src (CE_ZExt cl (getWidth src)))
          (BinaryExpr Eq src (ConstantExpr (CE_ZExt cl (getWidth src))))"
        using ZExtExpr src by (intro EqC) (simp_all add: CE_ZExt_def zextOrTrunc_def wt_width_pos)
      from eqR_zext [OF this src] nb ZExtExpr src show ?thesis
        by (simp add: EqExpr_createPartialR.simps Let_def)
    next
      case (BinaryExpr k l b)
      have unfold: "EqExpr_createPartialR cl r = (case asBinC Add r of
          Some (c1, b) \<Rightarrow> EqExpr_createPartialR (CE_Sub cl c1) b
        | None \<Rightarrow> (case asBinC Sub r of
          Some (c1, b) \<Rightarrow> EqExpr_createPartialR (CE_Sub c1 cl) b
        | None \<Rightarrow> EqExpr_create (ConstantExpr cl) r))"
        by (subst EqExpr_createPartialR.simps) (simp add: nb BinaryExpr cong: option.case_cong)
      consider (add) c b' where "asBinC Add r = Some (c, b')"
        | (sub) c b' where "asBinC Add r = None" "asBinC Sub r = Some (c, b')"
        | (other) "asBinC Add r = None" "asBinC Sub r = None"
        by (cases "asBinC Add r"; cases "asBinC Sub r") auto
      then show ?thesis
      proof cases
        case add
        then have "EqExpr_createPartialR cl r = EqExpr_createPartialR (CE_Sub cl c) b'"
          by (simp only: unfold option.case prod.case)
        moreover from add prems have "r = BinaryExpr Add (ConstantExpr c) b'" "wt b'"
          "getBitWidth c = getWidth b'" "getBitWidth cl = getWidth b'"
          by (auto simp: isCmp_def)
        ultimately show ?thesis using prems by (simp add: eqR_add less.IH)
      next
        case sub
        then have "EqExpr_createPartialR cl r = EqExpr_createPartialR (CE_Sub c cl) b'"
          by (simp only: unfold option.case prod.case)
        moreover from sub prems have "r = BinaryExpr Sub (ConstantExpr c) b'" "wt b'" "apint_ok c"
          "getBitWidth c = getWidth b'" "getBitWidth cl = getWidth b'"
          by (auto simp: isCmp_def)
        ultimately show ?thesis using prems by (simp add: eqR_sub less.IH)
      qed (use dflt unfold in simp)
    qed (use dflt nb in \<open>simp_all add: EqExpr_createPartialR.simps asBinC_def ConstArrayOpt_def\<close>)
  qed
qed

lemma Eq_create_equiv:
  "wt (BinaryExpr Eq l r) \<Longrightarrow> expr_equiv (Eq_create l r) (BinaryExpr Eq l r)"
  unfolding Eq_create_def
  by (rule CMPCREATE_T_equiv)
    (auto simp: EqExpr_createPartial_def
      intro: EqExpr_create_equiv Eq_partialR_equiv Binary_commute [of Eq, OF _ _ Eq_partialR_equiv])

lemma createIsZero_equiv:
  "wt e \<Longrightarrow> expr_equiv (createIsZero e) (BinaryExpr Eq e (ConstantExpr (mkAPInt (getWidth e) 0)))"
  unfolding createIsZero_def by (rule Eq_create_equiv) (simp add: wt_width_pos)

lemma createIsZero_facts [simp]:
  assumes "wt e"
  shows "wt (createIsZero e)" "getWidth (createIsZero e) = Bool"
    "eval \<rho> (createIsZero e) = of_bool (eval \<rho> e = 0)" "div_safe \<rho> e \<Longrightarrow> div_safe \<rho> (createIsZero e)"
  using createIsZero_equiv [OF assms] by (auto simp: expr_equiv_def isCmp_def isDiv_def)

lemma And_Or_create_facts [simp]:
  assumes "wt l" "wt r" "getWidth l = getWidth r"
  shows "wt (And_create l r)" "getWidth (And_create l r) = getWidth l"
    "eval \<rho> (And_create l r) = eval \<rho> l AND eval \<rho> r"
    "div_safe \<rho> l \<Longrightarrow> div_safe \<rho> r \<Longrightarrow> div_safe \<rho> (And_create l r)"
    "wt (Or_create l r)" "getWidth (Or_create l r) = getWidth l"
    "eval \<rho> (Or_create l r) = eval \<rho> l OR eval \<rho> r"
    "div_safe \<rho> l \<Longrightarrow> div_safe \<rho> r \<Longrightarrow> div_safe \<rho> (Or_create l r)"
  using And_create_equiv [of l r] Or_create_equiv [of l r] assms
  by (auto simp: expr_equiv_def isCmp_def isDiv_def)

text \<open>A constructor applied to an equivalent operand.\<close>

lemma expr_equiv_Binary_right:
  "expr_equiv x (BinaryExpr k l r') \<Longrightarrow> expr_equiv r' r \<Longrightarrow> wt (BinaryExpr k l r) \<Longrightarrow>
    expr_equiv x (BinaryExpr k l r)"
  by (auto simp: expr_equiv_def)

lemma expr_equiv_Binary_left:
  "expr_equiv x (BinaryExpr k l' r) \<Longrightarrow> expr_equiv l' l \<Longrightarrow> wt (BinaryExpr k l r) \<Longrightarrow>
    expr_equiv x (BinaryExpr k l r)"
  by (auto simp: expr_equiv_def)

subsection \<open>Xor, Add, Sub, Mul\<close>

lemma Xor_partialR_equiv:
  assumes "wt (BinaryExpr Xor (ConstantExpr cl) r)"
  shows "expr_equiv (XorExpr_createPartialR cl r) (BinaryExpr Xor (ConstantExpr cl) r)"
proof -
  consider "isZero cl" | "\<not> isZero cl" "getBitWidth cl = Bool" | "\<not> isZero cl" "getBitWidth cl \<noteq> Bool" by blast
  then show ?thesis
  proof cases
    case 2
    with assms have w: "wt r" "getWidth r = Bool" and cl: "uval cl = 1"
      using apint_ok_bool_cases by (auto simp: isZero_def)
    have "expr_equiv (EqExpr_createPartialR (mkAPInt Bool 0) r) (BinaryExpr Eq (ConstantExpr (mkAPInt Bool 0)) r)"
      using w by (intro Eq_partialR_equiv) auto
    moreover have "eval \<rho> r = 0 \<or> eval \<rho> r = 1" for \<rho> using w by (rule eval_bool_cases)
    ultimately show ?thesis using 2 w cl
      by (simp add: XorExpr_createPartialR_def EqExpr_createPartial_def expr_equiv_def isCmp_def isDiv_def) fastforce
  qed (use assms in \<open>auto simp: XorExpr_createPartialR_def expr_equiv_def isZero_def isCmp_def\<close>)
qed

lemma Xor_create_equiv:
  "wt (BinaryExpr Xor l r) \<Longrightarrow> expr_equiv (Xor_create l r) (BinaryExpr Xor l r)"
  unfolding Xor_create_def
  by (rule BCREATE_R_equiv)
    (auto simp: XorExpr_createPartial_def XorExpr_create_def
      intro!: Xor_partialR_equiv intro: Binary_commute [of Xor, OF _ _ Xor_partialR_equiv])

lemma bool_add_sub_xor:
  assumes "wt (BinaryExpr Xor l r)" "getWidth l = Bool" "expr_equiv x (BinaryExpr Xor l r)"
  shows "expr_equiv x (BinaryExpr Add l r)" "expr_equiv x (BinaryExpr Sub l r)"
proof -
  have "take_bit Bool (a + b) = a XOR b \<and> take_bit Bool (a - b) = a XOR b"
    if "a = 0 \<or> a = 1" "b = 0 \<or> b = 1" for a b :: int using that by (auto simp: mask_eq_exp_minus_1)
  then show "expr_equiv x (BinaryExpr Add l r)" "expr_equiv x (BinaryExpr Sub l r)"
    using assms eval_bool_cases [of l] eval_bool_cases [of r] by (simp_all add: expr_equiv_def isCmp_def isDiv_def)
qed

lemma equiv_node_cong:
  "expr_equiv x a \<Longrightarrow> getWidth a = getWidth b \<Longrightarrow> (\<And>\<rho>. eval \<rho> a = eval \<rho> b) \<Longrightarrow>
    (\<And>\<rho>. div_safe \<rho> b \<Longrightarrow> div_safe \<rho> a) \<Longrightarrow> expr_equiv x b"
  by (simp add: expr_equiv_def)

lemma add_sub_reassoc:
  assumes "getBitWidth cl = getWidth c" "getBitWidth k = getWidth c"
  shows "expr_equiv x (BinaryExpr Add (ConstantExpr (CE_Add cl k)) c) \<Longrightarrow>
      expr_equiv x (BinaryExpr Add (ConstantExpr cl) (BinaryExpr Add (ConstantExpr k) c))"
    and "expr_equiv x (BinaryExpr Sub (ConstantExpr (CE_Add cl k)) c) \<Longrightarrow>
      expr_equiv x (BinaryExpr Add (ConstantExpr cl) (BinaryExpr Sub (ConstantExpr k) c))"
    and "expr_equiv x (BinaryExpr Sub (ConstantExpr (CE_Sub cl k)) c) \<Longrightarrow>
      expr_equiv x (BinaryExpr Sub (ConstantExpr cl) (BinaryExpr Add (ConstantExpr k) c))"
    and "expr_equiv x (BinaryExpr Add (ConstantExpr (CE_Sub cl k)) c) \<Longrightarrow>
      expr_equiv x (BinaryExpr Sub (ConstantExpr cl) (BinaryExpr Sub (ConstantExpr k) c))"
  using assms
  by (auto elim!: equiv_node_cong simp: isCmp_def isDiv_def CE_Add_def CE_Sub_def bv_simps algebra_simps)

lemma Add_Sub_createC_from_partialR:
  assumes "wt (BinaryExpr Add (ConstantExpr c) r)"
  shows "expr_equiv (AddExpr_createPartialR c r) (BinaryExpr Add (ConstantExpr c) r) \<Longrightarrow>
      expr_equiv (Add_createC c r) (BinaryExpr Add (ConstantExpr c) r)"
    and "expr_equiv (SubExpr_createPartialR c r) (BinaryExpr Sub (ConstantExpr c) r) \<Longrightarrow>
      expr_equiv (Sub_createC c r) (BinaryExpr Sub (ConstantExpr c) r)"
  using assms fold_equiv [of Add c] fold_equiv [of Sub c]
  by (auto simp: Add_createC.simps Sub_createC.simps split: option.split)

lemma Add_Sub_partialR_equiv:
  "wt (BinaryExpr Add (ConstantExpr cl) r) \<Longrightarrow>
    expr_equiv (AddExpr_createPartialR cl r) (BinaryExpr Add (ConstantExpr cl) r) \<and>
    expr_equiv (SubExpr_createPartialR cl r) (BinaryExpr Sub (ConstantExpr cl) r)"
proof (induction r arbitrary: cl rule: measure_induct_rule [of size])
  case (less r)
  show ?case
  proof (cases "getBitWidth cl = Bool")
    case True
    then have "expr_equiv (XorExpr_createPartialR cl r) (BinaryExpr Xor (ConstantExpr cl) r)"
      using less.prems by (intro Xor_partialR_equiv) simp
    with True less.prems show ?thesis
      using bool_add_sub_xor [of "ConstantExpr cl" r]
      by (simp add: AddExpr_createPartialR.simps SubExpr_createPartialR.simps)
  next
    case False
    have C: "expr_equiv (Add_createC d c) (BinaryExpr Add (ConstantExpr d) c) \<and>
        expr_equiv (Sub_createC d c) (BinaryExpr Sub (ConstantExpr d) c)"
      if "size c < size r" "wt (BinaryExpr Add (ConstantExpr d) c)" for d c
      using Add_Sub_createC_from_partialR [OF that(2)] less.IH [OF that] by blast
    have zero: "isZero cl \<Longrightarrow> expr_equiv r (BinaryExpr Add (ConstantExpr cl) r)"
      using less.prems by (auto simp: expr_equiv_def isZero_def isCmp_def isDiv_def eval_range(1))
    consider (add) k c where "r = BinaryExpr Add (ConstantExpr k) c"
      | (sub) k c where "r = BinaryExpr Sub (ConstantExpr k) c"
      | (other) "asBinC Add r = None" "asBinC Sub r = None"
      by (cases "asBinC Add r"; cases "asBinC Sub r") auto
    then show ?thesis
    proof cases
      case add
      with less.prems have w: "getBitWidth cl = getWidth c" "getBitWidth k = getWidth c" "wt c" "apint_ok cl" "apint_ok k"
        by (simp_all add: isCmp_def)
      have "AddExpr_createPartialR cl r = (if isZero cl then r else Add_createC (CE_Add cl k) c)"
        "SubExpr_createPartialR cl r = Sub_createC (CE_Sub cl k) c"
        using add False by (simp_all add: AddExpr_createPartialR.simps SubExpr_createPartialR.simps asBinC_Binary)
      with add w zero C [of c "CE_Add cl k"] C [of c "CE_Sub cl k"] show ?thesis
        by (auto intro!: add_sub_reassoc [OF w(1,2)])
    next
      case sub
      with less.prems have w: "getBitWidth cl = getWidth c" "getBitWidth k = getWidth c" "wt c" "apint_ok cl" "apint_ok k"
        by (simp_all add: isCmp_def)
      have "AddExpr_createPartialR cl r = (if isZero cl then r else Sub_createC (CE_Add cl k) c)"
        "SubExpr_createPartialR cl r = Add_createC (CE_Sub cl k) c"
        using sub False by (simp_all add: AddExpr_createPartialR.simps SubExpr_createPartialR.simps asBinC_Binary)
      with sub w zero C [of c "CE_Add cl k"] C [of c "CE_Sub cl k"] show ?thesis
        by (auto intro!: add_sub_reassoc [OF w(1,2)])
    next
      case other
      with False less.prems show ?thesis
        by (simp add: AddExpr_createPartialR.simps SubExpr_createPartialR.simps zero)
    qed
  qed
qed

lemma Add_Sub_createC_equiv:
  assumes "wt (BinaryExpr Add (ConstantExpr c) r)"
  shows "expr_equiv (Add_createC c r) (BinaryExpr Add (ConstantExpr c) r)"
    and "expr_equiv (Sub_createC c r) (BinaryExpr Sub (ConstantExpr c) r)"
  using Add_Sub_createC_from_partialR [OF assms] Add_Sub_partialR_equiv [OF assms] by blast+

lemma Add_partial_equiv:
  assumes "wt (BinaryExpr Add l (ConstantExpr c))"
  shows "expr_equiv (AddExpr_createPartial l c) (BinaryExpr Add l (ConstantExpr c))"
  unfolding AddExpr_createPartial_def
  by (rule Binary_commute [OF _ assms]) (use assms Add_Sub_partialR_equiv [of c l] in auto)

lemma Sub_partial_equiv:
  assumes "wt (BinaryExpr Sub l (ConstantExpr c))"
  shows "expr_equiv (SubExpr_createPartial l c) (BinaryExpr Sub l (ConstantExpr c))"
proof -
  let ?n = "CE_Sub (mkAPInt (getBitWidth c) 0) c"
  have "expr_equiv (AddExpr_createPartialR ?n l) (BinaryExpr Add (ConstantExpr ?n) l)"
    using assms Add_Sub_partialR_equiv [of ?n l] by (simp add: wt_width_pos apint_okD)
  then show ?thesis
    unfolding SubExpr_createPartial_def AddExpr_createPartial_def
    by (rule equiv_node_cong) (use assms in \<open>simp_all add: isCmp_def isDiv_def CE_Sub_def bv_simps\<close>)
qed

lemma Sub_createRC_equiv:
  assumes "wt (BinaryExpr Sub l (ConstantExpr c))"
  shows "expr_equiv (Sub_createRC l c) (BinaryExpr Sub l (ConstantExpr c))"
  using Sub_partial_equiv [OF assms] assms fold_equiv [of Sub _ c]
  by (auto simp: Sub_createRC_def split: option.split)

lemma add_sub_regroup:
  assumes "getWidth K = w" "getWidth a = w" "getWidth b = w"
  shows "expr_equiv x (BinaryExpr Add K (BinaryExpr Add a b)) \<Longrightarrow> expr_equiv x (BinaryExpr Add (BinaryExpr Add K a) b)"
    and "expr_equiv x (BinaryExpr Add K (BinaryExpr Sub b a)) \<Longrightarrow> expr_equiv x (BinaryExpr Add (BinaryExpr Sub K a) b)"
    and "expr_equiv x (BinaryExpr Add K (BinaryExpr Add a b)) \<Longrightarrow> expr_equiv x (BinaryExpr Add a (BinaryExpr Add K b))"
    and "expr_equiv x (BinaryExpr Add K (BinaryExpr Sub a b)) \<Longrightarrow> expr_equiv x (BinaryExpr Add a (BinaryExpr Sub K b))"
    and "expr_equiv x (BinaryExpr Add K (BinaryExpr Sub a b)) \<Longrightarrow> expr_equiv x (BinaryExpr Sub (BinaryExpr Add K a) b)"
    and "expr_equiv x (BinaryExpr Sub K (BinaryExpr Add a b)) \<Longrightarrow> expr_equiv x (BinaryExpr Sub (BinaryExpr Sub K a) b)"
    and "expr_equiv x (BinaryExpr Sub (BinaryExpr Sub a b) K) \<Longrightarrow> expr_equiv x (BinaryExpr Sub a (BinaryExpr Add K b))"
    and "expr_equiv x (BinaryExpr Sub (BinaryExpr Add a b) K) \<Longrightarrow> expr_equiv x (BinaryExpr Sub a (BinaryExpr Sub K b))"
  using assms
  by (auto elim!: equiv_node_cong simp: isCmp_def isDiv_def bv_simps algebra_simps)

text \<open>An outer constructor call on the result of an inner one.\<close>

lemma Add_Sub_outer:
  assumes y: "expr_equiv y z" and w: "apint_ok k" "wt z" "getBitWidth k = getWidth z"
  shows "expr_equiv (Add_createC k y) (BinaryExpr Add (ConstantExpr k) z)"
    and "expr_equiv (Sub_createC k y) (BinaryExpr Sub (ConstantExpr k) z)"
    and "expr_equiv (Sub_createRC y k) (BinaryExpr Sub z (ConstantExpr k))"
proof -
  have "wt (BinaryExpr Add (ConstantExpr k) y)" "wt (BinaryExpr Sub y (ConstantExpr k))"
    using y w by (simp_all add: expr_equiv_def)
  note C = Add_Sub_createC_equiv [OF this(1)] and RC = Sub_createRC_equiv [OF this(2)]
  show "expr_equiv (Add_createC k y) (BinaryExpr Add (ConstantExpr k) z)"
    using C(1) y by (rule expr_equiv_Binary_right) (use w in simp)
  show "expr_equiv (Sub_createC k y) (BinaryExpr Sub (ConstantExpr k) z)"
    using C(2) y by (rule expr_equiv_Binary_right) (use w in simp)
  show "expr_equiv (Sub_createRC y k) (BinaryExpr Sub z (ConstantExpr k))"
    using RC y by (rule expr_equiv_Binary_left) (use w in simp)
qed

definition add_sub_ok :: "expr \<Rightarrow> expr \<Rightarrow> bool" where
  "add_sub_ok l r \<longleftrightarrow> expr_equiv (Add_create l r) (BinaryExpr Add l r) \<and>
     expr_equiv (Sub_create l r) (BinaryExpr Sub l r)"

lemma linear_operand_cases:
  obtains (lAdd) k a where "asBinC Add l = Some (k, a)"
  | (lSub) k a where "asBinC Add l = None" "asBinC Sub l = Some (k, a)"
  | (rAdd) k b where "asBinC Add l = None" "asBinC Sub l = None" "asBinC Add r = Some (k, b)"
  | (rSub) k b where "asBinC Add l = None" "asBinC Sub l = None" "asBinC Add r = None" "asBinC Sub r = Some (k, b)"
  | (none) "asBinC Add l = None" "asBinC Sub l = None" "asBinC Add r = None" "asBinC Sub r = None"
  by (metis option.exhaust surj_pair)

lemma Add_static_equiv:
  assumes IH: "\<And>l' r'. size l' + size r' < size l + size r \<Longrightarrow> wt l' \<Longrightarrow> wt r' \<Longrightarrow> getWidth l' = getWidth r' \<Longrightarrow>
      add_sub_ok l' r'"
    and wt: "wt (BinaryExpr Add l r)"
  shows "expr_equiv (AddExpr_create l r) (BinaryExpr Add l r)"
proof (cases "getWidth l = Bool")
  case True
  have "expr_equiv (XorExpr_create l r) (BinaryExpr Xor l r)"
    using wt by (simp add: XorExpr_create_def)
  with True wt bool_add_sub_xor(1) show ?thesis by (simp add: AddExpr_create.simps)
next
  case False
  note unfold = AddExpr_create.simps [of l r, unfolded if_not_P [OF False]]
  show ?thesis
  proof (cases rule: linear_operand_cases [where l = l and r = r])
    case (lAdd k a)
    have "AddExpr_create l r = Add_createC k (Add_create a r)"
      by (simp only: unfold lAdd option.case prod.case)
    moreover from lAdd have "l = BinaryExpr Add (ConstantExpr k) a" by simp
    ultimately show ?thesis using wt IH [of a r]
      by (auto simp: add_sub_ok_def isCmp_def intro!: add_sub_regroup(1) Add_Sub_outer)
  next
    case (lSub k a)
    have "AddExpr_create l r = Add_createC k (Sub_create r a)"
      by (simp only: unfold lSub option.case prod.case)
    moreover from lSub have "l = BinaryExpr Sub (ConstantExpr k) a" by simp
    ultimately show ?thesis using wt IH [of r a]
      by (auto simp: add_sub_ok_def isCmp_def intro!: add_sub_regroup(2) Add_Sub_outer)
  next
    case (rAdd k b)
    have "AddExpr_create l r = Add_createC k (Add_create l b)"
      by (simp only: unfold rAdd option.case prod.case)
    moreover from rAdd have "r = BinaryExpr Add (ConstantExpr k) b" by simp
    ultimately show ?thesis using wt IH [of l b]
      by (auto simp: add_sub_ok_def isCmp_def intro!: add_sub_regroup(3) Add_Sub_outer)
  next
    case (rSub k b)
    have "AddExpr_create l r = Add_createC k (Sub_create l b)"
      by (simp only: unfold rSub option.case prod.case)
    moreover from rSub have "r = BinaryExpr Sub (ConstantExpr k) b" by simp
    ultimately show ?thesis using wt IH [of l b]
      by (auto simp: add_sub_ok_def isCmp_def intro!: add_sub_regroup(4) Add_Sub_outer)
  next
    case none
    then show ?thesis using wt by (simp only: unfold option.case expr_equiv_refl)
  qed
qed

lemma Sub_static_equiv:
  assumes IH: "\<And>l' r'. size l' + size r' < size l + size r \<Longrightarrow> wt l' \<Longrightarrow> wt r' \<Longrightarrow> getWidth l' = getWidth r' \<Longrightarrow>
      add_sub_ok l' r'"
    and wt: "wt (BinaryExpr Sub l r)"
  shows "expr_equiv (SubExpr_create l r) (BinaryExpr Sub l r)"
proof -
  consider (bool) "getWidth l = Bool" | (same) "getWidth l \<noteq> Bool" "l = r"
    | (linear) "getWidth l \<noteq> Bool" "l \<noteq> r" by blast
  then show ?thesis
  proof cases
    case bool
    have "expr_equiv (XorExpr_create l r) (BinaryExpr Xor l r)"
      using wt by (simp add: XorExpr_create_def)
    with bool wt bool_add_sub_xor(2) show ?thesis by (simp add: SubExpr_create.simps)
  next
    case same
    with wt show ?thesis by (simp add: SubExpr_create.simps expr_equiv_def isCmp_def wt_width_pos)
  next
    case linear
    then have w: "getWidth l \<noteq> Bool" and ne: "l \<noteq> r" by auto
    note unfold = SubExpr_create.simps [of l r, unfolded if_not_P [OF w] if_not_P [OF ne]]
    show ?thesis
    proof (cases rule: linear_operand_cases [where l = l and r = r])
      case (lAdd k a)
      have "SubExpr_create l r = Add_createC k (Sub_create a r)"
        by (simp only: unfold lAdd option.case prod.case)
      moreover from lAdd have "l = BinaryExpr Add (ConstantExpr k) a" by simp
      ultimately show ?thesis using wt IH [of a r]
        by (auto simp: add_sub_ok_def isCmp_def intro!: add_sub_regroup(5) Add_Sub_outer)
    next
      case (lSub k a)
      have "SubExpr_create l r = Sub_createC k (Add_create a r)"
        by (simp only: unfold lSub option.case prod.case)
      moreover from lSub have "l = BinaryExpr Sub (ConstantExpr k) a" by simp
      ultimately show ?thesis using wt IH [of a r]
        by (auto simp: add_sub_ok_def isCmp_def intro!: add_sub_regroup(6) Add_Sub_outer)
    next
      case (rAdd k b)
      have "SubExpr_create l r = Sub_createRC (Sub_create l b) k"
        by (simp only: unfold rAdd option.case prod.case)
      moreover from rAdd have "r = BinaryExpr Add (ConstantExpr k) b" by simp
      ultimately show ?thesis using wt IH [of l b]
        by (auto simp: add_sub_ok_def isCmp_def intro!: add_sub_regroup(7) Add_Sub_outer)
    next
      case (rSub k b)
      have "SubExpr_create l r = Sub_createRC (Add_create l b) k"
        by (simp only: unfold rSub option.case prod.case)
      moreover from rSub have "r = BinaryExpr Sub (ConstantExpr k) b" by simp
      ultimately show ?thesis using wt IH [of l b]
        by (auto simp: add_sub_ok_def isCmp_def intro!: add_sub_regroup(8) Add_Sub_outer)
    next
      case none
      then show ?thesis using wt by (simp only: unfold option.case expr_equiv_refl)
    qed
  qed
qed

lemma add_sub_ok: "wt l \<Longrightarrow> wt r \<Longrightarrow> getWidth l = getWidth r \<Longrightarrow> add_sub_ok l r"
proof (induction "size l + size r" arbitrary: l r rule: less_induct)
  case less
  have wt: "wt (BinaryExpr Add l r)" "wt (BinaryExpr Sub l r)" using less.prems by simp_all
  note static = Add_static_equiv [OF less.hyps wt(1)] Sub_static_equiv [OF less.hyps wt(2)]
  have "expr_equiv (Add_create l r) (BinaryExpr Add l r)"
    unfolding Add_create_source
  proof (rule BCREATE_R_equiv)
    show "expr_equiv (AddExpr_createPartialR cl r) (BinaryExpr Add (ConstantExpr cl) r)" if "l = ConstantExpr cl" for cl
      using wt that Add_Sub_partialR_equiv by blast
  qed (use wt static Add_partial_equiv in blast)+
  moreover have "expr_equiv (Sub_create l r) (BinaryExpr Sub l r)"
    unfolding Sub_create_source
  proof (rule BCREATE_R_equiv)
    show "expr_equiv (SubExpr_createPartialR cl r) (BinaryExpr Sub (ConstantExpr cl) r)" if "l = ConstantExpr cl" for cl
      using wt that Add_Sub_partialR_equiv by blast
  qed (use wt static Sub_partial_equiv in blast)+
  ultimately show ?case by (simp add: add_sub_ok_def)
qed

lemma Add_create_equiv:
  "wt (BinaryExpr Add l r) \<Longrightarrow> expr_equiv (Add_create l r) (BinaryExpr Add l r)"
  and Sub_create_equiv:
  "wt (BinaryExpr Sub l r) \<Longrightarrow> expr_equiv (Sub_create l r) (BinaryExpr Sub l r)"
  using add_sub_ok by (auto simp: add_sub_ok_def)

lemma bool_mul_and:
  assumes "wt (BinaryExpr And l r)" "getWidth l = Bool" "expr_equiv x (BinaryExpr And l r)"
  shows "expr_equiv x (BinaryExpr Mul l r)"
  using assms(3)
proof (rule equiv_node_cong)
  fix \<rho>
  have "eval \<rho> l = 0 \<or> eval \<rho> l = 1" "eval \<rho> r = 0 \<or> eval \<rho> r = 1"
    using assms eval_bool_cases by simp_all
  then show "eval \<rho> (BinaryExpr And l r) = eval \<rho> (BinaryExpr Mul l r)"
    using assms(2) by (auto simp: mask_eq_exp_minus_1)
qed (simp_all add: isCmp_def isDiv_def)

lemma Mul_partialR_equiv:
  assumes "wt (BinaryExpr Mul (ConstantExpr cl) r)"
  shows "expr_equiv (MulExpr_createPartialR cl r) (BinaryExpr Mul (ConstantExpr cl) r)"
proof (cases "getBitWidth cl = Bool")
  case True
  have "expr_equiv (AndExpr_createPartialR cl r) (BinaryExpr And (ConstantExpr cl) r)"
    unfolding AndExpr_createPartialR_def
    by (rule Binary_commute [OF _ _ And_createPartial_equiv]) (use assms in auto)
  with True assms bool_mul_and [of "ConstantExpr cl"] show ?thesis
    by (simp add: MulExpr_createPartialR_def)
next
  case False
  with assms show ?thesis
    by (auto simp: MulExpr_createPartialR_def expr_equiv_def isCmp_def isDiv_def apint_ok_isOne isZero_def
        eval_range(1))
qed

lemma Mul_create_equiv:
  assumes "wt (BinaryExpr Mul l r)"
  shows "expr_equiv (Mul_create l r) (BinaryExpr Mul l r)"
  unfolding Mul_create_def
proof (rule BCREATE_R_equiv [OF assms])
  show "expr_equiv (MulExpr_createPartial l cr) (BinaryExpr Mul l (ConstantExpr cr))" if "r = ConstantExpr cr" for cr
    unfolding MulExpr_createPartial_def
    by (rule Binary_commute [OF _ _ Mul_partialR_equiv]) (use assms that in auto)
  show "expr_equiv (MulExpr_create l r) (BinaryExpr Mul l r)"
    using assms bool_mul_and [of l r] by (auto simp: MulExpr_create_def)
qed (use assms Mul_partialR_equiv in blast)

subsection \<open>Division, remainder, shifts\<close>

lemma sgn_val_bool [simp]: "sgn_val Bool 0 = 0" "sgn_val Bool 1 = -1"
  by (simp_all add: sgn_val_def)

lemma bool_div_values:
  assumes "a = 0 \<or> a = 1" "b = 0 \<or> b = 1"
  shows "sem_bin UDiv Bool a b = a" "sem_bin SDiv Bool a b = a" "sem_bin URem Bool a b = 0" "sem_bin SRem Bool a b = 0"
  using assms by (auto simp: mask_eq_exp_minus_1 signed_divide_int_def signed_modulo_int_def)

lemma div_create_equiv:
  "wt (BinaryExpr UDiv l r) \<Longrightarrow> expr_equiv (UDiv_create l r) (BinaryExpr UDiv l r)"
  "wt (BinaryExpr SDiv l r) \<Longrightarrow> expr_equiv (SDiv_create l r) (BinaryExpr SDiv l r)"
  "wt (BinaryExpr URem l r) \<Longrightarrow> expr_equiv (URem_create l r) (BinaryExpr URem l r)"
  "wt (BinaryExpr SRem l r) \<Longrightarrow> expr_equiv (SRem_create l r) (BinaryExpr SRem l r)"
  unfolding UDiv_create_def SDiv_create_def URem_create_def SRem_create_def
  by (rule BCREATE_equiv; use bool_div_values [OF eval_bool_cases eval_bool_cases, of l r] in
      \<open>auto intro!: expr_equivI simp: UDivExpr_create_def SDivExpr_create_def URemExpr_create_def SRemExpr_create_def
        isCmp_def isDiv_def simp del: sem_bin.simps\<close>)+

lemma bool_shift_values:
  assumes "a = 0 \<or> a = 1" "b = 0 \<or> b = 1"
  shows "sem_bin Shl Bool a b = a AND of_bool (b = 0)" "sem_bin LShr Bool a b = a AND of_bool (b = 0)"
    "sem_bin AShr Bool a b = a"
  using assms by (auto simp: mask_eq_exp_minus_1)

lemma shift_create_equiv:
  "wt (BinaryExpr Shl l r) \<Longrightarrow> expr_equiv (Shl_create l r) (BinaryExpr Shl l r)"
  "wt (BinaryExpr LShr l r) \<Longrightarrow> expr_equiv (LShr_create l r) (BinaryExpr LShr l r)"
  "wt (BinaryExpr AShr l r) \<Longrightarrow> expr_equiv (AShr_create l r) (BinaryExpr AShr l r)"
  unfolding Shl_create_def LShr_create_def AShr_create_def
  by (rule BCREATE_equiv; use bool_shift_values [OF eval_bool_cases eval_bool_cases, of l r] in
      \<open>auto intro!: expr_equivI simp: ShlExpr_create_def LShrExpr_create_def AShrExpr_create_def isCmp_def isDiv_def
        simp del: sem_bin.simps\<close>)+

subsection \<open>Comparisons\<close>

lemma bool_cmp_values:
  assumes "a = 0 \<or> a = 1" "b = 0 \<or> b = 1"
  shows "sem_bin Ult Bool a b = of_bool (a = 0) AND b" "sem_bin Ule Bool a b = of_bool (a = 0) OR b"
    "sem_bin Slt Bool a b = a AND of_bool (b = 0)" "sem_bin Sle Bool a b = a OR of_bool (b = 0)"
  using assms by auto

lemma cmp_create_equiv:
  "wt (BinaryExpr Ult l r) \<Longrightarrow> expr_equiv (Ult_create l r) (BinaryExpr Ult l r)"
  "wt (BinaryExpr Ule l r) \<Longrightarrow> expr_equiv (Ule_create l r) (BinaryExpr Ule l r)"
  "wt (BinaryExpr Slt l r) \<Longrightarrow> expr_equiv (Slt_create l r) (BinaryExpr Slt l r)"
  "wt (BinaryExpr Sle l r) \<Longrightarrow> expr_equiv (Sle_create l r) (BinaryExpr Sle l r)"
  unfolding Ult_create_def Ule_create_def Slt_create_def Sle_create_def
  by (rule CMPCREATE_equiv; use bool_cmp_values [OF eval_bool_cases eval_bool_cases, of l r] in
      \<open>auto intro!: expr_equivI simp: UltExpr_create_def UleExpr_create_def SltExpr_create_def SleExpr_create_def
        isCmp_def isDiv_def simp del: sem_bin.simps\<close>)+

lemma Ne_create_equiv:
  assumes "wt (BinaryExpr Ne l r)"
  shows "expr_equiv (Ne_create l r) (BinaryExpr Ne l r)"
proof -
  have e: "expr_equiv (Eq_create l r) (BinaryExpr Eq l r)"
    using assms by (intro Eq_create_equiv) simp
  then have "expr_equiv (Ne_create l r) (BinaryExpr Eq (ConstantExpr (mkAPInt Bool 0)) (Eq_create l r))"
    unfolding Ne_create_def by (intro Eq_create_equiv) (simp add: expr_equiv_def isCmp_def)
  then show ?thesis
    by (rule equiv_node_cong) (use e in \<open>auto simp: expr_equiv_def isCmp_def isDiv_def\<close>)
qed

lemma swapped_cmp_equiv:
  "wt (BinaryExpr Ugt l r) \<Longrightarrow> expr_equiv (Ugt_create l r) (BinaryExpr Ugt l r)"
  "wt (BinaryExpr Uge l r) \<Longrightarrow> expr_equiv (Uge_create l r) (BinaryExpr Uge l r)"
  "wt (BinaryExpr Sgt l r) \<Longrightarrow> expr_equiv (Sgt_create l r) (BinaryExpr Sgt l r)"
  "wt (BinaryExpr Sge l r) \<Longrightarrow> expr_equiv (Sge_create l r) (BinaryExpr Sge l r)"
  unfolding Ugt_create_def Uge_create_def Sgt_create_def Sge_create_def
  using cmp_create_equiv [of r l] by (auto simp: expr_equiv_def isCmp_def isDiv_def)

lemmas create_equiv = Add_create_equiv Sub_create_equiv Mul_create_equiv And_create_equiv Or_create_equiv
  Xor_create_equiv div_create_equiv shift_create_equiv Eq_create_equiv Ne_create_equiv cmp_create_equiv swapped_cmp_equiv

lemma Binary_create_equiv:
  "wt (BinaryExpr k l r) \<Longrightarrow> expr_equiv (Binary_create k l r) (BinaryExpr k l r)"
  by (cases k) (simp_all add: create_equiv)

subsection \<open>Not, Concat, Extract, casts\<close>

lemma Not_create_equiv: "wt e \<Longrightarrow> expr_equiv (Not_create e) (NotExpr e)"
  by (auto simp: Not_create_def expr_equiv_def CE_Not_def apint_okD split: option.split)

lemma take_bit_split:
  "take_bit (m + n) x = push_bit n (take_bit m (drop_bit n x)) + take_bit n (x::int)"
proof -
  have "take_bit (m + n) x = push_bit n (drop_bit n (take_bit (m + n) x)) + take_bit n (take_bit (m + n) x)"
    by (rule bits_ident [symmetric])
  then show ?thesis by (simp add: drop_bit_take_bit)
qed

lemma concat_parts:
  assumes "take_bit n y = (y::int)"
  shows "drop_bit n (push_bit n x + y) = x" "take_bit n (push_bit n x + y) = y"
proof -
  have y: "0 \<le> y" "y < 2 ^ n" using take_bit_eqD [OF assms] by auto
  then show "drop_bit n (push_bit n x + y) = x"
    by (simp add: drop_bit_eq_div push_bit_eq_mult div_pos_pos_trivial)
  show "take_bit n (push_bit n x + y) = y"
    using y by (simp add: take_bit_eq_mod push_bit_eq_mult)
qed

lemma extract_concat_value:
  assumes "take_bit n y = (y::int)"
  shows "n \<le> off \<Longrightarrow> drop_bit off (push_bit n x + y) = drop_bit (off - n) x"
    and "off + w \<le> n \<Longrightarrow> take_bit w (drop_bit off (push_bit n x + y)) = take_bit w (drop_bit off y)"
    and "off < n \<Longrightarrow> n < off + w \<Longrightarrow> take_bit w (drop_bit off (push_bit n x + y)) =
      push_bit (n - off) (take_bit (w + off - n) x) + take_bit (n - off) (drop_bit off y)"
proof -
  let ?v = "push_bit n x + y"
  have split: "drop_bit off ?v = drop_bit (off - n) x" if "n \<le> off" for off
    using that drop_bit_drop_bit [of "off - n" n ?v] by (simp add: concat_parts [OF assms])
  have low: "take_bit w (drop_bit off ?v) = take_bit w (drop_bit off y)" if "off + w \<le> n" for off w
  proof -
    have "take_bit w (drop_bit off ?v) = drop_bit off (take_bit (w + off) (take_bit n ?v))"
      using that by (simp add: take_bit_drop_bit take_bit_inner add.commute)
    then show ?thesis by (simp add: concat_parts [OF assms] take_bit_drop_bit)
  qed
  show "n \<le> off \<Longrightarrow> drop_bit off ?v = drop_bit (off - n) x" by (rule split)
  show "off + w \<le> n \<Longrightarrow> take_bit w (drop_bit off ?v) = take_bit w (drop_bit off y)" by (rule low)
  assume off: "off < n" "n < off + w"
  then have w: "w = (w + off - n) + (n - off)" by simp
  have "take_bit w (drop_bit off ?v) = push_bit (n - off) (take_bit (w + off - n) (drop_bit (n - off) (drop_bit off ?v)))
      + take_bit (n - off) (drop_bit off ?v)"
    by (subst w, rule take_bit_split)
  with off show "take_bit w (drop_bit off ?v) =
      push_bit (n - off) (take_bit (w + off - n) x) + take_bit (n - off) (drop_bit off y)"
    by (simp add: drop_bit_drop_bit split low)
qed

lemma Concat_merge_equiv:
  assumes "expr_equiv x (ExtractExpr e ro (lw + rw))"
  shows "expr_equiv x (ConcatExpr (ExtractExpr e (ro + rw) lw) (ExtractExpr e ro rw))"
  using assms by (rule equiv_node_cong)
    (simp_all add: take_bit_split drop_bit_drop_bit add.commute)

lemma Extract_Concat_equiv:
  assumes "wt (ExtractExpr (ConcatExpr l r) off w)"
  shows "getWidth r \<le> off \<Longrightarrow> expr_equiv x (ExtractExpr l (off - getWidth r) w) \<Longrightarrow>
      expr_equiv x (ExtractExpr (ConcatExpr l r) off w)"
    and "off + w \<le> getWidth r \<Longrightarrow> expr_equiv x (ExtractExpr r off w) \<Longrightarrow>
      expr_equiv x (ExtractExpr (ConcatExpr l r) off w)"
    and "off < getWidth r \<Longrightarrow> getWidth r < off + w \<Longrightarrow>
      expr_equiv x (ConcatExpr (ExtractExpr l 0 (w + off - getWidth r)) (ExtractExpr r off (getWidth r - off))) \<Longrightarrow>
      expr_equiv x (ExtractExpr (ConcatExpr l r) off w)"
  using assms
  by (auto elim!: equiv_node_cong simp: extract_concat_value [OF eval_range(1)])

lemma expr_equiv_Concat:
  "expr_equiv x (ConcatExpr l' r') \<Longrightarrow> expr_equiv l' l \<Longrightarrow> expr_equiv r' r \<Longrightarrow> expr_equiv x (ConcatExpr l r)"
  by (auto simp: expr_equiv_def)

lemma Extract_whole: "wt e \<Longrightarrow> off + getWidth e \<le> getWidth e \<Longrightarrow> expr_equiv e (ExtractExpr e off (getWidth e))"
  by (simp add: expr_equiv_def eval_range(1))

lemma Extract_const: "wt (ExtractExpr (ConstantExpr c) off w) \<Longrightarrow>
    expr_equiv (ConstantExpr (CE_Extract c off w)) (ExtractExpr (ConstantExpr c) off w)"
  by (auto simp: expr_equiv_def CE_Extract_uval) (simp add: CE_Extract_def zextOrTrunc_def)

lemma Concat_const: "wt (ConcatExpr (ConstantExpr a) (ConstantExpr b)) \<Longrightarrow>
    expr_equiv (ConstantExpr (CE_Concat a b)) (ConcatExpr (ConstantExpr a) (ConstantExpr b))"
  by (auto simp: expr_equiv_def CE_Concat_uval) (simp add: CE_Concat_def Let_def apint_okD)

lemma Concat_Extract_create_equiv:
  "wt l \<Longrightarrow> wt r \<Longrightarrow> expr_equiv (Concat_create l r) (ConcatExpr l r)"
  "wt (ExtractExpr e off w) \<Longrightarrow> expr_equiv (Extract_create e off w) (ExtractExpr e off w)"
proof (induction l r and e off w rule: Concat_create_Extract_create.induct)
  case (1 l r)
  show ?case
  proof (cases "\<exists>e ro rw lw. l = ExtractExpr e (ro + rw) lw \<and> r = ExtractExpr e ro rw")
    case True
    then obtain e ro rw lw where lr: "l = ExtractExpr e (ro + rw) lw" "r = ExtractExpr e ro rw" by blast
    have "expr_equiv (Extract_create e ro (lw + rw)) (ExtractExpr e ro (lw + rw))"
      using "1.IH" lr "1.prems" by simp
    with lr show ?thesis by (simp add: Concat_create.simps Concat_merge_equiv)
  next
    case False
    with "1.prems" show ?thesis
      by (auto simp: Concat_create.simps Concat_const split: option.split)
  qed
next
  case (2 e off w)
  have full: "expr_equiv (Extract_create e off w) (ExtractExpr e off w)" if "w = getWidth e"
    using that "2.prems" Extract_whole [of e off] by (simp add: Extract_create.simps)
  have other: "expr_equiv (Extract_create e off w) (ExtractExpr e off w)"
    if "w \<noteq> getWidth e" "asConst e = None" "asConcat e = None"
    using that "2.prems" by (simp add: Extract_create.simps)
  show ?case
  proof (cases e)
    case (ConstantExpr c)
    then show ?thesis using "2.prems" Extract_const [of c off w] full by (cases "w = getWidth e")
      (simp_all add: Extract_create.simps)
  next
    case (ConcatExpr l r)
    note IH = "2.IH" [of "(l, r)" l r] and prems = "2.prems" [unfolded ConcatExpr]
    consider (whole) "w = getWidth e" | (left) "w \<noteq> getWidth e" "getWidth r \<le> off"
      | (right) "w \<noteq> getWidth e" "\<not> getWidth r \<le> off" "off + w \<le> getWidth r"
      | (both) "w \<noteq> getWidth e" "\<not> getWidth r \<le> off" "\<not> off + w \<le> getWidth r" by blast
    then show ?thesis
    proof cases
      case whole
      then show ?thesis by (rule full)
    next
      case left
      then have "expr_equiv (Extract_create l (off - getWidth r) w) (ExtractExpr l (off - getWidth r) w)"
        using IH(1) ConcatExpr prems by auto
      with left ConcatExpr Extract_Concat_equiv(1) [OF prems] show ?thesis by (simp add: Extract_create.simps)
    next
      case right
      then have "expr_equiv (Extract_create r off w) (ExtractExpr r off w)"
        using IH(2) ConcatExpr prems by simp
      with right ConcatExpr Extract_Concat_equiv(2) [OF prems] show ?thesis by (simp add: Extract_create.simps)
    next
      case both
      let ?X = "Extract_create l 0 (w + off - getWidth r)" and ?Y = "Extract_create r off (getWidth r - off)"
      have XY: "expr_equiv ?X (ExtractExpr l 0 (w + off - getWidth r))"
        "expr_equiv ?Y (ExtractExpr r off (getWidth r - off))"
        using IH(3,4) ConcatExpr prems both by auto
      then have "expr_equiv (Concat_create ?X ?Y) (ConcatExpr ?X ?Y)"
        using IH(5) ConcatExpr both by (simp add: expr_equivD(1))
      from expr_equiv_Concat [OF this XY] both ConcatExpr Extract_Concat_equiv(3) [OF prems]
      show ?thesis by (simp add: Extract_create.simps [of "ConcatExpr l r"])
    qed
  qed (use full other in fastforce)+
qed

lemma ZExt_create_equiv:
  assumes "wt e" "0 < w"
  shows "getWidth e \<le> w \<Longrightarrow> expr_equiv (ZExt_create e w) (ZExtExpr e w)"
    and "w < getWidth e \<Longrightarrow> expr_equiv (ZExt_create e w) (ExtractExpr e 0 w)"
  using assms Concat_Extract_create_equiv(2) [of e 0 w]
  by (auto simp: ZExt_create_def expr_equiv_def CE_ZExt_def zextOrTrunc_def split: option.split
      intro: take_bit_wider [OF _ apint_okD(4)])

lemma SExt_create_equiv:
  assumes "wt e" "0 < w"
  shows "getWidth e \<le> w \<Longrightarrow> expr_equiv (SExt_create e w) (SExtExpr e w)"
    and "w < getWidth e \<Longrightarrow> expr_equiv (SExt_create e w) (ExtractExpr e 0 w)"
  using assms Concat_Extract_create_equiv(2) [of e 0 w] eval_range(1) [OF assms(1)] wt_width_pos [OF assms(1)]
  by (auto simp: SExt_create_def expr_equiv_def CE_SExt_def sextOrTrunc_def sval_def split: option.split)

subsection \<open>Select\<close>

lemma Select_create_equiv:
  assumes "wt (SelectExpr c t f)"
  shows "expr_equiv (Select_create c t f) (SelectExpr c t f)"
proof -
  from assms have wt: "wt c" "wt t" "wt f" "getWidth c = Bool" "getWidth t = getWidth f" by simp_all
  have c: "eval \<rho> c = 0 \<or> eval \<rho> c = 1" for \<rho> using wt by (simp add: eval_bool_cases)
  show ?thesis
  proof (cases "getWidth t = Bool \<and> asConst c = None \<and> t \<noteq> f")
    case False
    with wt show ?thesis
      by (auto simp: Select_create_def expr_equiv_def apint_ok_isTrue split: option.splits)
  next
    case True
    with wt have tf: "eval \<rho> t = 0 \<or> eval \<rho> t = 1" "eval \<rho> f = 0 \<or> eval \<rho> f = 1" for \<rho>
      by (simp_all add: eval_bool_cases)
    show ?thesis
    proof (rule expr_equivI)
      fix \<rho>
      show "eval \<rho> (Select_create c t f) = eval \<rho> (SelectExpr c t f)"
        using True wt c [of \<rho>] tf [of \<rho>]
        by (auto simp: Select_create_def apint_ok_isTrue split: option.split)
    qed (use True wt in \<open>auto simp: Select_create_def split: option.split\<close>)
  qed
qed

subsection \<open>Read\<close>

lemma Eq_create_const:
  assumes "wt l" "wt r" "getWidth l = getWidth r" "Eq_create l r = ConstantExpr c"
  shows "isTrue c \<longleftrightarrow> eval \<rho> r = eval \<rho> l"
proof -
  have "uval c = of_bool (eval \<rho> l = eval \<rho> r)" "getBitWidth c = Bool"
    using Eq_create_equiv [of l r] assms by (auto simp: expr_equiv_def isCmp_def)
  then show ?thesis by (auto simp: isTrue_def)
qed

lemma read_scan_Found:
  "read_scan index us = Found v \<Longrightarrow> wtU a us \<Longrightarrow> wt index \<Longrightarrow> getWidth index = arr_domain a \<Longrightarrow>
    wt v \<and> getWidth v = arr_range a \<and> evalU \<rho> a (eval \<rho> index) us = eval \<rho> v \<and>
    (div_safeU \<rho> us \<longrightarrow> div_safe \<rho> v)"
proof (induction us rule: updates_induct)
  case (UpdateNode i w n)
  then show ?case
    using Eq_create_const [of index i _ \<rho>] by (auto split: option.splits if_splits)
qed simp

lemma read_scan_rest:
  "read_scan index us = s \<Longrightarrow> s = ScanEnd \<or> s = SymbolicWrite un \<Longrightarrow>
    wtU a us \<Longrightarrow> wt index \<Longrightarrow> getWidth index = arr_domain a \<Longrightarrow>
    wtU a (read_rest s) \<and> evalU \<rho> a (eval \<rho> index) us = evalU \<rho> a (eval \<rho> index) (read_rest s) \<and>
    (div_safeU \<rho> us \<longrightarrow> div_safeU \<rho> (read_rest s))"
proof (induction us rule: updates_induct)
  case (UpdateNode i w n)
  then show ?case
    using Eq_create_const [of index i _ \<rho>] by (auto simp: read_rest_def split: option.splits if_splits)
qed (auto simp: read_rest_def)

lemma constant_cell:
  assumes "array_ok a" "isConstantArray a" "n < arr_size a"
  shows "apint_ok (constantValues a ! n)" "getBitWidth (constantValues a ! n) = arr_range a"
proof -
  have "constantValues a ! n \<in> set (constantValues a)"
    using assms by (auto simp: array_ok_def isConstantArray_def)
  then show "apint_ok (constantValues a ! n)" "getBitWidth (constantValues a ! n) = arr_range a"
    using assms(1) by (auto simp: array_ok_def)
qed

lemma Read_create_equiv:
  assumes "wt (ReadExpr a us index)"
  shows "expr_equiv (Read_create a us index) (ReadExpr a us index)"
proof -
  from assms have wt: "array_ok a" "wtU a us" "wt index" "getWidth index = arr_domain a" by simp_all
  show ?thesis
  proof (cases "read_scan index us")
    case (Found v)
    with read_scan_Found [OF this wt(2-4)] show ?thesis
      by (auto simp: Read_create_def expr_equiv_def)
  next
    case (SymbolicWrite un)
    note rest = read_scan_rest [OF SymbolicWrite _ wt(2-4)]
    show ?thesis
      using SymbolicWrite rest wt assms by (auto simp: Read_create_def expr_equiv_def split: option.split)
  next
    case ScanEnd
    note rest = read_scan_rest [OF ScanEnd _ wt(2-4)]
    show ?thesis
      using ScanEnd rest wt assms constant_cell [OF wt(1)]
      by (auto simp: Read_create_def expr_equiv_def read_rest_def initial_value_def getZExtValue_def
          split: option.split)
  qed
qed

subsection \<open>\<open>rebuild\<close>\<close>

text \<open>The same relation at one environment, for visitors that know something about it.\<close>

definition refines_at :: "env \<Rightarrow> expr \<Rightarrow> expr \<Rightarrow> bool" where
  "refines_at \<rho> e' e \<longleftrightarrow> wt e' \<and> getWidth e' = getWidth e \<and>
     eval \<rho> e' = eval \<rho> e \<and> (div_safe \<rho> e \<longrightarrow> div_safe \<rho> e')"

lemma refines_at_refl [simp, intro]: "wt e \<Longrightarrow> refines_at \<rho> e e"
  by (simp add: refines_at_def)

lemma refines_at_trans [trans]: "refines_at \<rho> a b \<Longrightarrow> refines_at \<rho> b c \<Longrightarrow> refines_at \<rho> a c"
  by (auto simp: refines_at_def)

lemma expr_equiv_at: "expr_equiv e' e \<longleftrightarrow> (\<forall>\<rho>. refines_at \<rho> e' e)"
  by (auto simp: expr_equiv_def refines_at_def)

lemma equiv_via: "expr_equiv x y \<Longrightarrow> refines_at \<rho> y z \<Longrightarrow> refines_at \<rho> x z"
  by (auto simp: expr_equiv_def refines_at_def)

lemma refines_atD:
  assumes "refines_at \<rho> e' e"
  shows "wt e'" "getWidth e' = getWidth e" "eval \<rho> e' = eval \<rho> e" "div_safe \<rho> e \<Longrightarrow> div_safe \<rho> e'"
  using assms by (auto simp: refines_at_def)

lemma refines_cong:
  "refines_at \<rho> e' e \<Longrightarrow> refines_at \<rho> (NotOptimizedExpr e') (NotOptimizedExpr e)"
  "refines_at \<rho> e' e \<Longrightarrow> refines_at \<rho> (NotExpr e') (NotExpr e)"
  "refines_at \<rho> e' e \<Longrightarrow> wt (ReadExpr a us e) \<Longrightarrow> refines_at \<rho> (ReadExpr a us e') (ReadExpr a us e)"
  "refines_at \<rho> c' c \<Longrightarrow> refines_at \<rho> t' t \<Longrightarrow> refines_at \<rho> f' f \<Longrightarrow> wt (SelectExpr c t f) \<Longrightarrow>
     refines_at \<rho> (SelectExpr c' t' f') (SelectExpr c t f)"
  "refines_at \<rho> l' l \<Longrightarrow> refines_at \<rho> r' r \<Longrightarrow> refines_at \<rho> (ConcatExpr l' r') (ConcatExpr l r)"
  "refines_at \<rho> e' e \<Longrightarrow> wt (ExtractExpr e off w) \<Longrightarrow> refines_at \<rho> (ExtractExpr e' off w) (ExtractExpr e off w)"
  "refines_at \<rho> e' e \<Longrightarrow> wt (ZExtExpr e w) \<Longrightarrow> refines_at \<rho> (ZExtExpr e' w) (ZExtExpr e w)"
  "refines_at \<rho> e' e \<Longrightarrow> wt (SExtExpr e w) \<Longrightarrow> refines_at \<rho> (SExtExpr e' w) (SExtExpr e w)"
  "refines_at \<rho> l' l \<Longrightarrow> refines_at \<rho> r' r \<Longrightarrow> wt (BinaryExpr k l r) \<Longrightarrow>
     refines_at \<rho> (BinaryExpr k l' r') (BinaryExpr k l r)"
  by (auto simp: refines_at_def)

text \<open>Rebuilding a node on kids that refine its own kids refines the node.\<close>

lemma rebuild_refines:
  assumes "wt e" "\<not> isConst e" "list_all2 (refines_at \<rho>) ks (kids e)"
  shows "refines_at \<rho> (rebuild e ks) e"
  using assms wt_width_pos [OF assms(1)]
  by (cases e) (auto simp: NotOptimized_create_def list_all2_Cons2 refines_cong refines_atD
      intro!: equiv_via [OF Read_create_equiv] equiv_via [OF Select_create_equiv] equiv_via [OF Not_create_equiv]
        equiv_via [OF Concat_Extract_create_equiv(1)] equiv_via [OF Concat_Extract_create_equiv(2)]
        equiv_via [OF ZExt_create_equiv(1)] equiv_via [OF SExt_create_equiv(1)]
        equiv_via [OF Binary_create_equiv])

subsection \<open>Properties of the constructors\<close>

text \<open>Concrete operands for the witnesses: a symbolic array of four bytes and a read of it.\<close>

definition sample_array :: array where
  "sample_array = \<lparr>arr_addr = 1, arr_name = ''buf'', arr_size = 4, arr_domain = 32, arr_range = 8,
     constantValues = []\<rparr>"

definition sample_index :: "nat \<Rightarrow> expr" where
  "sample_index i = ConstantExpr (APInt 32 (int i))"

definition sample_read :: "nat \<Rightarrow> expr" where
  "sample_read i = ReadExpr sample_array NullNode (sample_index i)"

definition const8 :: "int \<Rightarrow> expr" where
  "const8 v = ConstantExpr (mkAPInt 8 v)"

lemma sample_facts [simp]:
  "array_ok sample_array" "arr_domain sample_array = 32" "arr_range sample_array = 8"
  "getWidth (sample_read i) = 8" "getWidth (sample_index i) = 32" "getWidth (const8 v) = 8" "wt (const8 v)"
  "i < 4 \<Longrightarrow> wt (sample_index i)" "i < 4 \<Longrightarrow> wt (sample_read i)" "div_safe \<rho> (sample_read i)"
  by (auto simp: sample_array_def array_ok_def isSymbolicArray_def sample_read_def const8_def
      sample_index_def apint_ok_def take_bit_id)

text \<open>
  C1: for every binary class and for all well-typed operands of one width, the simplifying
  constructor (constant folding, reassociation of constants, boolean special cases, comparison
  rewriting) returns a well-typed expression of the node's width with the value of the plain
  node in every environment, and it divides by zero in no environment where the plain node
  does not.
\<close>

theorem Binary_create_sound:
  assumes "wt l" "wt r" "getWidth l = getWidth r"
  shows "expr_equiv (Binary_create k l r) (BinaryExpr k l r)"
  using assms by (intro Binary_create_equiv) simp_all

theorem Binary_create_sound_witness:
  "wt (const8 5) \<and> wt (sample_read 0) \<and>
   expr_equiv (Binary_create Sub (const8 5) (sample_read 0)) (BinaryExpr Sub (const8 5) (sample_read 0))"
  using Binary_create_sound [of "const8 5" "sample_read 0" Sub] by simp

text \<open>
  \<open>ExtractExpr::create\<close>, with its pushing of extracts through concatenations, returns an
  expression equivalent to the plain extract.
\<close>

theorem Extract_create_sound:
  assumes "wt e" "0 < w" "off + w \<le> getWidth e"
  shows "expr_equiv (Extract_create e off w) (ExtractExpr e off w)"
  using assms by (intro Concat_Extract_create_equiv) simp

theorem Extract_create_sound_witness:
  "wt (ConcatExpr (sample_read 1) (sample_read 0)) \<and>
   expr_equiv (Extract_create (ConcatExpr (sample_read 1) (sample_read 0)) 4 8)
     (ExtractExpr (ConcatExpr (sample_read 1) (sample_read 0)) 4 8)"
  using Extract_create_sound [of "ConcatExpr (sample_read 1) (sample_read 0)" 8 4] by simp

text \<open>
  \<open>ConcatExpr::create\<close>, with its merging of adjacent extracts of one expression, returns an
  expression equivalent to the plain concatenation.
\<close>

theorem Concat_create_sound:
  assumes "wt l" "wt r"
  shows "expr_equiv (Concat_create l r) (ConcatExpr l r)"
  using assms by (rule Concat_Extract_create_equiv)

theorem Concat_create_sound_witness:
  "wt (ExtractExpr (sample_index 3) 8 8) \<and>
   expr_equiv (Concat_create (ExtractExpr (sample_index 3) 8 8) (ExtractExpr (sample_index 3) 0 8))
     (ConcatExpr (ExtractExpr (sample_index 3) 8 8) (ExtractExpr (sample_index 3) 0 8))"
  using Concat_create_sound [of "ExtractExpr (sample_index 3) 8 8" "ExtractExpr (sample_index 3) 0 8"] by simp

text \<open>
  C2: \<open>ReadExpr::create\<close> skips the updates whose index provably differs, returns the written
  value at the first provable match and the initialiser's byte of a constant array, and the
  result always reads the same value as the plain node.
\<close>

theorem Read_create_sound:
  assumes "wt (ReadExpr a us index)"
  shows "expr_equiv (Read_create a us index) (ReadExpr a us index)"
  using assms by (rule Read_create_equiv)

theorem Read_create_sound_witness:
  "wt (ReadExpr sample_array (UpdateNode (sample_index 1) (const8 7) NullNode) (sample_index 2)) \<and>
   expr_equiv (Read_create sample_array (UpdateNode (sample_index 1) (const8 7) NullNode) (sample_index 2))
     (ReadExpr sample_array (UpdateNode (sample_index 1) (const8 7) NullNode) (sample_index 2))"
  using Read_create_sound [of sample_array "UpdateNode (sample_index 1) (const8 7) NullNode" "sample_index 2"]
  by simp

text \<open>
  \<open>SelectExpr::create\<close> (constant conditions, equal branches, boolean selects as
  conjunctions and disjunctions) is equivalent to the plain select.
\<close>

theorem Select_create_sound:
  assumes "wt (SelectExpr c t f)"
  shows "expr_equiv (Select_create c t f) (SelectExpr c t f)"
  using assms by (rule Select_create_equiv)

theorem Select_create_sound_witness:
  "wt (SelectExpr (BinaryExpr Eq (sample_read 0) (const8 1)) (sample_read 1) (const8 0)) \<and>
   expr_equiv (Select_create (BinaryExpr Eq (sample_read 0) (const8 1)) (sample_read 1) (const8 0))
     (SelectExpr (BinaryExpr Eq (sample_read 0) (const8 1)) (sample_read 1) (const8 0))"
  using Select_create_sound [of "BinaryExpr Eq (sample_read 0) (const8 1)" "sample_read 1" "const8 0"]
  by (simp add: isCmp_def)

text \<open>
  \<open>ZExtExpr::create\<close> and \<open>SExtExpr::create\<close> extend when the target is at least as wide, and
  otherwise truncate: both then are the extract of the low bits.
\<close>

theorem Ext_create_sound:
  assumes "wt e" "0 < w"
  shows "expr_equiv (ZExt_create e w) (if getWidth e \<le> w then ZExtExpr e w else ExtractExpr e 0 w) \<and>
    expr_equiv (SExt_create e w) (if getWidth e \<le> w then SExtExpr e w else ExtractExpr e 0 w)"
  using ZExt_create_equiv [OF assms] SExt_create_equiv [OF assms] by auto

theorem Ext_create_sound_witness:
  "wt (sample_read 0) \<and> expr_equiv (SExt_create (sample_read 0) 32) (SExtExpr (sample_read 0) 32) \<and>
   expr_equiv (ZExt_create (sample_read 0) 1) (ExtractExpr (sample_read 0) 0 1)"
  using Ext_create_sound [of "sample_read 0" 32] Ext_create_sound [of "sample_read 0" 1] by simp

text \<open>
  C3: \<open>rebuild\<close>, which every expression visitor uses, keeps the value a node has in an environment
  when its kids are replaced by expressions that have the kids' values there.
\<close>

theorem rebuild_sound:
  assumes "wt e" "\<not> isConst e" "list_all2 (refines_at \<rho>) ks (kids e)"
  shows "refines_at \<rho> (rebuild e ks) e"
  using assms by (rule rebuild_refines)

theorem rebuild_sound_witness:
  "refines_at (\<lambda>_ _. 9) (rebuild (BinaryExpr Mul (sample_read 0) (const8 4)) [const8 9, const8 4])
     (BinaryExpr Mul (sample_read 0) (const8 4))"
proof -
  have "refines_at (\<lambda>_ _. 9) (const8 9) (sample_read 0)"
    by (simp add: refines_at_def sample_read_def initial_value_def isConstantArray_def isSymbolicArray_def
        sample_array_def const8_def)
  then show ?thesis
    using rebuild_sound [of "BinaryExpr Mul (sample_read 0) (const8 4)" "\<lambda>_ _. 9" "[const8 9, const8 4]"] by simp
qed

end
