(* ===== verification/ExprEval.thy ===== *)
theory ExprEval
  imports ExprSound
begin

text \<open>
  The expression visitor of \<open>klee/lib/Expr/ExprVisitor.cpp\<close> as open recursion over its hooks, the
  partial evaluator of \<open>klee/lib/Expr/ExprEvaluator.cpp\<close> built on it, the concrete assignments of
  \<open>klee/include/klee/Expr/Assignment.h\<close>, and the update lists of \<open>klee/lib/Expr/Updates.cpp\<close>. The
  main results: evaluation under an assignment keeps the value of the expression in every
  environment that extends the assignment, and without free values it ends in a constant.
\<close>

subsection \<open>The visitor\<close>

datatype action = SkipChildren | DoChildren | ChangeTo expr

text \<open>
  \<open>visitActual\<close> with the hooks as arguments: \<open>visitExpr\<close> runs first, then the hook of the node's
  kind, and for \<open>DoChildren\<close> the kids are visited (\<open>ks\<close> is what the visits of the kids return), the
  node is rebuilt when a kid changed (and visited again by a recursive visitor, which is what
  \<open>revisit\<close> does), and \<open>visitExprPost\<close> has the last word on a result that is not a constant.
\<close>

definition visitChildren ::
  "(expr \<Rightarrow> action) \<Rightarrow> (expr \<Rightarrow> expr) \<Rightarrow> expr list \<Rightarrow> expr \<Rightarrow> expr" where
  "visitChildren visitExprPost revisit ks ep =
     (let e = (if ks \<noteq> kids ep then revisit (rebuild ep ks) else ep)
      in if isConst e then e
         else case visitExprPost e of ChangeTo x \<Rightarrow> x | _ \<Rightarrow> e)"

definition visitActual ::
  "(expr \<Rightarrow> action) \<Rightarrow> (expr \<Rightarrow> action) \<Rightarrow> (expr \<Rightarrow> action) \<Rightarrow> (expr \<Rightarrow> expr) \<Rightarrow> expr list \<Rightarrow>
   expr \<Rightarrow> expr" where
  "visitActual visitExpr visitKind visitExprPost revisit ks e =
     (if isConst e then e
      else case visitExpr e of
        SkipChildren \<Rightarrow> e
      | ChangeTo x \<Rightarrow> x
      | DoChildren \<Rightarrow> (case visitKind e of
          DoChildren \<Rightarrow> visitChildren visitExprPost revisit ks e
        | SkipChildren \<Rightarrow> e
        | ChangeTo x \<Rightarrow> x))"

lemma visitActual_cong [fundef_cong]:
  assumes "e = e'" "ks = ks'" "f e' = f' e'" "g e' = g' e'" "h = h'"
    and "\<And>x. \<not> isConst e' \<Longrightarrow> ks' \<noteq> kids e' \<Longrightarrow> x = rebuild e' ks' \<Longrightarrow> w x = w' x"
  shows "visitActual f g h w ks e = visitActual f' g' h' w' ks' e'"
  using assms by (auto simp: visitActual_def visitChildren_def Let_def split: action.split)

subsection \<open>The evaluator\<close>

fun isRead :: "expr \<Rightarrow> bool" where
  "isRead (ReadExpr a us i) = True"
| "isRead _ = False"

fun isNotOptimized :: "expr \<Rightarrow> bool" where
  "isNotOptimized (NotOptimizedExpr e) = True"
| "isNotOptimized _ = False"

definition EE_visitExpr :: "expr \<Rightarrow> action" where
  "EE_visitExpr e =
     (if getNumKids e = 0 \<or> isRead e then DoChildren
      else if list_all isConst (kids e) then ChangeTo (rebuild e (kids e))
      else DoChildren)"

fun EE_visitExprPost :: "expr \<Rightarrow> action" where
  "EE_visitExprPost (NotOptimizedExpr src) = ChangeTo src"
| "EE_visitExprPost _ = SkipChildren"

text \<open>
  The scan of the update list at a concrete index. The index parameter of the source is a 32-bit
  \<open>unsigned\<close>; \<open>getInitialValue\<close> is the subclass's hook.
\<close>

primrec evalRead ::
  "(expr \<Rightarrow> expr) \<Rightarrow> (array \<Rightarrow> nat \<Rightarrow> expr) \<Rightarrow> array \<Rightarrow> nat \<Rightarrow> updates \<Rightarrow> expr" where
  "evalRead visit getInitialValue root index NullNode =
     (if isConstantArray root \<and> index < arr_size root then ConstantExpr (constantValues root ! index)
      else getInitialValue root index)"
| "evalRead visit getInitialValue root index (UpdateNode i v n) =
     (case asConst (visit i) of
        Some CE \<Rightarrow> if getZExtValue CE = int index then visit v
                    else evalRead visit getInitialValue root index n
      | None \<Rightarrow> Read_create root (UpdateNode i v n) (ConstantExpr (mkAPInt (arr_domain root) (int index))))"

definition protectedDivOperation :: "(expr \<Rightarrow> expr) \<Rightarrow> expr \<Rightarrow> expr \<Rightarrow> expr \<Rightarrow> action" where
  "protectedDivOperation visit e left right =
     (let k0 = visit left; k1 = visit right;
          k1 = (case asConst k1 of Some CE \<Rightarrow> if isZero CE then right else k1 | None \<Rightarrow> k1)
      in if k0 \<noteq> left \<or> k1 \<noteq> right then ChangeTo (rebuild e [k0, k1]) else SkipChildren)"

fun EE_visitKind :: "(expr \<Rightarrow> expr) \<Rightarrow> (array \<Rightarrow> nat \<Rightarrow> expr) \<Rightarrow> expr \<Rightarrow> action" where
  "EE_visitKind visit getInitialValue (ReadExpr root us i) =
     (case asConst (visit i) of
        Some CE \<Rightarrow> ChangeTo (evalRead visit getInitialValue root (nat (take_bit 32 (getZExtValue CE))) us)
      | None \<Rightarrow> DoChildren)"
| "EE_visitKind visit getInitialValue (BinaryExpr k l r) =
     (if isDiv k then protectedDivOperation visit (BinaryExpr k l r) l r else DoChildren)"
| "EE_visitKind visit getInitialValue _ = DoChildren"

text \<open>The expressions a hook may visit: the kids and, for a read, what the updates hold.\<close>

primrec upd_exprs :: "updates \<Rightarrow> expr list" where
  "upd_exprs NullNode = []"
| "upd_exprs (UpdateNode i v n) = i # v # upd_exprs n"

fun inner :: "expr \<Rightarrow> expr list" where
  "inner (ReadExpr root us i) = i # upd_exprs us"
| "inner e = kids e"

lemma upd_exprs_size: "x \<in> set (upd_exprs us) \<Longrightarrow> size x < size us"
  by (induction us rule: updates_induct) auto

lemma inner_size: "x \<in> set (inner e) \<Longrightarrow> size x < size e"
  by (cases e) (auto dest: upd_exprs_size)

lemma kids_inner: "set (kids e) \<subseteq> set (inner e)"
  by (cases e) auto

lemma evalRead_cong:
  "(\<And>x. x \<in> set (upd_exprs us) \<Longrightarrow> v x = v' x) \<Longrightarrow> evalRead v g root index us = evalRead v' g root index us"
  by (induction us rule: updates_induct) (auto split: option.split)

lemma EE_visitKind_cong [fundef_cong]:
  "\<lbrakk>e = e'; g = g'; \<And>x. x \<in> set (inner e') \<Longrightarrow> v x = v' x\<rbrakk> \<Longrightarrow> EE_visitKind v g e = EE_visitKind v' g' e'"
  by (cases e') (auto simp: protectedDivOperation_def cong: evalRead_cong split: option.split)

function ExprEvaluator_visit :: "(array \<Rightarrow> nat \<Rightarrow> expr) \<Rightarrow> expr \<Rightarrow> expr" where
  "ExprEvaluator_visit getInitialValue e =
     visitActual EE_visitExpr (EE_visitKind (ExprEvaluator_visit getInitialValue) getInitialValue)
       EE_visitExprPost (\<lambda>x. x) (map (ExprEvaluator_visit getInitialValue) (kids e)) e"
  by pat_completeness auto
termination
  by (relation "measure (\<lambda>(g, e). size e)") (use inner_size kids_inner in \<open>fastforce+\<close>)

declare ExprEvaluator_visit.simps [simp del]

subsection \<open>Assignments\<close>

record assignment =
  allowFreeValues :: bool
  bindings :: "array \<rightharpoonup> 8 word list"

definition Assignment :: "(array \<times> 8 word list) list \<Rightarrow> bool \<Rightarrow> assignment" where
  "Assignment objects allowFree =
     \<lparr>allowFreeValues = allowFree,
      bindings = fold (\<lambda>(os, arr) m. if m os = None then m(os \<mapsto> arr) else m) objects Map.empty\<rparr>"

definition evaluate_cell :: "assignment \<Rightarrow> array \<Rightarrow> nat \<Rightarrow> expr" where
  "evaluate_cell a array index =
     (case bindings a array of
        Some bytes \<Rightarrow> if index < length bytes then ConstantExpr (mkAPInt (arr_range array) (uint (bytes ! index)))
                       else if allowFreeValues a
                       then Read_create array NullNode (ConstantExpr (mkAPInt (arr_domain array) (int index)))
                       else ConstantExpr (mkAPInt (arr_range array) 0)
      | None \<Rightarrow> if allowFreeValues a
                 then Read_create array NullNode (ConstantExpr (mkAPInt (arr_domain array) (int index)))
                 else ConstantExpr (mkAPInt (arr_range array) 0))"

definition evaluate :: "assignment \<Rightarrow> expr \<Rightarrow> expr" where
  "evaluate a e = ExprEvaluator_visit (evaluate_cell a) e"

fun expr_isTrue :: "expr \<Rightarrow> bool" where
  "expr_isTrue (ConstantExpr c) = isTrue c"
| "expr_isTrue _ = False"

fun satisfies :: "assignment \<Rightarrow> expr list \<Rightarrow> bool" where
  "satisfies a [] = True"
| "satisfies a (e # es) = (if \<not> expr_isTrue (evaluate a e) then False else satisfies a es)"

subsection \<open>Soundness of the evaluator\<close>

text \<open>A property of every expression inside an expression, the update lists included.\<close>

function all_sub :: "(expr \<Rightarrow> bool) \<Rightarrow> expr \<Rightarrow> bool" where
  "all_sub P e \<longleftrightarrow> P e \<and> (\<forall>x\<in>set (inner e). all_sub P x)"
  by pat_completeness auto
termination
  by (relation "measure (\<lambda>(P, e). size e)") (auto dest: inner_size)

declare all_sub.simps [simp del]

lemma all_sub_self: "all_sub P e \<Longrightarrow> P e"
  and all_sub_inner: "all_sub P e \<Longrightarrow> x \<in> set (inner e) \<Longrightarrow> all_sub P x"
  using all_sub.simps [of P e] by blast+

lemma all_sub_nodes:
  "all_sub P (ConstantExpr c) \<longleftrightarrow> P (ConstantExpr c)"
  "all_sub P (NotOptimizedExpr e) \<longleftrightarrow> P (NotOptimizedExpr e) \<and> all_sub P e"
  "all_sub P (ReadExpr a us i) \<longleftrightarrow> P (ReadExpr a us i) \<and> all_sub P i \<and> list_all (all_sub P) (upd_exprs us)"
  "all_sub P (SelectExpr x y z) \<longleftrightarrow> P (SelectExpr x y z) \<and> all_sub P x \<and> all_sub P y \<and> all_sub P z"
  "all_sub P (ConcatExpr l r) \<longleftrightarrow> P (ConcatExpr l r) \<and> all_sub P l \<and> all_sub P r"
  "all_sub P (ExtractExpr e off w) \<longleftrightarrow> P (ExtractExpr e off w) \<and> all_sub P e"
  "all_sub P (NotExpr e) \<longleftrightarrow> P (NotExpr e) \<and> all_sub P e"
  "all_sub P (ZExtExpr e w) \<longleftrightarrow> P (ZExtExpr e w) \<and> all_sub P e"
  "all_sub P (SExtExpr e w) \<longleftrightarrow> P (SExtExpr e w) \<and> all_sub P e"
  "all_sub P (BinaryExpr k l r) \<longleftrightarrow> P (BinaryExpr k l r) \<and> all_sub P l \<and> all_sub P r"
  by (subst all_sub.simps, simp add: list_all_iff)+

lemma all_sub_mono: "all_sub P e \<Longrightarrow> (\<And>x. P x \<Longrightarrow> Q x) \<Longrightarrow> all_sub Q e"
proof (induction Q e rule: all_sub.induct)
  case (1 Q e)
  then show ?case using all_sub.simps [of P e] all_sub.simps [of Q e] by blast
qed

lemma all_sub_conj: "all_sub P e \<Longrightarrow> all_sub Q e \<Longrightarrow> all_sub (\<lambda>x. P x \<and> Q x) e"
proof (induction Q e rule: all_sub.induct)
  case (1 Q e)
  then show ?case using all_sub.simps [of P e] all_sub.simps [of Q e] all_sub.simps [of "\<lambda>x. P x \<and> Q x" e] by blast
qed

lemma all_sub_always: "(\<And>x. P x) \<Longrightarrow> all_sub P e"
proof (induction P e rule: all_sub.induct)
  case (1 P e)
  then show ?case using all_sub.simps [of P e] by blast
qed

text \<open>
  Every array of the expression has indices of at most 32 bits, as \<open>evalRead\<close> takes for granted;
  no \<open>NotOptimizedExpr\<close> sits directly on a constant.
\<close>

definition narrow :: "expr \<Rightarrow> bool" where
  "narrow = all_sub (\<lambda>e. case asRead e of Some (a, us, i) \<Rightarrow> arr_domain a \<le> 32 | None \<Rightarrow> True)"

fun opaque_const :: "expr \<Rightarrow> bool" where
  "opaque_const (NotOptimizedExpr src) = isConst src"
| "opaque_const _ = False"

definition foldable :: "expr \<Rightarrow> bool" where
  "foldable = all_sub (\<lambda>e. \<not> opaque_const e)"

lemma narrow_Read: "narrow (ReadExpr a us i) \<Longrightarrow> arr_domain a \<le> 32"
  unfolding narrow_def by (drule all_sub_self) simp

lemma narrow_inner: "narrow e \<Longrightarrow> x \<in> set (inner e) \<Longrightarrow> narrow x"
  unfolding narrow_def by (rule all_sub_inner)

lemma foldable_inner: "foldable e \<Longrightarrow> x \<in> set (inner e) \<Longrightarrow> foldable x"
  unfolding foldable_def by (rule all_sub_inner)

lemma wtU_all: "wtU a us \<Longrightarrow> x \<in> set (upd_exprs us) \<Longrightarrow> wt x"
  by (induction us rule: updates_induct) auto

lemma wt_inner: "wt e \<Longrightarrow> x \<in> set (inner e) \<Longrightarrow> wt x"
  by (cases e) (auto dest: wtU_all)

text \<open>What the hook for initial values owes the evaluator in an environment.\<close>

definition initial_sound :: "env \<Rightarrow> (array \<Rightarrow> nat \<Rightarrow> expr) \<Rightarrow> bool" where
  "initial_sound \<rho> getInitialValue \<longleftrightarrow>
     (\<forall>root index. array_ok root \<longrightarrow> int index < 2 ^ arr_domain root \<longrightarrow> \<not> (isConstantArray root \<and> index < arr_size root) \<longrightarrow>
        wt (getInitialValue root index) \<and> getWidth (getInitialValue root index) = arr_range root \<and>
        div_safe \<rho> (getInitialValue root index) \<and> eval \<rho> (getInitialValue root index) = initial_value \<rho> root index)"

lemma evalRead_sound:
  assumes "initial_sound \<rho> g" "array_ok root" "int index < 2 ^ arr_domain root"
  shows "wtU root us \<Longrightarrow> (\<And>x. x \<in> set (upd_exprs us) \<Longrightarrow> refines_at \<rho> (v x) x) \<Longrightarrow>
    wt (evalRead v g root index us) \<and> getWidth (evalRead v g root index us) = arr_range root \<and>
    eval \<rho> (evalRead v g root index us) = evalU \<rho> root (int index) us \<and>
    (div_safeU \<rho> us \<longrightarrow> div_safe \<rho> (evalRead v g root index us))"
proof (induction us rule: updates_induct)
  case NullNode
  show ?case
  proof (cases "isConstantArray root \<and> index < arr_size root")
    case True
    then show ?thesis using constant_cell [OF assms(2)] by (simp add: initial_value_def)
  next
    case False
    then have "evalRead v g root index NullNode = g root index"
      by (simp only: evalRead.simps if_False)
    with False assms show ?thesis unfolding initial_sound_def by (simp del: evalRead.simps)
  qed
next
  case (UpdateNode i w n)
  from UpdateNode.prems have i: "refines_at \<rho> (v i) i" and w: "refines_at \<rho> (v w) w" by simp_all
  show ?case
  proof (cases "asConst (v i)")
    case (Some CE)
    then have "eval \<rho> i = uval CE" using i by (auto simp: refines_at_def)
    then show ?thesis
      using Some UpdateNode w by (auto simp: refines_at_def getZExtValue_def)
  next
    case None
    let ?c = "ConstantExpr (mkAPInt (arr_domain root) (int index))"
    have wt: "wt (ReadExpr root (UpdateNode i w n) ?c)"
      using UpdateNode.prems(1) assms(2) by (simp add: array_ok_def)
    have "eval \<rho> ?c = int index" using assms(3) by (simp add: take_bit_id)
    with Read_create_equiv [OF wt] None show ?thesis by (simp add: expr_equiv_def)
  qed
qed

lemma visitChildren_sound:
  assumes "wt e" "\<not> isConst e" "\<And>x. x \<in> set (kids e) \<Longrightarrow> refines_at \<rho> (v x) x"
    and "\<And>x y. post x = ChangeTo y \<Longrightarrow> wt x \<Longrightarrow> refines_at \<rho> y x"
  shows "refines_at \<rho> (visitChildren post (\<lambda>x. x) (map v (kids e)) e) e"
proof -
  have "list_all2 (refines_at \<rho>) (map v (kids e)) (kids e)"
    using assms(3) by (simp add: list_all2_conv_all_nth)
  then have "refines_at \<rho> (rebuild e (map v (kids e))) e"
    using assms(1,2) by (rule rebuild_refines [rotated 2])
  then have e1: "refines_at \<rho> (if map v (kids e) \<noteq> kids e then rebuild e (map v (kids e)) else e) e"
    using assms(1) by simp
  show ?thesis
    unfolding visitChildren_def Let_def
    using e1 assms(4) [OF _ refines_atD(1) [OF e1]] refines_at_trans [OF _ e1]
    by (auto split: action.split)
qed

lemma EE_visitExprPost_sound: "EE_visitExprPost x = ChangeTo y \<Longrightarrow> wt x \<Longrightarrow> refines_at \<rho> y x"
  by (cases x) (auto simp: refines_at_def)

lemma protectedDiv_sound:
  assumes "wt (BinaryExpr k l r)" "refines_at \<rho> (v l) l" "refines_at \<rho> (v r) r"
    and "protectedDivOperation v (BinaryExpr k l r) l r = ChangeTo x"
  shows "refines_at \<rho> x (BinaryExpr k l r)"
proof -
  let ?r = "case asConst (v r) of Some CE \<Rightarrow> if isZero CE then r else v r | None \<Rightarrow> v r"
  have "refines_at \<rho> ?r r" using assms(1,3) by (auto split: option.split)
  then have "refines_at \<rho> (rebuild (BinaryExpr k l r) [v l, ?r]) (BinaryExpr k l r)"
    using assms(1,2) by (intro rebuild_refines) auto
  with assms(4) show ?thesis by (simp add: protectedDivOperation_def Let_def split: if_splits)
qed

lemma EE_visitExpr_sound: "EE_visitExpr e = ChangeTo x \<Longrightarrow> wt e \<Longrightarrow> refines_at \<rho> x e"
  using wt_inner [of e] kids_inner [of e]
  by (auto simp: EE_visitExpr_def getNumKids_def list_all2_conv_all_nth split: if_splits
      intro!: rebuild_refines)
    (metis isConst.elims(2) kids.simps(1) nth_mem subsetD wt_inner refines_at_refl)+

lemma EE_visitKind_sound:
  assumes "wt e" "narrow e" "initial_sound \<rho> g" "\<And>x. x \<in> set (inner e) \<Longrightarrow> refines_at \<rho> (v x) x"
    and "EE_visitKind v g e = ChangeTo x"
  shows "refines_at \<rho> x e"
proof (cases e)
  case (ReadExpr root us i)
  with assms(5) obtain CE where CE: "v i = ConstantExpr CE"
    and x: "x = evalRead v g root (nat (take_bit 32 (uval CE))) us"
    by (auto simp: getZExtValue_def split: option.splits)
  have i: "refines_at \<rho> (ConstantExpr CE) i" using assms(4) [of i] ReadExpr CE by simp
  with ReadExpr assms(1) have ok: "apint_ok CE" "getBitWidth CE = arr_domain root" by (auto simp: refines_at_def)
  with apint_okD [OF ok(1)] narrow_Read [of root us i] assms(2) ReadExpr have CEv: "take_bit 32 (uval CE) = uval CE"
    using take_bit_wider [of "getBitWidth CE" 32] by simp
  have "int (nat (uval CE)) < 2 ^ arr_domain root" using apint_okD [OF ok(1)] ok(2) by simp
  from evalRead_sound [OF assms(3) _ this, of us v] show ?thesis
    using ReadExpr assms(1,4) i x CEv apint_okD(2) [OF ok(1)] by (auto simp: refines_at_def)
next
  case (BinaryExpr k l r)
  then show ?thesis using assms protectedDiv_sound [of k l r \<rho> v x] by (auto split: if_splits)
qed (use assms in auto)

lemma ExprEvaluator_sound:
  assumes "initial_sound \<rho> g"
  shows "wt e \<Longrightarrow> narrow e \<Longrightarrow> refines_at \<rho> (ExprEvaluator_visit g e) e"
proof (induction e rule: expr_size_induct)
  case (smaller e)
  let ?v = "ExprEvaluator_visit g"
  have IH: "refines_at \<rho> (?v x) x" if "x \<in> set (inner e)" for x
    using smaller that by (auto simp: inner_size wt_inner narrow_inner)
  have kids: "refines_at \<rho> (visitChildren EE_visitExprPost (\<lambda>x. x) (map ?v (kids e)) e) e" if "\<not> isConst e"
    using that smaller.prems IH kids_inner by (intro visitChildren_sound) (auto simp: EE_visitExprPost_sound)
  have kind: "refines_at \<rho> x e" if "EE_visitKind ?v g e = ChangeTo x" for x
    using smaller.prems assms IH that by (rule EE_visitKind_sound)
  show ?case
    unfolding ExprEvaluator_visit.simps [of g e] visitActual_def
    using smaller.prems kids kind EE_visitExpr_sound [of e]
    by (auto split: action.split)
qed

subsection \<open>Without free values the evaluator ends in a constant\<close>

lemma Binary_create_const: "isConst (Binary_create k (ConstantExpr a) (ConstantExpr b))"
  by (cases k) (simp_all add: Add_create.simps Sub_create.simps Mul_create_def UDiv_create_def SDiv_create_def
      URem_create_def SRem_create_def And_create_def Or_create_def Xor_create_def Shl_create_def LShr_create_def
      AShr_create_def Eq_create_def Ne_create_def Ult_create_def Ule_create_def Slt_create_def Sle_create_def
      Ugt_create_def Uge_create_def Sgt_create_def Sge_create_def BCREATE_R_def BCREATE_def CMPCREATE_def CMPCREATE_T_def)

lemma Extract_create_const: "isConst (Extract_create (ConstantExpr a) off w)"
  by (subst Extract_create.simps) simp

lemma other_create_const:
  "isConst (Concat_create (ConstantExpr a) (ConstantExpr b))"
  "isConst (ZExt_create (ConstantExpr a) w)" "isConst (SExt_create (ConstantExpr a) w)"
  "isConst (Not_create (ConstantExpr a))" "isConst (Select_create (ConstantExpr a) (ConstantExpr b) (ConstantExpr d))"
  by (simp_all add: Not_create_def Select_create_def ZExt_create_def SExt_create_def Extract_create_const Concat_create.simps)

lemma rebuild_const:
  assumes "\<not> isConst e" "\<not> isRead e" "\<not> isNotOptimized e" "list_all isConst ks" "length ks = length (kids e)"
  shows "isConst (rebuild e ks)"
proof -
  have ex: "\<exists>cs. ks = map ConstantExpr cs"
    using assms(4)
  proof (induction ks)
    case (Cons k ks)
    then obtain c cs where "k # ks = map ConstantExpr (c # cs)" by (auto simp: isConst_asConst)
    then show ?case by (rule exI)
  qed simp
  then obtain cs where ks: "ks = map ConstantExpr cs" by blast
  with assms(5) have len: "length cs = length (kids e)" by simp
  note const = Binary_create_const other_create_const Extract_create_const
  show ?thesis
  proof (cases e)
    case (SelectExpr x y z)
    with len obtain a b c where "cs = [a, b, c]" by (auto simp: length_Suc_conv eval_nat_numeral)
    with SelectExpr ks const show ?thesis by simp
  next
    case (ConcatExpr x y)
    with len obtain a b where "cs = [a, b]" by (auto simp: length_Suc_conv eval_nat_numeral)
    with ConcatExpr ks const show ?thesis by simp
  next
    case (BinaryExpr k x y)
    with len obtain a b where "cs = [a, b]" by (auto simp: length_Suc_conv eval_nat_numeral)
    with BinaryExpr ks const show ?thesis by simp
  qed (use assms(1-3) len ks const in \<open>auto simp: length_Suc_conv eval_nat_numeral\<close>)
qed

lemma kids_all_const: "(\<And>x. x \<in> set (kids e) \<Longrightarrow> isConst (v x)) \<Longrightarrow> list_all isConst (map v (kids e))"
  by (simp add: list_all_iff)

text \<open>The cells read at the value of the index, past all updates, have constants for their initial values.\<close>

definition known_cells :: "env \<Rightarrow> (array \<Rightarrow> nat \<Rightarrow> expr) \<Rightarrow> expr \<Rightarrow> bool" where
  "known_cells \<rho> getInitialValue = all_sub (\<lambda>e. case asRead e of
     Some (a, us, i) \<Rightarrow> isConstantArray a \<and> nat (eval \<rho> i) < arr_size a \<or> isConst (getInitialValue a (nat (eval \<rho> i)))
   | None \<Rightarrow> True)"

lemma evalRead_const:
  assumes "\<And>x. x \<in> set (upd_exprs us) \<Longrightarrow> isConst (v x)"
    and "isConstantArray root \<and> index < arr_size root \<or> isConst (g root index)"
  shows "isConst (evalRead v g root index us)"
  using assms
proof (induction us rule: updates_induct)
  case (UpdateNode i w n)
  then obtain c where "v i = ConstantExpr c" using isConst_asConst by fastforce
  with UpdateNode show ?case by simp
qed auto

lemma visitChildren_const:
  assumes "\<not> isConst e" "\<not> isRead e" "\<And>x. x \<in> set (kids e) \<Longrightarrow> isConst (v x)"
    and "\<exists>x\<in>set (kids e). \<not> isConst x"
  shows "isConst (visitChildren EE_visitExprPost (\<lambda>x. x) (map v (kids e)) e)"
proof -
  have changed: "map v (kids e) \<noteq> kids e" using assms(3,4) by (metis in_set_conv_nth length_map nth_map)
  have "list_all isConst (map v (kids e))" using assms(3) by (rule kids_all_const)
  then have "isConst (rebuild e (map v (kids e))) \<or>
      (\<exists>c. rebuild e (map v (kids e)) = NotOptimizedExpr (ConstantExpr c))"
    using assms(1,2) rebuild_const [of e "map v (kids e)"]
    by (cases e) (auto simp: isConst_asConst NotOptimized_create_def)
  with changed show ?thesis by (auto simp: visitChildren_def Let_def)
qed

text \<open>The division hook on a divisor that evaluates to a constant other than zero.\<close>

lemma protectedDiv_const:
  assumes "isConst (v l)" "v r = ConstantExpr d" "\<not> isZero d" "\<not> (isConst l \<and> isConst r)"
  shows "\<exists>x. protectedDivOperation v (BinaryExpr k l r) l r = ChangeTo x \<and> isConst x"
proof -
  obtain c where c: "v l = ConstantExpr c" using assms(1) by (auto simp: isConst_asConst)
  have "v l \<noteq> l \<or> v r \<noteq> r" using assms by auto
  with c assms(2,3) show ?thesis
    by (auto simp: protectedDivOperation_def Let_def Binary_create_const)
qed

lemma EE_visitExpr_const:
  assumes "\<not> isConst e" "\<not> opaque_const e" "EE_visitExpr e = ChangeTo x"
  shows "isConst x"
proof -
  from assms(1,3) have "\<not> isRead e" "list_all isConst (kids e)" "x = rebuild e (kids e)"
    by (auto simp: EE_visitExpr_def split: if_splits)
  with assms(1,2) rebuild_const [of e "kids e"] show ?thesis by (cases e) auto
qed

lemma EE_visitExpr_cases:
  assumes "\<not> isConst e"
  shows "(\<exists>x. EE_visitExpr e = ChangeTo x) \<or>
    EE_visitExpr e = DoChildren \<and> (isRead e \<or> (\<exists>x\<in>set (kids e). \<not> isConst x))"
  using assms by (cases e) (auto simp: EE_visitExpr_def getNumKids_def list_all_iff)

lemma div_safeU_all: "div_safeU \<rho> us \<longleftrightarrow> (\<forall>x\<in>set (upd_exprs us). div_safe \<rho> x)"
  by (induction us rule: updates_induct) auto

lemma EE_kind_const:
  assumes "wt e" "div_safe \<rho> e" "\<not> isConst e" "isRead e \<or> (\<exists>x\<in>set (kids e). \<not> isConst x)"
    and "\<And>x. x \<in> set (inner e) \<Longrightarrow> isConst (v x)" "\<And>x. x \<in> set (inner e) \<Longrightarrow> refines_at \<rho> (v x) x"
    and "known_cells \<rho> g e" "narrow e"
  shows "(\<exists>x. EE_visitKind v g e = ChangeTo x \<and> isConst x) \<or> EE_visitKind v g e = DoChildren \<and> \<not> isRead e"
proof (cases e)
  case (ReadExpr root us i)
  then obtain c where c: "v i = ConstantExpr c" using assms(5) [of i] by (auto simp: isConst_asConst)
  have "div_safe \<rho> i" using assms(2) ReadExpr by simp
  then have "uval c = eval \<rho> i" using assms(6) [of i] ReadExpr c by (auto simp: refines_at_def)
  then have "isConstantArray root \<and> nat (uval c) < arr_size root \<or> isConst (g root (nat (uval c)))"
    using assms(7) [unfolded known_cells_def, THEN all_sub_self] ReadExpr by simp
  then have "isConst (evalRead v g root (nat (uval c)) us)" using assms(5) ReadExpr by (intro evalRead_const) auto
  moreover have "take_bit 32 (uval c) = uval c"
  proof (rule take_bit_wider)
    show "take_bit (arr_domain root) (uval c) = uval c"
      using eval_range(1) [of i \<rho>] assms(1) ReadExpr \<open>uval c = eval \<rho> i\<close> by simp
    show "arr_domain root \<le> 32" using assms(8) ReadExpr narrow_Read by simp
  qed
  ultimately show ?thesis using ReadExpr c by (simp add: getZExtValue_def)
next
  case (BinaryExpr k l r)
  then obtain d where d: "v r = ConstantExpr d" using assms(5) [of r] by (auto simp: isConst_asConst)
  show ?thesis
  proof (cases "isDiv k")
    case True
    then have "\<not> isZero d"
      using assms(2) assms(6) [of r] BinaryExpr d by (auto simp: refines_at_def isZero_def)
    then show ?thesis
      using protectedDiv_const [of v l r d k] assms(4) assms(5) [of l] d True BinaryExpr by auto
  qed (use BinaryExpr in simp)
qed (use assms(3) in auto)

lemma ExprEvaluator_const:
  assumes "initial_sound \<rho> g"
  shows "wt e \<Longrightarrow> narrow e \<Longrightarrow> foldable e \<Longrightarrow> div_safe \<rho> e \<Longrightarrow> known_cells \<rho> g e \<Longrightarrow> isConst (ExprEvaluator_visit g e)"
proof (induction e rule: expr_size_induct)
  case (smaller e)
  let ?v = "ExprEvaluator_visit g"
  have safe: "div_safe \<rho> x" if "x \<in> set (inner e)" for x
    using smaller.prems(4) that by (cases e) (auto simp: div_safeU_all)
  have IH: "isConst (?v x)" if "x \<in> set (inner e)" for x
    using smaller.prems that
    by (intro smaller.IH) (auto simp: inner_size safe known_cells_def intro: wt_inner narrow_inner foldable_inner all_sub_inner)
  have sound: "refines_at \<rho> (?v x) x" if "x \<in> set (inner e)" for x
    using that smaller.prems ExprEvaluator_sound [OF assms] by (auto intro: wt_inner narrow_inner)
  have opaque: "\<not> opaque_const e" using smaller.prems(3) unfolding foldable_def by (rule all_sub_self)
  show ?case
  proof (cases "isConst e \<or> (\<exists>x. EE_visitExpr e = ChangeTo x)")
    case True
    then show ?thesis
      using EE_visitExpr_const opaque by (auto simp: ExprEvaluator_visit.simps [of g e] visitActual_def)
  next
    case False
    with EE_visitExpr_cases [of e] have nc: "\<not> isConst e" "EE_visitExpr e = DoChildren"
      "isRead e \<or> (\<exists>x\<in>set (kids e). \<not> isConst x)" by auto
    have "?v e = (case EE_visitKind ?v g e of DoChildren \<Rightarrow> visitChildren EE_visitExprPost (\<lambda>x. x) (map ?v (kids e)) e
        | SkipChildren \<Rightarrow> e | ChangeTo x \<Rightarrow> x)"
      using nc by (subst ExprEvaluator_visit.simps) (simp add: visitActual_def)
    moreover have "(\<exists>x. EE_visitKind ?v g e = ChangeTo x \<and> isConst x) \<or> EE_visitKind ?v g e = DoChildren \<and> \<not> isRead e"
      using smaller.prems(1,4) nc(1,3) IH sound smaller.prems(5,2) by (rule EE_kind_const)
    moreover have "isConst (visitChildren EE_visitExprPost (\<lambda>x. x) (map ?v (kids e)) e)" if "\<not> isRead e"
      using that nc IH kids_inner [of e] by (intro visitChildren_const) auto
    ultimately show ?thesis by auto
  qed
qed

subsection \<open>Environments of an assignment\<close>

text \<open>An environment extends an assignment when it has the bound bytes, and zeros elsewhere unless values are free.\<close>

definition bound_byte :: "assignment \<Rightarrow> array \<Rightarrow> nat \<Rightarrow> int option" where
  "bound_byte a arr i =
     (case bindings a arr of
        Some bytes \<Rightarrow> if i < length bytes then Some (uint (bytes ! i)) else if allowFreeValues a then None else Some 0
      | None \<Rightarrow> if allowFreeValues a then None else Some 0)"

definition conforms :: "env \<Rightarrow> assignment \<Rightarrow> bool" where
  "conforms \<rho> a \<longleftrightarrow> (\<forall>arr i v. bound_byte a arr i = Some v \<longrightarrow>
      take_bit (arr_range arr) (\<rho> arr i) = take_bit (arr_range arr) v)"

definition env_of :: "assignment \<Rightarrow> env" where
  "env_of a arr i = (case bound_byte a arr i of Some v \<Rightarrow> v | None \<Rightarrow> 0)"

lemma conforms_env_of [simp]: "conforms (env_of a) a"
  by (simp add: conforms_def env_of_def)

lemma evaluate_cell_bound_byte:
  "evaluate_cell a arr i = (case bound_byte a arr i of
     Some v \<Rightarrow> ConstantExpr (mkAPInt (arr_range arr) v)
   | None \<Rightarrow> Read_create arr NullNode (ConstantExpr (mkAPInt (arr_domain arr) (int i))))"
  by (simp add: evaluate_cell_def bound_byte_def split: option.split)

lemma evaluate_cell_sound: "conforms \<rho> a \<Longrightarrow> initial_sound \<rho> (evaluate_cell a)"
  unfolding initial_sound_def
proof (intro allI impI)
  fix root index
  assume a: "conforms \<rho> a" and ok: "array_ok root" and index: "int index < 2 ^ arr_domain root"
    and outside: "\<not> (isConstantArray root \<and> index < arr_size root)"
  let ?c = "ConstantExpr (mkAPInt (arr_domain root) (int index))"
  have init: "initial_value \<rho> root index = take_bit (arr_range root) (\<rho> root index)"
    using outside by (simp only: initial_value_def if_False)
  show "wt (evaluate_cell a root index) \<and> getWidth (evaluate_cell a root index) = arr_range root \<and>
      div_safe \<rho> (evaluate_cell a root index) \<and> eval \<rho> (evaluate_cell a root index) = initial_value \<rho> root index"
  proof (cases "bound_byte a root index")
    case None
    have "wt (ReadExpr root NullNode ?c)" using ok by (simp add: array_ok_def)
    from Read_create_equiv [OF this] None index show ?thesis
      by (simp add: evaluate_cell_bound_byte expr_equiv_def take_bit_id)
  next
    case (Some v)
    with a init ok show ?thesis by (simp add: evaluate_cell_bound_byte conforms_def array_ok_def)
  qed
qed

lemma evaluate_refines: "conforms \<rho> a \<Longrightarrow> wt e \<Longrightarrow> narrow e \<Longrightarrow> refines_at \<rho> (evaluate a e) e"
  unfolding evaluate_def by (rule ExprEvaluator_sound) (rule evaluate_cell_sound)

text \<open>Evaluation folds to the constant of the value when every cell that is read is bound.\<close>

lemma evaluate_known_value:
  assumes "wt e" "narrow e" "foldable e" "div_safe (env_of a) e" "known_cells (env_of a) (evaluate_cell a) e"
  shows "evaluate a e = ConstantExpr (mkAPInt (getWidth e) (eval (env_of a) e))"
proof -
  from assms have "isConst (evaluate a e)"
    unfolding evaluate_def by (intro ExprEvaluator_const [OF evaluate_cell_sound]) auto
  then obtain c where c: "evaluate a e = ConstantExpr c" by (auto simp: isConst_asConst)
  with evaluate_refines [OF conforms_env_of [of a] assms(1,2)] assms(4)
  have "apint_ok c" "getBitWidth c = getWidth e" "uval c = eval (env_of a) e" by (auto simp: refines_at_def)
  with apint_okD(4) [of c] show ?thesis using c by (cases c) (simp add: mkAPInt_def)
qed

lemma evaluate_constant_value:
  assumes "\<not> allowFreeValues a" "wt e" "narrow e" "foldable e" "div_safe (env_of a) e"
  shows "evaluate a e = ConstantExpr (mkAPInt (getWidth e) (eval (env_of a) e))"
proof -
  have "isConst (evaluate_cell a root index)" for root index
    using assms(1) by (simp add: evaluate_cell_def split: option.split)
  then have "known_cells (env_of a) (evaluate_cell a) e"
    unfolding known_cells_def by (intro all_sub_always) (auto split: option.split)
  with assms(2-5) show ?thesis by (rule evaluate_known_value)
qed

subsection \<open>Constraints from an assignment\<close>

text \<open>
  \<open>createConstraintsFromAssignment\<close> over the bindings in the order the map iterates them. Reading
  past the bound bytes is undefined behaviour in the code, so no statement allows it.
\<close>

definition cell_constraint :: "array \<Rightarrow> 8 word list \<Rightarrow> nat \<Rightarrow> expr" where
  "cell_constraint array values arrayIndex =
     Eq_create (Read_create array NullNode (ConstantExpr (mkAPInt (arr_domain array) (int arrayIndex))))
       (ConstantExpr (mkAPInt (arr_range array) (uint (values ! arrayIndex))))"

definition createConstraintsFromAssignment :: "(array \<times> 8 word list) list \<Rightarrow> expr list" where
  "createConstraintsFromAssignment bs =
     concat (map (\<lambda>(array, values). map (cell_constraint array values) [0..<arr_size array]) bs)"

lemma cell_constraint_sound:
  assumes "array_ok arr" "int i < 2 ^ arr_domain arr"
  shows "wt (cell_constraint arr bytes i) \<and> getWidth (cell_constraint arr bytes i) = Bool \<and>
    (eval \<rho> (cell_constraint arr bytes i) = 1 \<longleftrightarrow>
       initial_value \<rho> arr i = take_bit (arr_range arr) (uint (bytes ! i)))"
proof -
  let ?c = "ConstantExpr (mkAPInt (arr_domain arr) (int i))"
  let ?rd = "Read_create arr NullNode ?c" and ?v = "ConstantExpr (mkAPInt (arr_range arr) (uint (bytes ! i)))"
  have "wt (ReadExpr arr NullNode ?c)" "wt ?v" using assms(1) by (simp_all add: array_ok_def)
  with Read_create_equiv [of arr NullNode ?c] have rd: "expr_equiv ?rd (ReadExpr arr NullNode ?c)" by simp
  from expr_equivD(1,2) [OF rd] have "expr_equiv (Eq_create ?rd ?v) (BinaryExpr Eq ?rd ?v)"
    using \<open>wt ?v\<close> by (intro Eq_create_equiv) simp_all
  with rd assms(2) show ?thesis
    by (simp add: expr_equiv_def cell_constraint_def take_bit_id isCmp_def)
qed

subsection \<open>Properties\<close>

text \<open>
  C4: evaluating an expression under an assignment, with or without free values, returns a
  well-typed expression of the same width that has the expression's value in every environment
  that extends the assignment, and divides by zero there only if the expression does.
\<close>

theorem evaluate_sound:
  assumes "wt e" "narrow e" "conforms \<rho> a"
  shows "wt (evaluate a e) \<and> getWidth (evaluate a e) = getWidth e \<and> eval \<rho> (evaluate a e) = eval \<rho> e \<and>
    (div_safe \<rho> e \<longrightarrow> div_safe \<rho> (evaluate a e))"
  using evaluate_refines [OF assms(3,1,2)] by (simp add: refines_at_def)

definition sample_assignment :: assignment where
  "sample_assignment = Assignment [(sample_array, [3, 250])] False"

lemma sample_narrow:
  "i < 4 \<Longrightarrow> narrow (sample_read i)" "narrow (const8 v)" "foldable (sample_read i)" "foldable (const8 v)"
  by (simp_all add: narrow_def foldable_def all_sub_nodes sample_read_def sample_index_def const8_def)

theorem evaluate_sound_witness:
  "wt (sample_read 0) \<and> narrow (sample_read 0) \<and>
   conforms (env_of sample_assignment) sample_assignment \<and>
   eval (env_of sample_assignment) (evaluate sample_assignment (sample_read 0)) =
     eval (env_of sample_assignment) (sample_read 0)"
  using evaluate_sound [of "sample_read 0" "env_of sample_assignment" sample_assignment]
  by (simp add: sample_narrow)

text \<open>
  Without free values the evaluation of a division-safe expression is the constant of the
  expression's width and of its value under the assignment (with zeros for unbound bytes), for
  expressions in which no \<open>NotOptimizedExpr\<close> wraps a constant.
\<close>

theorem evaluate_constant:
  assumes "\<not> allowFreeValues a" "wt e" "narrow e" "foldable e" "div_safe (env_of a) e"
  shows "evaluate a e = ConstantExpr (mkAPInt (getWidth e) (eval (env_of a) e))"
  using assms by (rule evaluate_constant_value)

theorem evaluate_constant_witness:
  "foldable (BinaryExpr Add (sample_read 0) (sample_read 1)) \<and>
   evaluate sample_assignment (BinaryExpr Add (sample_read 0) (sample_read 1)) = const8 253"
proof -
  let ?e = "BinaryExpr Add (sample_read 0) (sample_read 1)"
  have f: "foldable ?e" "narrow ?e" using sample_narrow(1) [of 0] sample_narrow(1) [of 1] sample_narrow(3)
    by (simp_all add: narrow_def foldable_def all_sub_nodes)
  moreover have "eval (env_of sample_assignment) ?e = 253"
    by (simp add: sample_read_def sample_index_def sample_assignment_def Assignment_def env_of_def bound_byte_def
        initial_value_def isConstantArray_def isSymbolicArray_def sample_array_def One_nat_def)
  moreover have "\<not> allowFreeValues sample_assignment" by (simp add: sample_assignment_def Assignment_def)
  ultimately show ?thesis
    using evaluate_constant [of sample_assignment ?e] by (simp add: isDiv_def isCmp_def const8_def)
qed

text \<open>
  \<open>Assignment::satisfies\<close> decides whether every constraint of the list is true under the assignment.
\<close>

theorem satisfies_correct:
  assumes "\<not> allowFreeValues a"
    and "list_all (\<lambda>e. wt e \<and> getWidth e = Bool \<and> narrow e \<and> foldable e \<and> div_safe (env_of a) e) es"
  shows "satisfies a es \<longleftrightarrow> (\<forall>e\<in>set es. eval (env_of a) e = 1)"
  using assms(2)
proof (induction es)
  case (Cons e es)
  with assms(1) have "evaluate a e = ConstantExpr (mkAPInt Bool (eval (env_of a) e))"
    using evaluate_constant_value [of a e] by simp
  moreover have "eval (env_of a) e = 0 \<or> eval (env_of a) e = 1" using Cons.prems by (simp add: eval_bool_cases)
  ultimately show ?case using Cons by (auto simp: isTrue_def)
qed simp

theorem satisfies_correct_witness:
  "satisfies sample_assignment [BinaryExpr Ult (sample_read 0) (sample_read 1)]"
proof -
  let ?e = "BinaryExpr Ult (sample_read 0) (sample_read 1)"
  have "foldable ?e" "narrow ?e" using sample_narrow(1) [of 0] sample_narrow(1) [of 1] sample_narrow(3)
    by (simp_all add: narrow_def foldable_def all_sub_nodes)
  moreover have "eval (env_of sample_assignment) ?e = 1"
    by (simp add: sample_read_def sample_index_def sample_assignment_def Assignment_def env_of_def bound_byte_def
        initial_value_def isConstantArray_def isSymbolicArray_def sample_array_def One_nat_def)
  moreover have "\<not> allowFreeValues sample_assignment" by (simp add: sample_assignment_def Assignment_def)
  ultimately show ?thesis
    using satisfies_correct [of sample_assignment "[?e]"] by (simp add: isDiv_def isCmp_def)
qed

text \<open>
  The constraints made from an assignment hold in an environment exactly when every bound
  array starts with the bound bytes there.
\<close>

theorem createConstraintsFromAssignment_correct:
  assumes "list_all (\<lambda>(arr, bytes). array_ok arr \<and> arr_size arr \<le> 2 ^ arr_domain arr \<and> arr_size arr \<le> length bytes) bs"
  shows "(\<forall>c\<in>set (createConstraintsFromAssignment bs). eval \<rho> c = 1) \<longleftrightarrow>
    (\<forall>(arr, bytes)\<in>set bs. \<forall>i<arr_size arr. initial_value \<rho> arr i = take_bit (arr_range arr) (uint (bytes ! i)))"
proof -
  have "eval \<rho> (cell_constraint arr bytes i) = 1 \<longleftrightarrow> initial_value \<rho> arr i = take_bit (arr_range arr) (uint (bytes ! i))"
    if "(arr, bytes) \<in> set bs" "i < arr_size arr" for arr bytes i
  proof -
    from assms that have ok: "array_ok arr" and "i < 2 ^ arr_domain arr" by (auto simp: list_all_iff)
    then have "int i < 2 ^ arr_domain arr" by simp
    with ok show ?thesis using cell_constraint_sound [of arr i bytes \<rho>] by blast
  qed
  then show ?thesis unfolding createConstraintsFromAssignment_def by fastforce
qed

theorem createConstraintsFromAssignment_correct_witness:
  "(\<forall>c\<in>set (createConstraintsFromAssignment [(sample_array, [1, 2, 3, 4])]). eval (\<lambda>_ i. int i + 1) c = 1) \<longleftrightarrow>
   (\<forall>(arr, bytes)\<in>set [(sample_array, [1, 2, 3, 4])]. \<forall>i<arr_size arr.
      initial_value (\<lambda>_ i. int i + 1) arr i = take_bit (arr_range arr) (uint ((bytes ! i) :: 8 word)))"
  by (rule createConstraintsFromAssignment_correct) (simp add: sample_array_def array_ok_def isSymbolicArray_def)

text \<open>
  C5: a \<open>NotOptimizedExpr\<close> around a constant survives evaluation, although the comment of
  \<open>ExprEvaluator::visitExprPost\<close> says that such nodes are folded so that evaluation is complete: the
  all-constant shortcut of \<open>visitExpr\<close> rebuilds the node and returns it before the post hook runs.
  Hence a satisfied constraint of this shape is reported as not satisfied.
\<close>

theorem evaluate_opaque_constant:
  "evaluate a (NotOptimizedExpr (ConstantExpr c)) = NotOptimizedExpr (ConstantExpr c) \<and>
   \<not> satisfies a [NotOptimizedExpr (ConstantExpr (mkAPInt Bool 1))]"
proof -
  have opaque: "evaluate a (NotOptimizedExpr (ConstantExpr c)) = NotOptimizedExpr (ConstantExpr c)" for c
    by (subst evaluate_def, subst ExprEvaluator_visit.simps)
      (simp add: visitActual_def EE_visitExpr_def getNumKids_def NotOptimized_create_def)
  then show ?thesis by simp
qed

end
