(* ===== verification/ExprWeight.thy ===== *)
theory ExprWeight
  imports ExprEval
begin

text \<open>
  A measure that the constructors never increase: the weight of an expression counts its reads and
  opaque nodes, and is at least one for everything but a constant. Replacing a subexpression
  by a constant therefore makes the weight smaller, which is why the rewriting of constraints
  ends.
\<close>

primrec weight :: "expr \<Rightarrow> nat" and weightU :: "updates \<Rightarrow> nat" where
  "weight (ConstantExpr c) = 0"
| "weight (NotOptimizedExpr e) = 1 + weight e"
| "weight (ReadExpr a us i) = 1 + weightU us + weight i"
| "weight (SelectExpr c t f) = max 1 (weight c + weight t + weight f)"
| "weight (ConcatExpr l r) = max 1 (weight l + weight r)"
| "weight (ExtractExpr e off w) = max 1 (weight e)"
| "weight (NotExpr e) = max 1 (weight e)"
| "weight (ZExtExpr e w) = max 1 (weight e)"
| "weight (SExtExpr e w) = max 1 (weight e)"
| "weight (BinaryExpr k l r) = max 1 (weight l + weight r)"
| "weightU NullNode = 0"
| "weightU (UpdateNode i v n) = weight i + weight v + weightU n"

lemma weight_0 [simp]: "weight e = 0 \<longleftrightarrow> isConst e"
  by (cases e) auto

lemma weight_pos: "\<not> isConst e \<Longrightarrow> 1 \<le> weight e"
  using weight_0 [of e] by (metis One_nat_def Suc_leI neq0_conv)

lemma asConst_None [simp]: "asConst e = None \<longleftrightarrow> \<not> isConst e"
  by (cases e) auto

lemma weight_asConst: "asConst e = Some c \<Longrightarrow> weight e = 0"
  by simp

lemma BCREATE_R_weight:
  assumes "\<And>c. weight (pl l c) \<le> max 1 (weight l)"
    and "\<And>c. weight (pr c r) \<le> max 1 (weight r)"
    and "weight (cr l r) \<le> max 1 (weight l + weight r)"
  shows "weight (BCREATE_R k pl pr cr l r) \<le> weight l + weight r"
    and "weight (CMPCREATE_T k pl pr cr l r) \<le> weight l + weight r"
  using assms weight_pos [of l] weight_pos [of r]
  by (force simp: BCREATE_R_def CMPCREATE_T_def isConst_asConst split: option.split)+

lemma BCREATE_weight:
  assumes "weight (cr l r) \<le> max 1 (weight l + weight r)"
  shows "weight (BCREATE k cr l r) \<le> weight l + weight r"
    and "weight (CMPCREATE k cr l r) \<le> weight l + weight r"
  using assms weight_pos [of l] weight_pos [of r]
  by (force simp: BCREATE_def CMPCREATE_def isConst_asConst split: option.split)+

subsection \<open>Binary classes\<close>

lemma And_create_weight: "weight (And_create l r) \<le> weight l + weight r"
  unfolding And_create_def
  by (rule BCREATE_R_weight) (auto simp: AndExpr_createPartial_def AndExpr_createPartialR_def AndExpr_create_def)

lemma Or_create_weight: "weight (Or_create l r) \<le> weight l + weight r"
  unfolding Or_create_def
  by (rule BCREATE_R_weight) (auto simp: OrExpr_createPartial_def OrExpr_createPartialR_def OrExpr_create_def)

lemma EqExpr_create_weight: "weight (EqExpr_create l r) \<le> max 1 (weight l + weight r)"
  by (simp add: EqExpr_create_def)

lemma Eq_createC_weight:
  "weight (EqExpr_createPartialR c e) \<le> max 1 (weight e) \<Longrightarrow> weight (Eq_createC e c) \<le> weight e"
  using weight_pos [of e] by (subst Eq_createC.simps) (auto simp: isConst_asConst split: option.split)

lemma Eq_partialR_weight: "weight (EqExpr_createPartialR cl r) \<le> max 1 (weight r)"
proof (induction r arbitrary: cl rule: expr_size_induct)
  case (smaller r)
  have dflt: "weight (EqExpr_create (ConstantExpr cl) r) \<le> max 1 (weight r)"
    using EqExpr_create_weight [of "ConstantExpr cl" r] by simp
  have IH: "weight (Eq_createC x c) \<le> max 1 (weight x)" "weight (Eq_createC x c) \<le> weight x" if "size x < size r" for x c
    using smaller [OF that, of c] Eq_createC_weight [of c x] by simp_all
  have or: "weight (And_create (Eq_createC x c) (Eq_createC y d)) \<le> max 1 (weight x + weight y)"
    if "size x < size r" "size y < size r" for x y c d
    using And_create_weight [of "Eq_createC x c" "Eq_createC y d"] IH(2) [OF that(1), of c] IH(2) [OF that(2), of d] by simp
  show ?case
    using smaller dflt IH(1) or
    by (subst EqExpr_createPartialR.simps)
      (auto simp: ConstArrayOpt_def Let_def split: option.splits prod.splits)
qed

lemmas Eq_partial_weight = Eq_partialR_weight Eq_createC_weight [OF Eq_partialR_weight]

lemma Eq_create_weight: "weight (Eq_create l r) \<le> weight l + weight r"
  unfolding Eq_create_def
  by (rule BCREATE_R_weight) (simp_all add: EqExpr_createPartial_def Eq_partial_weight EqExpr_create_weight)

lemma Xor_create_weight: "weight (Xor_create l r) \<le> weight l + weight r"
proof -
  have pr: "weight (XorExpr_createPartialR c x) \<le> max 1 (weight x)" for c x
    by (auto simp: XorExpr_createPartialR_def EqExpr_createPartial_def intro: Eq_partialR_weight)
  show ?thesis
    unfolding Xor_create_def
    by (rule BCREATE_R_weight) (simp_all add: pr XorExpr_createPartial_def XorExpr_create_def)
qed

lemma XorR_weight: "weight (XorExpr_createPartialR c x) \<le> max 1 (weight x)"
  by (auto simp: XorExpr_createPartialR_def EqExpr_createPartial_def intro: Eq_partialR_weight)

text \<open>Sums and differences with a constant operand, then in general.\<close>

lemma AddSub_partialR_weight:
  "weight (AddExpr_createPartialR cl r) \<le> max 1 (weight r) \<and> weight (SubExpr_createPartialR cl r) \<le> max 1 (weight r)"
proof (induction r arbitrary: cl rule: expr_size_induct)
  case (smaller r)
  have IH: "weight (Add_createC c x) \<le> max 1 (weight x)" "weight (Sub_createC c x) \<le> max 1 (weight x)"
    if "size x < size r" for x c
    using smaller [OF that, of c] by (auto simp: Add_createC.simps Sub_createC.simps split: option.split)
  show ?case
    using smaller IH XorR_weight
    by (auto simp: AddExpr_createPartialR.simps [of cl r] SubExpr_createPartialR.simps [of cl r]
        split: option.splits prod.splits)
qed

lemma AddSub_createC_weight:
  "weight (Add_createC c x) \<le> weight x" "weight (Sub_createC c x) \<le> weight x" "weight (Sub_createRC x c) \<le> weight x"
  using AddSub_partialR_weight [of c x] AddSub_partialR_weight [of "CE_Sub (mkAPInt (getBitWidth c) 0) c" x] weight_pos [of x]
  by (auto simp: Add_createC.simps Sub_createC.simps Sub_createRC_def SubExpr_createPartial_def
      AddExpr_createPartial_def isConst_asConst split: option.split)

lemma AddSub_create_weight:
  "weight (Add_create l r) \<le> weight l + weight r \<and> weight (Sub_create l r) \<le> weight l + weight r"
proof (induction "size l + size r" arbitrary: l r rule: less_induct)
  case less
  have IH: "weight (Add_createC c (Add_create x y)) \<le> n" "weight (Add_createC c (Sub_create x y)) \<le> n"
    "weight (Sub_createC c (Add_create x y)) \<le> n" "weight (Sub_createRC (Add_create x y) c) \<le> n"
    "weight (Sub_createRC (Sub_create x y) c) \<le> n"
    if "size x + size y < size l + size r" "weight x + weight y \<le> n" for c x y n
    using less [OF that(1)] that(2)
    by (auto intro: order_trans [OF AddSub_createC_weight(1)] order_trans [OF AddSub_createC_weight(2)]
        order_trans [OF AddSub_createC_weight(3)])
  have stat: "weight (AddExpr_create l r) \<le> max 1 (weight l + weight r)"
    "weight (SubExpr_create l r) \<le> max 1 (weight l + weight r)"
    by (auto simp: AddExpr_create.simps [of l r] SubExpr_create.simps [of l r] XorExpr_create_def
        intro!: IH split: option.split prod.split)
  have partial: "weight (AddExpr_createPartial x c) \<le> max 1 (weight x)" "weight (SubExpr_createPartial x c) \<le> max 1 (weight x)"
    for x c using AddSub_partialR_weight by (simp_all add: AddExpr_createPartial_def SubExpr_createPartial_def)
  show ?case
    unfolding Add_create_source Sub_create_source
    by (intro conjI BCREATE_R_weight) (use stat partial AddSub_partialR_weight in simp_all)
qed

lemma Mul_create_weight: "weight (Mul_create l r) \<le> weight l + weight r"
proof -
  have pr: "weight (MulExpr_createPartialR c x) \<le> max 1 (weight x)" for c x
    by (simp add: MulExpr_createPartialR_def AndExpr_createPartialR_def AndExpr_createPartial_def)
  show ?thesis
    unfolding Mul_create_def
    by (rule BCREATE_R_weight) (simp_all add: pr MulExpr_createPartial_def MulExpr_create_def)
qed

lemma createIsZero_weight: "weight (createIsZero e) \<le> weight e"
  using Eq_create_weight [of e "ConstantExpr (mkAPInt (getWidth e) 0)"] by (simp add: createIsZero_def)

lemma bool_node_weight:
  "weight (And_create l (createIsZero r)) \<le> max 1 (weight l + weight r)"
  "weight (And_create (createIsZero l) r) \<le> max 1 (weight l + weight r)"
  "weight (Or_create l (createIsZero r)) \<le> max 1 (weight l + weight r)"
  "weight (Or_create (createIsZero l) r) \<le> max 1 (weight l + weight r)"
  using And_create_weight [of l "createIsZero r"] And_create_weight [of "createIsZero l" r]
    Or_create_weight [of l "createIsZero r"] Or_create_weight [of "createIsZero l" r]
    createIsZero_weight [of l] createIsZero_weight [of r] by simp_all

lemma division_shift_weight:
  "weight (UDiv_create l r) \<le> weight l + weight r" "weight (SDiv_create l r) \<le> weight l + weight r"
  "weight (URem_create l r) \<le> weight l + weight r" "weight (SRem_create l r) \<le> weight l + weight r"
  "weight (Shl_create l r) \<le> weight l + weight r" "weight (LShr_create l r) \<le> weight l + weight r"
  "weight (AShr_create l r) \<le> weight l + weight r"
  unfolding UDiv_create_def SDiv_create_def URem_create_def SRem_create_def Shl_create_def LShr_create_def AShr_create_def
  by (rule BCREATE_weight, auto simp: UDivExpr_create_def SDivExpr_create_def URemExpr_create_def SRemExpr_create_def
      ShlExpr_create_def LShrExpr_create_def AShrExpr_create_def bool_node_weight)+

lemma comparison_weight:
  "weight (Ult_create l r) \<le> weight l + weight r" "weight (Ule_create l r) \<le> weight l + weight r"
  "weight (Slt_create l r) \<le> weight l + weight r" "weight (Sle_create l r) \<le> weight l + weight r"
  unfolding Ult_create_def Ule_create_def Slt_create_def Sle_create_def
  by (rule BCREATE_weight, simp add: UltExpr_create_def UleExpr_create_def SltExpr_create_def SleExpr_create_def
      bool_node_weight)+

lemma Ne_create_weight: "weight (Ne_create l r) \<le> weight l + weight r"
  using Eq_create_weight [of l r] Eq_create_weight [of "ConstantExpr (mkAPInt Bool 0)" "Eq_create l r"]
  by (simp add: Ne_create_def)

lemma Binary_create_weight: "weight (Binary_create k l r) \<le> weight l + weight r"
  using AddSub_create_weight [of l r] comparison_weight [of r l]
  by (cases k) (simp_all add: Mul_create_weight And_create_weight Or_create_weight Xor_create_weight
      Eq_create_weight Ne_create_weight division_shift_weight comparison_weight
      Ugt_create_def Uge_create_def Sgt_create_def Sge_create_def add.commute)

subsection \<open>The other classes\<close>

lemma Concat_Extract_weight:
  "weight (Concat_create l r) \<le> weight l + weight r"
  "weight (Extract_create e off w) \<le> weight e"
proof (induction l r and e off w rule: Concat_create_Extract_create.induct)
  case (1 l r)
  then show ?case
    using weight_pos [of l] weight_pos [of r]
    by (subst Concat_create.simps) (force simp: isConst_asConst split: option.split)
next
  case (2 e off w)
  show ?case
  proof (cases e)
    case (ConcatExpr l r)
    note IH = "2.IH" [of "(l, r)" l r]
    consider (whole) "w = getWidth e" | (left) "w \<noteq> getWidth e" "getWidth r \<le> off"
      | (right) "w \<noteq> getWidth e" "\<not> getWidth r \<le> off" "off + w \<le> getWidth r"
      | (both) "w \<noteq> getWidth e" "\<not> getWidth r \<le> off" "\<not> off + w \<le> getWidth r" by blast
    then show ?thesis
    proof cases
      case whole
      then show ?thesis by (subst Extract_create.simps) simp
    next
      case left
      with IH(1) ConcatExpr have "weight (Extract_create l (off - getWidth r) w) \<le> weight l" by simp
      with left ConcatExpr show ?thesis by (subst Extract_create.simps) simp
    next
      case right
      with IH(2) ConcatExpr have "weight (Extract_create r off w) \<le> weight r" by simp
      with right ConcatExpr show ?thesis by (subst Extract_create.simps) simp
    next
      case both
      with IH(3-5) ConcatExpr have "weight (Concat_create (Extract_create l 0 (w + off - getWidth r))
        (Extract_create r off (getWidth r - off))) \<le> weight l + weight r" by simp
      with both ConcatExpr show ?thesis by (subst Extract_create.simps) simp
    qed
  qed (subst Extract_create.simps; simp)+
qed

lemma Ext_weight: "weight (ZExt_create e w) \<le> weight e" "weight (SExt_create e w) \<le> weight e"
  using weight_pos [of e] Concat_Extract_weight(2) [of e 0 w]
  by (auto simp: ZExt_create_def SExt_create_def isConst_asConst split: option.split)

lemma Select_create_weight: "weight (Select_create c t f) \<le> weight c + weight t + weight f"
  using And_create_weight [of c t] Or_create_weight [of c f] And_create_weight [of "createIsZero c" f]
    Or_create_weight [of "createIsZero c" t] createIsZero_weight [of c] weight_pos [of c]
  by (auto simp: Select_create_def isConst_asConst split: option.split)

lemma read_scan_weight:
  "read_scan index us = Found v \<Longrightarrow> weight v \<le> weightU us"
  "read_scan index us = s \<Longrightarrow> weightU (read_rest s) \<le> weightU us"
  by (induction us rule: updates_induct) (auto simp: read_rest_def split: option.splits if_splits scan.splits)

lemma Read_create_weight: "weight (Read_create a us i) \<le> 1 + weightU us + weight i"
  using read_scan_weight [of i us] by (auto simp: Read_create_def split: scan.split option.split)

text \<open>What a node weighs beyond its kids.\<close>

fun own_weight :: "expr \<Rightarrow> nat" where
  "own_weight (NotOptimizedExpr e) = 1"
| "own_weight (ReadExpr a us i) = 1 + weightU us"
| "own_weight _ = 0"

lemma weight_kids: "own_weight e + sum_list (map weight (kids e)) \<le> weight e"
  by (cases e) auto

lemma rebuild_weight:
  assumes "\<not> isConst e" "length ks = length (kids e)"
  shows "weight (rebuild e ks) \<le> own_weight e + sum_list (map weight ks)"
proof -
  have not: "weight (Not_create x) \<le> weight x" for x
    using weight_pos [of x] by (auto simp: Not_create_def isConst_asConst split: option.split)
  have sel: "weight (Select_create x y z) \<le> weight x + (weight y + weight z)" for x y z
    using Select_create_weight [of x y z] by simp
  show ?thesis
    using assms
    by (cases e) (auto simp: length_Suc_conv NotOptimized_create_def Ext_weight Concat_Extract_weight
        Binary_create_weight not sel Read_create_weight [simplified])
qed

end
