(* ===== verification/Constraints.thy ===== *)
theory Constraints
  imports ExprWeight
begin

text \<open>
  The constraint manager of \<open>klee/lib/Expr/Constraints.cpp\<close>: the two replacing visitors, the
  simplification of an expression by the known equalities, and the addition of a constraint
  with the rewriting of the constraints that are already there.
\<close>

subsection \<open>The replacing visitors\<close>

definition ReplaceVisitor_hook :: "expr \<Rightarrow> expr \<Rightarrow> expr \<Rightarrow> action" where
  "ReplaceVisitor_hook src dst e = (if e = src then ChangeTo dst else DoChildren)"

function ExprReplaceVisitor_visit :: "expr \<Rightarrow> expr \<Rightarrow> expr \<Rightarrow> expr" where
  "ExprReplaceVisitor_visit src dst e =
     visitActual (ReplaceVisitor_hook src dst) (\<lambda>_. DoChildren) (ReplaceVisitor_hook src dst)
       (\<lambda>x. x) (map (ExprReplaceVisitor_visit src dst) (kids e)) e"
  by pat_completeness auto
termination
  by (relation "measure (\<lambda>(src, dst, e). size e)") (use inner_size kids_inner in \<open>fastforce+\<close>)

definition ReplaceVisitor2_post :: "(expr \<rightharpoonup> apint) \<Rightarrow> expr \<Rightarrow> action" where
  "ReplaceVisitor2_post replacements e =
     (case replacements e of Some c \<Rightarrow> ChangeTo (ConstantExpr c) | None \<Rightarrow> DoChildren)"

text \<open>The second visitor is recursive: it visits what it has rebuilt.\<close>

function (domintros) ExprReplaceVisitor2_visit :: "(expr \<rightharpoonup> apint) \<Rightarrow> expr \<Rightarrow> expr" where
  "ExprReplaceVisitor2_visit replacements e =
     visitActual (\<lambda>_. DoChildren) (\<lambda>_. DoChildren) (ReplaceVisitor2_post replacements)
       (ExprReplaceVisitor2_visit replacements) (map (ExprReplaceVisitor2_visit replacements) (kids e)) e"
  by pat_completeness auto

text \<open>A visit changes nothing or makes the expression lighter.\<close>

definition lighter :: "expr \<Rightarrow> expr \<Rightarrow> bool" where
  "lighter e' e \<longleftrightarrow> e' = e \<or> weight e' < weight e"

lemma lighter_le: "lighter e' e \<Longrightarrow> weight e' \<le> weight e"
  by (auto simp: lighter_def)

lemma lighter_trans: "lighter a b \<Longrightarrow> lighter b c \<Longrightarrow> lighter a c"
  by (auto simp: lighter_def)

lemma sum_lighter:
  "list_all2 lighter ks ls \<Longrightarrow> ks = ls \<or> sum_list (map weight ks) < sum_list (map weight ls)"
proof (induction rule: list_all2_induct)
  case (Cons k ks l ls)
  then show ?case by (auto simp: lighter_def)
qed simp

lemma rebuild_lighter:
  assumes "\<not> isConst e" "list_all2 lighter ks (kids e)" "ks \<noteq> kids e"
  shows "weight (rebuild e ks) < weight e"
  using rebuild_weight [OF assms(1), of ks] weight_kids [of e] sum_lighter [OF assms(2)] assms(2,3)
  by (auto dest: list_all2_lengthD)

lemma visitChildren_lighter:
  assumes "\<not> isConst e" "\<And>k. k \<in> set (kids e) \<Longrightarrow> lighter (v k) k"
    and "map v (kids e) \<noteq> kids e \<Longrightarrow> lighter (w (rebuild e (map v (kids e)))) (rebuild e (map v (kids e)))"
    and "\<And>x y. \<not> isConst x \<Longrightarrow> post x = ChangeTo y \<Longrightarrow> isConst y"
  shows "lighter (visitChildren post w (map v (kids e)) e) e"
proof -
  define e1 where "e1 = (if map v (kids e) \<noteq> kids e then w (rebuild e (map v (kids e))) else e)"
  have "list_all2 lighter (map v (kids e)) (kids e)"
    using assms(2) by (simp add: list_all2_conv_all_nth)
  from rebuild_lighter [OF assms(1) this] have e: "lighter e1 e"
    using assms(3) by (auto simp: lighter_def e1_def)
  have "lighter y x" if "\<not> isConst x" "post x = ChangeTo y" for x y
    using assms(4) [OF that] weight_pos [OF that(1)] weight_0 [of y] unfolding lighter_def by linarith
  with e show ?thesis
    unfolding visitChildren_def Let_def e1_def [symmetric] by (auto split: action.split intro: lighter_trans)
qed

lemma visit2_lighter_step:
  assumes "ExprReplaceVisitor2_visit m e = visitActual (\<lambda>_. DoChildren) (\<lambda>_. DoChildren) (ReplaceVisitor2_post m)
      (ExprReplaceVisitor2_visit m) (map (ExprReplaceVisitor2_visit m) (kids e)) e"
    and "\<And>k. k \<in> set (kids e) \<Longrightarrow> lighter (ExprReplaceVisitor2_visit m k) k"
    and "\<And>x. \<not> isConst e \<Longrightarrow> map (ExprReplaceVisitor2_visit m) (kids e) \<noteq> kids e \<Longrightarrow>
        x = rebuild e (map (ExprReplaceVisitor2_visit m) (kids e)) \<Longrightarrow> lighter (ExprReplaceVisitor2_visit m x) x"
  shows "lighter (ExprReplaceVisitor2_visit m e) e"
proof -
  let ?v = "ExprReplaceVisitor2_visit m"
  have "\<not> isConst e \<Longrightarrow> lighter (visitChildren (ReplaceVisitor2_post m) ?v (map ?v (kids e)) e) e"
    using assms(2,3) by (intro visitChildren_lighter) (auto simp: ReplaceVisitor2_post_def split: option.splits)
  then show ?thesis
    unfolding assms(1) visitActual_def by (simp add: lighter_def)
qed

lemma visit2_lighter_dom:
  "ExprReplaceVisitor2_visit_dom (m, e) \<Longrightarrow> lighter (ExprReplaceVisitor2_visit m e) e"
proof (induction m e rule: ExprReplaceVisitor2_visit.pinduct)
  case (1 m e)
  show ?case
    using "1.IH" by (rule visit2_lighter_step [OF ExprReplaceVisitor2_visit.psimps [OF "1.hyps"]])
qed

termination ExprReplaceVisitor2_visit
proof (relation "measures [\<lambda>(m, e). weight e, \<lambda>(m, e). size e]", goal_cases)
  case (2 m e k)
  then show ?case using kids_inner [of e] inner_size [of k e] weight_kids [of e]
      member_le_sum_list [of "weight k" "map weight (kids e)"] by fastforce
next
  case (3 m e x)
  have "lighter (ExprReplaceVisitor2_visit m k) k" if "k \<in> set (kids e)" for k
    using 3 that visit2_lighter_dom by simp
  then have "list_all2 lighter (map (ExprReplaceVisitor2_visit m) (kids e)) (kids e)"
    by (simp add: list_all2_conv_all_nth)
  with 3 show ?case by (simp add: rebuild_lighter)
qed simp

declare ExprReplaceVisitor_visit.simps [simp del] ExprReplaceVisitor2_visit.simps [simp del]

lemma visit2_lighter: "lighter (ExprReplaceVisitor2_visit m e) e"
proof (induction m e rule: ExprReplaceVisitor2_visit.induct)
  case (1 m e)
  then show ?case by (rule visit2_lighter_step [OF ExprReplaceVisitor2_visit.simps])
qed

lemma visit_lighter:
  assumes "isConst dst"
  shows "lighter (ExprReplaceVisitor_visit src dst e) e"
proof (induction e rule: expr_size_induct)
  case (smaller e)
  let ?v = "ExprReplaceVisitor_visit src dst"
  have "\<not> isConst e \<Longrightarrow> lighter (visitChildren (ReplaceVisitor_hook src dst) (\<lambda>x. x) (map ?v (kids e)) e) e"
    using smaller kids_inner [of e] inner_size [of _ e] assms
    by (intro visitChildren_lighter) (auto simp: ReplaceVisitor_hook_def lighter_def split: if_splits)
  moreover have "\<not> isConst src \<Longrightarrow> lighter dst src"
    using weight_pos [of src] assms weight_0 [of dst] unfolding lighter_def by linarith
  ultimately show ?case
    by (subst ExprReplaceVisitor_visit.simps)
      (auto simp: visitActual_def ReplaceVisitor_hook_def lighter_def split: action.splits if_splits)
qed

subsection \<open>The constraint manager\<close>

text \<open>The command line option \<open>rewrite-equalities\<close>, at its default.\<close>

definition RewriteEqualities :: bool where
  "RewriteEqualities = True"

text \<open>What a constraint lets the simplifier replace by a constant.\<close>

fun equality_of :: "expr \<Rightarrow> expr \<times> apint" where
  "equality_of (BinaryExpr Eq (ConstantExpr c) right) = (right, c)"
| "equality_of e = (e, mkAPInt Bool 1)"

text \<open>\<open>std::map::insert\<close> keeps the first entry of a key.\<close>

definition insert_new :: "'k \<times> 'v \<Rightarrow> ('k \<rightharpoonup> 'v) \<Rightarrow> ('k \<rightharpoonup> 'v)" where
  "insert_new kv m = (if m (fst kv) = None then m(fst kv \<mapsto> snd kv) else m)"

definition equalities :: "expr list \<Rightarrow> (expr \<rightharpoonup> apint)" where
  "equalities constraints = fold (\<lambda>it m. insert_new (equality_of it) m) constraints Map.empty"

definition simplifyExpr :: "expr list \<Rightarrow> expr \<Rightarrow> expr" where
  "simplifyExpr constraints e =
     (if isConst e then e else ExprReplaceVisitor2_visit (equalities constraints) e)"

text \<open>
  \<open>addConstraintInternal\<close> and \<open>rewriteConstraints\<close> call each other: a rewritten constraint is added
  again and may be an equality that rewrites further. The assertion on a false constraint is an
  error value. The loop of \<open>rewriteConstraints\<close> has the constraints still to visit, the manager's
  new list and the \<open>changed\<close> flag as arguments.
\<close>

datatype cm_error = InvalidConstraint

function (domintros) addConstraintInternal :: "expr list \<Rightarrow> expr \<Rightarrow> cm_error + expr list"
  and rewrite_loop :: "expr \<Rightarrow> apint \<Rightarrow> expr list \<Rightarrow> expr list \<Rightarrow> bool \<Rightarrow> cm_error + bool \<times> expr list" where
  "addConstraintInternal constraints e =
     (case asConst e of
        Some c \<Rightarrow> if isTrue c then Inr constraints else Inl InvalidConstraint
      | None \<Rightarrow> (case asBin And e of
        Some (left, right) \<Rightarrow>
          (case addConstraintInternal constraints left of
             Inl er \<Rightarrow> Inl er
           | Inr cs \<Rightarrow> addConstraintInternal cs right)
      | None \<Rightarrow> (case asBinC Eq e of
        Some (left, right) \<Rightarrow>
          if RewriteEqualities then
            (case rewrite_loop right left constraints [] False of
               Inl er \<Rightarrow> Inl er
             | Inr (changed, cs) \<Rightarrow> Inr (cs @ [e]))
          else Inr (constraints @ [e])
      | None \<Rightarrow> Inr (constraints @ [e]))))"
| "rewrite_loop src dst [] constraints changed = Inr (changed, constraints)"
| "rewrite_loop src dst (ce # old) constraints changed =
     (if ExprReplaceVisitor_visit src (ConstantExpr dst) ce \<noteq> ce then
        (case addConstraintInternal constraints (ExprReplaceVisitor_visit src (ConstantExpr dst) ce) of
           Inl er \<Rightarrow> Inl er
         | Inr cs \<Rightarrow> rewrite_loop src dst old cs True)
      else rewrite_loop src dst old (constraints @ [ce]) changed)"
  by pat_completeness auto

definition load :: "expr list \<Rightarrow> nat" where
  "load cs = sum_list (map weight cs)"

lemma load_simps [simp]: "load [] = 0" "load (c # cs) = weight c + load cs" "load (cs @ ds) = load cs + load ds"
  by (simp_all add: load_def)

lemma visit_changed_lighter:
  "ExprReplaceVisitor_visit src (ConstantExpr dst) ce \<noteq> ce \<Longrightarrow>
    weight (ExprReplaceVisitor_visit src (ConstantExpr dst) ce) < weight ce"
  using visit_lighter [of "ConstantExpr dst" src ce] by (auto simp: lighter_def)

text \<open>Adding a constraint adds at most its weight.\<close>

lemma add_load:
  "addConstraintInternal_rewrite_loop_dom (Inl (cs, e)) \<Longrightarrow>
     addConstraintInternal cs e = Inr cs' \<Longrightarrow> load cs' \<le> load cs + weight e"
  "addConstraintInternal_rewrite_loop_dom (Inr (src, dst, old, cs, ch)) \<Longrightarrow>
     rewrite_loop src dst old cs ch = Inr (ch', cs') \<Longrightarrow> load cs' \<le> load cs + load old"
proof (induction cs e and src dst old cs ch arbitrary: cs' and ch' cs' rule: addConstraintInternal_rewrite_loop.pinduct)
  case (1 cs e)
  note prems = "1.prems" [unfolded addConstraintInternal.psimps [OF "1.hyps"]]
  consider (const) c where "e = ConstantExpr c" | (conj) l r where "e = BinaryExpr And l r"
    | (eq) c r where "e = BinaryExpr Eq (ConstantExpr c) r"
    | (other) "asConst e = None" "asBin And e = None" "asBinC Eq e = None"
    by (metis asBinC_Some asBin_Some asConst_Some option.exhaust surj_pair)
  then show ?case
  proof cases
    case const
    then show ?thesis using prems by (simp split: if_splits)
  next
    case conj
    with prems obtain cs1 where 1: "addConstraintInternal cs l = Inr cs1" "addConstraintInternal cs1 r = Inr cs'"
      by (auto split: sum.splits)
    show ?thesis using "1.IH"(2) [of "(l, r)" l r cs1] "1.IH"(3) [of "(l, r)" l r cs1 cs'] 1 conj by simp
  next
    case eq
    with prems obtain ch cs1 where 1: "rewrite_loop r c cs [] False = Inr (ch, cs1)" "cs' = cs1 @ [e]"
      by (auto simp: RewriteEqualities_def asBinC_Binary split: sum.splits)
    show ?thesis using "1.IH"(1) [of "(c, r)" c r ch cs1] 1 eq by (simp add: RewriteEqualities_def asBinC_Binary)
  next
    case other
    then show ?thesis using prems by (auto simp del: asConst_None)
  qed
next
  case (2 src dst cs ch)
  then show ?case by (simp add: rewrite_loop.psimps)
next
  case (3 src dst ce old cs ch)
  then show ?case
    using visit_changed_lighter [of src dst ce]
    by (fastforce simp: rewrite_loop.psimps(2) [OF "3.hyps"] split: if_splits sum.splits)
qed

termination addConstraintInternal
proof (relation "measures [case_sum (\<lambda>(cs, e). load cs + weight e) (\<lambda>(src, dst, old, cs, ch). load cs + load old),
      case_sum (\<lambda>(cs, e). size e) (\<lambda>(src, dst, old, cs, ch). length old)]", goal_cases)
  case (4 cs e lr l r cs1)
  then show ?case using add_load(1) [of cs l cs1] by auto
next
  case (6 src dst ce old cs ch cs1)
  then show ?case
    using add_load(1) [of cs "ExprReplaceVisitor_visit src (ConstantExpr dst) ce" cs1] visit_changed_lighter [of src dst ce] by auto
next
  case (5 src dst ce old cs ch)
  then show ?case using visit_changed_lighter [of src dst ce] by simp
qed (auto simp del: weight_0)

declare addConstraintInternal.simps [simp del]

definition rewriteConstraints :: "expr \<Rightarrow> apint \<Rightarrow> expr list \<Rightarrow> cm_error + bool \<times> expr list" where
  "rewriteConstraints src dst constraints = rewrite_loop src dst constraints [] False"

definition addConstraint :: "expr list \<Rightarrow> expr \<Rightarrow> cm_error + expr list" where
  "addConstraint constraints e = addConstraintInternal constraints (simplifyExpr constraints e)"

subsection \<open>Soundness of the visitors\<close>

definition typed_as :: "expr \<Rightarrow> expr \<Rightarrow> bool" where
  "typed_as e' e \<longleftrightarrow> wt e' \<and> getWidth e' = getWidth e"

lemma rebuild_typed:
  assumes "wt e" "\<not> isConst e" "list_all2 typed_as ks (kids e)"
  shows "typed_as (rebuild e ks) e"
proof -
  note eq = expr_equivD(1,2) [OF Read_create_equiv] expr_equivD(1,2) [OF Select_create_equiv]
    expr_equivD(1,2) [OF Not_create_equiv] expr_equivD(1,2) [OF Binary_create_equiv]
    expr_equivD(1,2) [OF Concat_Extract_create_equiv(1)] expr_equivD(1,2) [OF Concat_Extract_create_equiv(2)]
    expr_equivD(1,2) [OF ZExt_create_equiv(1)] expr_equivD(1,2) [OF SExt_create_equiv(1)]
  show ?thesis
    using assms wt_width_pos [OF assms(1)]
    by (cases e) (auto simp: typed_as_def list_all2_Cons2 NotOptimized_create_def eq)
qed

text \<open>
  Replacing is always type correct, and keeps the value in an environment where the replaced
  expression has the constant's value, which the condition \<open>P\<close> stands for.
\<close>

definition refines_when :: "bool \<Rightarrow> env \<Rightarrow> expr \<Rightarrow> expr \<Rightarrow> bool" where
  "refines_when P \<rho> e' e \<longleftrightarrow> typed_as e' e \<and> (P \<longrightarrow> refines_at \<rho> e' e)"

lemma refines_when_refl [simp]: "wt e \<Longrightarrow> refines_when P \<rho> e e"
  by (simp add: refines_when_def typed_as_def)

lemma refines_when_trans: "refines_when P \<rho> a b \<Longrightarrow> refines_when P \<rho> b c \<Longrightarrow> refines_when P \<rho> a c"
  by (auto simp: refines_when_def typed_as_def intro: refines_at_trans)

lemma refines_when_wt: "refines_when P \<rho> a b \<Longrightarrow> wt a"
  by (simp add: refines_when_def typed_as_def)

lemma rebuild_refines_when:
  assumes "wt e" "\<not> isConst e" "list_all2 (refines_when P \<rho>) ks (kids e)"
  shows "refines_when P \<rho> (rebuild e ks) e"
  using assms rebuild_typed [of e ks] rebuild_refines [of e \<rho> ks]
  by (auto simp: refines_when_def list_all2_conv_all_nth)

lemma visitChildren_when:
  assumes "wt e" "\<not> isConst e" "\<And>k. k \<in> set (kids e) \<Longrightarrow> refines_when P \<rho> (v k) k"
    and "map v (kids e) \<noteq> kids e \<Longrightarrow> wt (rebuild e (map v (kids e))) \<Longrightarrow>
          refines_when P \<rho> (w (rebuild e (map v (kids e)))) (rebuild e (map v (kids e)))"
    and "\<And>x y. post x = ChangeTo y \<Longrightarrow> wt x \<Longrightarrow> refines_when P \<rho> y x"
  shows "refines_when P \<rho> (visitChildren post w (map v (kids e)) e) e"
proof -
  define e1 where "e1 = (if map v (kids e) \<noteq> kids e then w (rebuild e (map v (kids e))) else e)"
  have "refines_when P \<rho> (rebuild e (map v (kids e))) e"
    using assms(1-3) by (intro rebuild_refines_when) (simp_all add: list_all2_conv_all_nth)
  then have e1: "refines_when P \<rho> e1 e"
    using assms(1,4) refines_when_wt by (auto simp: e1_def intro: refines_when_trans)
  show ?thesis
    unfolding visitChildren_def Let_def e1_def [symmetric]
    using e1 assms(5) refines_when_wt [OF e1] by (auto split: action.split intro: refines_when_trans)
qed

lemma visit_when:
  assumes "typed_as (ConstantExpr dst) src" "P \<longrightarrow> eval \<rho> src = uval dst"
  shows "wt e \<Longrightarrow> refines_when P \<rho> (ExprReplaceVisitor_visit src (ConstantExpr dst) e) e"
proof (induction e rule: expr_size_induct)
  case (smaller e)
  let ?v = "ExprReplaceVisitor_visit src (ConstantExpr dst)"
  have dst: "refines_when P \<rho> (ConstantExpr dst) src"
    using assms by (auto simp: refines_when_def typed_as_def refines_at_def)
  have "refines_when P \<rho> (?v k) k" if "k \<in> set (kids e)" for k
    using smaller that kids_inner [of e] by (auto intro: inner_size wt_inner)
  then have "\<not> isConst e \<Longrightarrow>
      refines_when P \<rho> (visitChildren (ReplaceVisitor_hook src (ConstantExpr dst)) (\<lambda>x. x) (map ?v (kids e)) e) e"
    using smaller.prems dst by (intro visitChildren_when) (auto simp: ReplaceVisitor_hook_def split: if_splits)
  then show ?case
    using smaller.prems dst by (subst ExprReplaceVisitor_visit.simps) (simp add: visitActual_def ReplaceVisitor_hook_def)
qed

lemma refines_when_True: "refines_when True \<rho> e' e \<longleftrightarrow> refines_at \<rho> e' e"
  by (auto simp: refines_when_def typed_as_def refines_at_def)

lemma visit2_when:
  "(\<And>x c. m x = Some c \<Longrightarrow> wt x \<Longrightarrow> refines_when P \<rho> (ConstantExpr c) x) \<Longrightarrow> wt e \<Longrightarrow>
     refines_when P \<rho> (ExprReplaceVisitor2_visit m e) e"
proof (induction m e rule: ExprReplaceVisitor2_visit.induct)
  case (1 m e)
  let ?v = "ExprReplaceVisitor2_visit m"
  have "refines_when P \<rho> (?v k) k" if "k \<in> set (kids e)" for k
    using that "1.prems" kids_inner [of e] by (intro "1.IH"(1)) (auto intro: wt_inner)
  moreover have "refines_when P \<rho> (?v x) x" if "\<not> isConst e" "map ?v (kids e) \<noteq> kids e" "wt x"
    "x = rebuild e (map ?v (kids e))" for x
    using that "1.prems"(1) by (intro "1.IH"(2)) auto
  ultimately have "\<not> isConst e \<Longrightarrow> refines_when P \<rho> (visitChildren (ReplaceVisitor2_post m) ?v (map ?v (kids e)) e) e"
    using "1.prems" by (intro visitChildren_when) (auto simp: ReplaceVisitor2_post_def split: option.splits)
  then show ?case
    using "1.prems"(2) by (subst ExprReplaceVisitor2_visit.simps) (simp add: visitActual_def)
qed

subsection \<open>Soundness of the manager\<close>

abbreviation okc :: "expr \<Rightarrow> bool" where
  "okc c \<equiv> wt c \<and> getWidth c = Bool"

definition sat :: "env \<Rightarrow> expr list \<Rightarrow> bool" where
  "sat \<rho> cs \<longleftrightarrow> (\<forall>c\<in>set cs. eval \<rho> c = 1)"

lemma sat_simps [simp]: "sat \<rho> []" "sat \<rho> (c # cs) \<longleftrightarrow> eval \<rho> c = 1 \<and> sat \<rho> cs"
  "sat \<rho> (cs @ ds) \<longleftrightarrow> sat \<rho> cs \<and> sat \<rho> ds"
  by (auto simp: sat_def)

lemma equality_of_sound:
  assumes "okc it" "P \<longrightarrow> eval \<rho> it = 1"
  shows "refines_when P \<rho> (ConstantExpr (snd (equality_of it))) (fst (equality_of it))"
proof (cases "\<exists>c right. it = BinaryExpr Eq (ConstantExpr c) right")
  case True
  then show ?thesis using assms by (auto simp: refines_when_def typed_as_def refines_at_def)
next
  case False
  then have "equality_of it = (it, mkAPInt Bool 1)" by (cases it rule: equality_of.cases) auto
  with assms show ?thesis by (simp add: refines_when_def typed_as_def refines_at_def)
qed

lemma equalities_sound:
  assumes "list_all okc cs" "P \<longrightarrow> sat \<rho> cs" "equalities cs x = Some c"
  shows "refines_when P \<rho> (ConstantExpr c) x"
proof -
  define good where "good m \<longleftrightarrow> (\<forall>x c. m x = Some c \<longrightarrow> refines_when P \<rho> (ConstantExpr c) x)" for m
  have new: "good (insert_new (equality_of it) m)" if "okc it" "P \<longrightarrow> eval \<rho> it = 1" "good m" for it m
    using equality_of_sound [OF that(1,2)] that(3) unfolding good_def insert_new_def by simp
  have "good (fold (\<lambda>it m. insert_new (equality_of it) m) cs m)" if "good m" for m
    using assms(1,2) that by (induction cs arbitrary: m) (simp_all add: new)
  from this [of Map.empty] have "good (equalities cs)" unfolding equalities_def by (simp add: good_def)
  with assms(3) show ?thesis by (simp add: good_def)
qed

lemma simplifyExpr_refines:
  assumes "list_all okc cs" "wt e"
  shows "refines_when (sat \<rho> cs) \<rho> (simplifyExpr cs e) e"
  using assms visit2_when [of "equalities cs" "sat \<rho> cs" \<rho> e] equalities_sound [OF assms(1), of "sat \<rho> cs" \<rho>]
  by (simp add: simplifyExpr_def)

lemma eval_And_bool:
  assumes "okc (BinaryExpr And l r)"
  shows "okc l" "okc r" "eval \<rho> (BinaryExpr And l r) = 1 \<longleftrightarrow> eval \<rho> l = 1 \<and> eval \<rho> r = 1"
proof -
  from assms show lr: "okc l" "okc r" by (auto simp: isCmp_def)
  from lr eval_bool_cases [of l \<rho>] eval_bool_cases [of r \<rho>]
  show "eval \<rho> (BinaryExpr And l r) = 1 \<longleftrightarrow> eval \<rho> l = 1 \<and> eval \<rho> r = 1" by auto
qed

text \<open>What adding \<open>e\<close> to \<open>cs\<close> owes: the new list is the conjunction, and the assertion fires only on a contradiction.\<close>

definition adds :: "env \<Rightarrow> expr list \<Rightarrow> bool \<Rightarrow> cm_error + expr list \<Rightarrow> bool" where
  "adds \<rho> cs b res \<longleftrightarrow> (case res of Inl er \<Rightarrow> \<not> (sat \<rho> cs \<and> b)
     | Inr cs' \<Rightarrow> list_all okc cs' \<and> (sat \<rho> cs' \<longleftrightarrow> sat \<rho> cs \<and> b))"

lemma typed_as_Eq: "okc (BinaryExpr Eq (ConstantExpr c) r) \<Longrightarrow> typed_as (ConstantExpr c) r"
  by (simp add: typed_as_def)

lemma visit_okc:
  assumes "typed_as (ConstantExpr dst) src" "okc e"
  shows "okc (ExprReplaceVisitor_visit src (ConstantExpr dst) e)"
    and "eval \<rho> src = uval dst \<Longrightarrow> eval \<rho> (ExprReplaceVisitor_visit src (ConstantExpr dst) e) = eval \<rho> e"
  using visit_when [OF assms(1), of "eval \<rho> src = uval dst" \<rho> e] assms(2)
  by (auto simp: refines_when_def typed_as_def refines_at_def)

lemma add_sound:
  "list_all okc cs \<Longrightarrow> okc e \<Longrightarrow> adds \<rho> cs (eval \<rho> e = 1) (addConstraintInternal cs e)"
  "list_all okc cs \<Longrightarrow> list_all okc old \<Longrightarrow> typed_as (ConstantExpr dst) src \<Longrightarrow>
     (case rewrite_loop src dst old cs ch of Inl er \<Rightarrow> eval \<rho> src = uval dst \<longrightarrow> \<not> (sat \<rho> cs \<and> sat \<rho> old)
      | Inr (ch', cs') \<Rightarrow> list_all okc cs' \<and> (eval \<rho> src = uval dst \<longrightarrow> (sat \<rho> cs' \<longleftrightarrow> sat \<rho> cs \<and> sat \<rho> old)))"
proof (induction cs e and src dst old cs ch rule: addConstraintInternal_rewrite_loop.induct)
  case (1 cs e)
  consider (const) c where "e = ConstantExpr c" | (conj) l r where "e = BinaryExpr And l r"
    | (eq) c r where "e = BinaryExpr Eq (ConstantExpr c) r"
    | (other) "asConst e = None" "asBin And e = None" "asBinC Eq e = None"
    by (metis asBinC_Some asBin_Some asConst_Some option.exhaust surj_pair)
  then show ?case
  proof cases
    case const
    then show ?thesis using "1.prems" by (auto simp: addConstraintInternal.simps adds_def apint_ok_isTrue)
  next
    case conj
    with "1.prems" have ok: "okc (BinaryExpr And l r)" by simp
    note lr = eval_And_bool(1,2) [OF ok] eval_And_bool(3) [OF ok, of \<rho>]
    have "adds \<rho> cs (eval \<rho> l = 1) (addConstraintInternal cs l)"
      using "1.IH"(2) [of "(l, r)" l r] conj "1.prems"(1) lr(1) by simp
    moreover have "adds \<rho> cs1 (eval \<rho> r = 1) (addConstraintInternal cs1 r)"
      if "addConstraintInternal cs l = Inr cs1" "list_all okc cs1" for cs1
      using "1.IH"(3) [of "(l, r)" l r cs1] conj lr(2) that by simp
    ultimately show ?thesis
      using lr(3) unfolding conj
      by (subst addConstraintInternal.simps) (auto simp: adds_def simp del: eval.simps split: sum.splits)
  next
    case eq
    have val: "eval \<rho> e = 1 \<longleftrightarrow> eval \<rho> r = uval c" using eq by auto
    have typed: "typed_as (ConstantExpr c) r" using eq "1.prems"(2) typed_as_Eq by blast
    note loop = "1.IH"(1) [of "(c, r)" c r]
    show ?thesis
      using eq "1.prems" loop typed val
      by (subst addConstraintInternal.simps)
        (auto simp: adds_def RewriteEqualities_def asBinC_Binary simp del: eval.simps split: sum.splits)
  next
    case other
    then show ?thesis
      using "1.prems" by (subst addConstraintInternal.simps) (auto simp: adds_def simp del: asConst_None)
  qed
next
  case (2 src dst cs ch)
  then show ?case by simp
next
  case (3 src dst ce old cs ch)
  let ?e = "ExprReplaceVisitor_visit src (ConstantExpr dst) ce"
  from "3.prems" have e: "okc ?e" "eval \<rho> src = uval dst \<Longrightarrow> eval \<rho> ?e = eval \<rho> ce"
    using visit_okc(1) [of dst src ce] visit_okc(2) [of dst src ce \<rho>] by simp_all
  show ?case
  proof (cases "?e = ce")
    case True
    then show ?thesis using 3 by (auto split: sum.splits)
  next
    case False
    with 3 e have add: "adds \<rho> cs (eval \<rho> ?e = 1) (addConstraintInternal cs ?e)" by simp
    show ?thesis
      using add "3.IH"(2) False "3.prems" e(2)
      by (auto simp: adds_def split: sum.splits)
  qed
qed

lemma addConstraint_adds:
  assumes "list_all okc cs" "okc e"
  shows "adds \<rho> cs (eval \<rho> e = 1) (addConstraint cs e)"
proof -
  have s: "refines_when (sat \<rho> cs) \<rho> (simplifyExpr cs e) e"
    using assms by (intro simplifyExpr_refines) simp_all
  then have "adds \<rho> cs (eval \<rho> (simplifyExpr cs e) = 1) (addConstraint cs e)"
    unfolding addConstraint_def using assms by (intro add_sound(1)) (simp_all add: refines_when_def typed_as_def)
  with s show ?thesis
    by (auto simp: adds_def refines_when_def refines_at_def split: sum.splits)
qed

subsection \<open>Properties\<close>

text \<open>
  C6: simplifying an expression by the constraints returns a well-typed expression of the same
  width that has the expression's value in every environment in which the constraints hold.
\<close>

theorem simplifyExpr_sound:
  assumes "list_all (\<lambda>c. wt c \<and> getWidth c = Bool) cs" "wt e" "sat \<rho> cs"
  shows "wt (simplifyExpr cs e) \<and> getWidth (simplifyExpr cs e) = getWidth e \<and>
    eval \<rho> (simplifyExpr cs e) = eval \<rho> e"
  using simplifyExpr_refines [OF assms(1,2), of \<rho>] assms(3) by (simp add: refines_when_def refines_at_def)

theorem simplifyExpr_sound_witness:
  "sat (\<lambda>_ _. 7) [BinaryExpr Eq (const8 7) (sample_read 0)] \<and>
   eval (\<lambda>_ _. 7) (simplifyExpr [BinaryExpr Eq (const8 7) (sample_read 0)] (BinaryExpr Add (sample_read 0) (sample_read 1))) =
   eval (\<lambda>_ _. 7) (BinaryExpr Add (sample_read 0) (sample_read 1))"
proof -
  have sat: "sat (\<lambda>_ _. 7) [BinaryExpr Eq (const8 7) (sample_read 0)]"
    by (simp add: const8_def sample_read_def initial_value_def isConstantArray_def isSymbolicArray_def sample_array_def)
  then show ?thesis
    using simplifyExpr_sound [of "[BinaryExpr Eq (const8 7) (sample_read 0)]"
      "BinaryExpr Add (sample_read 0) (sample_read 1)" "\<lambda>_ _. 7"] by (simp add: isCmp_def del: eval.simps sat_simps)
qed

text \<open>
  C7: adding a constraint terminates, and when it does not fail its assertion the new set of
  boolean constraints holds in exactly the environments in which the old constraints and the
  added one hold, whatever splitting and rewriting of constraints happened on the way.
\<close>

theorem addConstraint_sound:
  assumes "list_all (\<lambda>c. wt c \<and> getWidth c = Bool) cs" "wt e" "getWidth e = Bool" "addConstraint cs e = Inr cs'"
  shows "list_all (\<lambda>c. wt c \<and> getWidth c = Bool) cs' \<and> (\<forall>\<rho>. sat \<rho> cs' \<longleftrightarrow> sat \<rho> cs \<and> eval \<rho> e = 1)"
  using addConstraint_adds [of cs e] assms by (simp add: adds_def)

text \<open>
  The assertion that no false constraint is added fires only when no environment satisfies
  the old constraints together with the new one; a satisfiable addition always succeeds.
\<close>

theorem addConstraint_succeeds:
  assumes "list_all (\<lambda>c. wt c \<and> getWidth c = Bool) cs" "wt e" "getWidth e = Bool" "sat \<rho> cs" "eval \<rho> e = 1"
  shows "\<exists>cs'. addConstraint cs e = Inr cs'"
  using addConstraint_adds [of cs e \<rho>] assms by (auto simp: adds_def split: sum.splits)

definition sample_eq :: "int \<Rightarrow> nat \<Rightarrow> expr" where
  "sample_eq v i = BinaryExpr Eq (const8 v) (sample_read i)"

lemma sample_eq_facts [simp]:
  "i < 4 \<Longrightarrow> wt (sample_eq v i)" "getWidth (sample_eq v i) = Bool"
  by (simp_all add: sample_eq_def isCmp_def)

lemma sample_eq_true [simp]:
  "0 \<le> v \<Longrightarrow> v < 256 \<Longrightarrow> eval (\<lambda>_ _. v) (sample_eq v i) = 1"
  by (simp add: sample_eq_def const8_def sample_read_def initial_value_def isConstantArray_def
      isSymbolicArray_def sample_array_def)

theorem addConstraint_succeeds_witness:
  "\<exists>cs'. addConstraint [sample_eq 7 0] (sample_eq 7 1) = Inr cs'"
  using addConstraint_succeeds [of "[sample_eq 7 0]" "sample_eq 7 1" "\<lambda>_ _. 7"] by simp

theorem addConstraint_sound_witness:
  "addConstraint [] (sample_eq 7 1) = Inr [sample_eq 7 1] \<and>
   (\<forall>\<rho>. sat \<rho> [sample_eq 7 1] \<longleftrightarrow> sat \<rho> [] \<and> eval \<rho> (sample_eq 7 1) = 1)"
proof -
  have "simplifyExpr [] (sample_eq 7 1) = sample_eq 7 1"
    by (simp add: simplifyExpr_def equalities_def sample_eq_def const8_def sample_read_def sample_index_def
        ExprReplaceVisitor2_visit.simps visitActual_def visitChildren_def ReplaceVisitor2_post_def)
  then have "addConstraint [] (sample_eq 7 1) = Inr [sample_eq 7 1]"
    by (simp add: addConstraint_def addConstraintInternal.simps sample_eq_def const8_def asBinC_Binary RewriteEqualities_def)
  with addConstraint_sound [of "[]" "sample_eq 7 1" "[sample_eq 7 1]"] show ?thesis by simp
qed

end
