(* ===== verification/ImmutableTree.thy ===== *)
theory ImmutableTree
  imports Prelude
begin

text \<open>
  The balanced search tree of \<open>klee/include/klee/Internal/ADT/ImmutableTree.h\<close>, which carries the
  immutable maps and sets of the executor. A node stores its height; siblings may differ by two.
  The key of a value is taken by the function \<open>kov\<close> (the class parameter \<open>KOV\<close>) and keys are
  compared by the order of their type (\<open>CMP\<close>, \<open>std::less\<close>). Nodes are shared between trees and
  never changed after construction, so the reference counts, which only decide when a node is
  freed, do not show in the values.
\<close>

subsection \<open>Nodes\<close>

datatype 'v node = Terminator | Node (left: "'v node") (right: "'v node") (nvalue: 'v) (nheight: nat)
where
  "left Terminator = Terminator"
| "right Terminator = Terminator"
| "nheight Terminator = 0"

definition mkNode :: "'v node \<Rightarrow> 'v node \<Rightarrow> 'v \<Rightarrow> 'v node" where
  "mkNode l r v = Node l r v (max (nheight l) (nheight r) + 1)"

definition isTerminator :: "'v node \<Rightarrow> bool" where
  "isTerminator n \<longleftrightarrow> n = Terminator"

primrec inorder :: "'v node \<Rightarrow> 'v list" where
  "inorder Terminator = []"
| "inorder (Node l r v h) = inorder l @ v # inorder r"

lemma inorder_Nil [simp]: "inorder t = [] \<longleftrightarrow> t = Terminator"
  by (cases t) simp_all

definition balance :: "'v node \<Rightarrow> 'v \<Rightarrow> 'v node \<Rightarrow> 'v node" where
  "balance l v r =
     (if nheight l > nheight r + 2 then
        (let ll = left l; lr = right l in
         if nheight ll \<ge> nheight lr
         then mkNode ll (mkNode lr r v) (nvalue l)
         else mkNode (mkNode ll (left lr) (nvalue l)) (mkNode (right lr) r v) (nvalue lr))
      else if nheight r > nheight l + 2 then
        (let rl = left r; rr = right r in
         if nheight rr \<ge> nheight rl
         then mkNode (mkNode l rl v) rr (nvalue r)
         else mkNode (mkNode l (left rl) v) (mkNode (right rl) rr (nvalue r)) (nvalue rl))
      else mkNode l r v)"

primrec node_size :: "'v node \<Rightarrow> nat" where
  "node_size Terminator = 0"
| "node_size (Node l r v h) = node_size l + 1 + node_size r"

text \<open>\<open>popMin\<close> and \<open>popMax\<close> return the rest and the value taken out; they are only called on nodes.\<close>

fun popMin :: "'v node \<Rightarrow> ('v node \<times> 'v) option" where
  "popMin Terminator = None"
| "popMin (Node l r v h) =
     (if isTerminator l then Some (r, v)
      else case popMin l of None \<Rightarrow> None | Some (l', out) \<Rightarrow> Some (balance l' v r, out))"

fun popMax :: "'v node \<Rightarrow> ('v node \<times> 'v) option" where
  "popMax Terminator = None"
| "popMax (Node l r v h) =
     (if isTerminator r then Some (l, v)
      else case popMax r of None \<Rightarrow> None | Some (r', out) \<Rightarrow> Some (balance l v r', out))"

fun tree_insert :: "('v \<Rightarrow> 'k::linorder) \<Rightarrow> 'v \<Rightarrow> 'v node \<Rightarrow> 'v node" where
  "tree_insert kov v Terminator = mkNode Terminator Terminator v"
| "tree_insert kov v (Node l r w h) =
     (if kov v < kov w then balance (tree_insert kov v l) w r
      else if kov w < kov v then balance l w (tree_insert kov v r)
      else Node l r w h)"

fun tree_replace :: "('v \<Rightarrow> 'k::linorder) \<Rightarrow> 'v \<Rightarrow> 'v node \<Rightarrow> 'v node" where
  "tree_replace kov v Terminator = mkNode Terminator Terminator v"
| "tree_replace kov v (Node l r w h) =
     (if kov v < kov w then balance (tree_replace kov v l) w r
      else if kov w < kov v then balance l w (tree_replace kov v r)
      else mkNode l r v)"

fun tree_remove :: "('v \<Rightarrow> 'k::linorder) \<Rightarrow> 'k \<Rightarrow> 'v node \<Rightarrow> 'v node" where
  "tree_remove kov k Terminator = Terminator"
| "tree_remove kov k (Node l r w h) =
     (if k < kov w then balance (tree_remove kov k l) w r
      else if kov w < k then balance l w (tree_remove kov k r)
      else if isTerminator l then r
      else if isTerminator r then l
      else case popMin r of None \<Rightarrow> Terminator | Some (nr, m) \<Rightarrow> balance l m nr)"

subsection \<open>Queries\<close>

fun tree_count :: "('v \<Rightarrow> 'k::linorder) \<Rightarrow> 'k \<Rightarrow> 'v node \<Rightarrow> nat" where
  "tree_count kov k Terminator = 0"
| "tree_count kov k (Node l r w h) =
     (if k < kov w then tree_count kov k l else if kov w < k then tree_count kov k r else 1)"

fun tree_lookup :: "('v \<Rightarrow> 'k::linorder) \<Rightarrow> 'k \<Rightarrow> 'v node \<Rightarrow> 'v option" where
  "tree_lookup kov k Terminator = None"
| "tree_lookup kov k (Node l r w h) =
     (if k < kov w then tree_lookup kov k l else if kov w < k then tree_lookup kov k r else Some w)"

fun lookup_previous_from :: "('v \<Rightarrow> 'k::linorder) \<Rightarrow> 'k \<Rightarrow> 'v option \<Rightarrow> 'v node \<Rightarrow> 'v option" where
  "lookup_previous_from kov k result Terminator = result"
| "lookup_previous_from kov k result (Node l r w h) =
     (if k < kov w then lookup_previous_from kov k result l
      else if kov w < k then lookup_previous_from kov k (Some w) r
      else Some w)"

definition lookup_previous :: "('v \<Rightarrow> 'k::linorder) \<Rightarrow> 'k \<Rightarrow> 'v node \<Rightarrow> 'v option" where
  "lookup_previous kov k n = lookup_previous_from kov k None n"

text \<open>\<open>min\<close> and \<open>max\<close> assert that the tree is not empty.\<close>

fun tree_min :: "'v node \<Rightarrow> 'v option" where
  "tree_min Terminator = None"
| "tree_min (Node l r v h) = (if isTerminator l then Some v else tree_min l)"

fun tree_max :: "'v node \<Rightarrow> 'v option" where
  "tree_max Terminator = None"
| "tree_max (Node l r v h) = (if isTerminator r then Some v else tree_max r)"

subsection \<open>Balance\<close>

primrec balanced :: "'v node \<Rightarrow> bool" where
  "balanced Terminator = True"
| "balanced (Node l r v h) =
     (balanced l \<and> balanced r \<and> h = max (nheight l) (nheight r) + 1 \<and>
      nheight l \<le> nheight r + 2 \<and> nheight r \<le> nheight l + 2)"

lemma balanced_mkNode [simp]: "balanced (mkNode l r v) \<longleftrightarrow>
    balanced l \<and> balanced r \<and> nheight l \<le> nheight r + 2 \<and> nheight r \<le> nheight l + 2"
  by (simp add: mkNode_def)

lemma mkNode_sel [simp]: "left (mkNode l r v) = l" "right (mkNode l r v) = r" "nvalue (mkNode l r v) = v"
  "nheight (mkNode l r v) = max (nheight l) (nheight r) + 1" "inorder (mkNode l r v) = inorder l @ v # inorder r"
  "node_size (mkNode l r v) = node_size l + 1 + node_size r" "mkNode l r v \<noteq> Terminator"
  by (simp_all add: mkNode_def)

lemma nheight_posD: "m < nheight n \<Longrightarrow> \<exists>l r v h. n = Node l r v h"
  by (cases n) auto

lemma balance_inorder [simp]: "inorder (balance l v r) = inorder l @ v # inorder r"
  by (cases l; cases r; cases "right l"; cases "left r") (auto simp: balance_def Let_def)

text \<open>What rebalancing owes: a balanced tree whose height is that of the higher side or one more.\<close>

definition rebalanced :: "'v node \<Rightarrow> 'v node \<Rightarrow> 'v node \<Rightarrow> bool" where
  "rebalanced l r t \<longleftrightarrow> balanced t \<and> max (nheight l) (nheight r) \<le> nheight t \<and>
     nheight t \<le> max (nheight l) (nheight r) + 1 \<and>
     (nheight l \<le> nheight r + 2 \<and> nheight r \<le> nheight l + 2 \<longrightarrow> nheight t = max (nheight l) (nheight r) + 1)"

lemma balance_left_heavy:
  assumes "balanced l" "balanced r" "nheight l = nheight r + 3"
  shows "rebalanced l r (balance l v r)"
proof -
  obtain ll lr lv h where l: "l = Node ll lr lv h" using assms(3) nheight_posD [of 0 l] by auto
  with assms have h: "h = nheight r + 3" "max (nheight ll) (nheight lr) = nheight r + 2"
    and b: "balanced ll" "balanced lr" "nheight ll \<le> nheight lr + 2" "nheight lr \<le> nheight ll + 2" by auto
  show ?thesis
  proof (cases "nheight lr \<le> nheight ll")
    case True
    then show ?thesis using l h b assms(2) by (auto simp: balance_def rebalanced_def)
  next
    case False
    then obtain lrl lrr lrv h' where lr: "lr = Node lrl lrr lrv h'" using nheight_posD [of "nheight ll" lr] by auto
    with b have "balanced lrl" "balanced lrr" "h' = max (nheight lrl) (nheight lrr) + 1"
      "nheight lrl \<le> nheight lrr + 2" "nheight lrr \<le> nheight lrl + 2" by auto
    then show ?thesis using False l lr h b assms(2) by (auto simp: balance_def rebalanced_def max_def split: if_splits)
  qed
qed

lemma balance_right_heavy:
  assumes "balanced l" "balanced r" "nheight r = nheight l + 3"
  shows "rebalanced l r (balance l v r)"
proof -
  obtain rl rr rv h where r: "r = Node rl rr rv h" using assms(3) nheight_posD [of 0 r] by auto
  with assms have h: "h = nheight l + 3" "max (nheight rl) (nheight rr) = nheight l + 2"
    and b: "balanced rl" "balanced rr" "nheight rl \<le> nheight rr + 2" "nheight rr \<le> nheight rl + 2" by auto
  show ?thesis
  proof (cases "nheight rl \<le> nheight rr")
    case True
    then show ?thesis using r h b assms(1) by (auto simp: balance_def rebalanced_def)
  next
    case False
    then obtain rll rlr rlv h' where rl: "rl = Node rll rlr rlv h'" using nheight_posD [of "nheight rr" rl] by auto
    with b have "balanced rll" "balanced rlr" "h' = max (nheight rll) (nheight rlr) + 1"
      "nheight rll \<le> nheight rlr + 2" "nheight rlr \<le> nheight rll + 2" by auto
    then show ?thesis using False r rl h b assms(1) by (auto simp: balance_def rebalanced_def max_def split: if_splits)
  qed
qed

lemma balance_ok:
  assumes "balanced l" "balanced r" "nheight l \<le> nheight r + 3" "nheight r \<le> nheight l + 3"
  shows "rebalanced l r (balance l v r)"
proof -
  consider "nheight l = nheight r + 3" | "nheight r = nheight l + 3"
    | "nheight l \<le> nheight r + 2" "nheight r \<le> nheight l + 2" using assms(3,4) by linarith
  then show ?thesis
  proof cases
    case 3
    with assms show ?thesis by (simp add: balance_def rebalanced_def)
  qed (use assms balance_left_heavy balance_right_heavy in auto)
qed

definition grown :: "nat \<Rightarrow> 'v node \<Rightarrow> bool" where
  "grown h t \<longleftrightarrow> balanced t \<and> h \<le> nheight t \<and> nheight t \<le> h + 1"

definition shrunk :: "nat \<Rightarrow> 'v node \<Rightarrow> bool" where
  "shrunk h t \<longleftrightarrow> balanced t \<and> nheight t \<le> h \<and> h \<le> nheight t + 1"

lemma balance_grown:
  assumes "balanced (Node l r w h)"
  shows "grown (nheight l) l' \<Longrightarrow> grown h (balance l' w r)" "grown (nheight r) r' \<Longrightarrow> grown h (balance l w r')"
  using assms balance_ok [of l' r w] balance_ok [of l r' w] by (auto simp: grown_def rebalanced_def)

lemma balance_shrunk:
  assumes "balanced (Node l r w h)"
  shows "shrunk (nheight l) l' \<Longrightarrow> shrunk h (balance l' w r)" "shrunk (nheight r) r' \<Longrightarrow> shrunk h (balance l w r')"
  using assms balance_ok [of l' r w] balance_ok [of l r' w] by (auto simp: shrunk_def rebalanced_def)

lemma grown_refl: "balanced t \<Longrightarrow> grown (nheight t) t" and shrunk_refl: "balanced t \<Longrightarrow> shrunk (nheight t) t"
  by (simp_all add: grown_def shrunk_def)

lemma tree_insert_balanced: "balanced t \<Longrightarrow> grown (nheight t) (tree_insert kov v t)"
proof (induction t)
  case (Node l r w h)
  then have "grown (nheight l) (tree_insert kov v l)" "grown (nheight r) (tree_insert kov v r)" by auto
  with balance_grown [OF Node.prems] grown_refl [OF Node.prems] show ?case by (simp del: balanced.simps)
qed (simp add: grown_def)

lemma tree_replace_balanced: "balanced t \<Longrightarrow> grown (nheight t) (tree_replace kov v t)"
proof (induction t)
  case (Node l r w h)
  then have "grown (nheight l) (tree_replace kov v l)" "grown (nheight r) (tree_replace kov v r)"
    "grown h (mkNode l r v)" by (auto simp: grown_def)
  with balance_grown [OF Node.prems] show ?case by (simp del: balanced.simps)
qed (simp add: grown_def)

lemma popMin_Some: "t \<noteq> Terminator \<Longrightarrow> \<exists>t' v. popMin t = Some (t', v)"
  by (induction t) (auto simp: isTerminator_def)

lemma popMax_Some: "t \<noteq> Terminator \<Longrightarrow> \<exists>t' v. popMax t = Some (t', v)"
  by (induction t) (auto simp: isTerminator_def)

lemma popMin_balanced: "balanced t \<Longrightarrow> popMin t = Some (t', v) \<Longrightarrow> shrunk (nheight t) t'"
proof (induction t arbitrary: t')
  case (Node l r w h)
  show ?case
  proof (cases "isTerminator l")
    case True
    with Node.prems show ?thesis by (auto simp: shrunk_def isTerminator_def)
  next
    case False
    with Node.prems obtain l' where "popMin l = Some (l', v)" "t' = balance l' w r"
      by (auto split: option.splits)
    with Node balance_shrunk(1) [OF Node.prems(1)] show ?thesis by simp
  qed
qed simp

lemma popMax_balanced: "balanced t \<Longrightarrow> popMax t = Some (t', v) \<Longrightarrow> shrunk (nheight t) t'"
proof (induction t arbitrary: t')
  case (Node l r w h)
  show ?case
  proof (cases "isTerminator r")
    case True
    with Node.prems show ?thesis by (auto simp: shrunk_def isTerminator_def)
  next
    case False
    with Node.prems obtain r' where "popMax r = Some (r', v)" "t' = balance l w r'"
      by (auto split: option.splits)
    with Node balance_shrunk(2) [OF Node.prems(1)] show ?thesis by simp
  qed
qed simp

lemma tree_remove_balanced: "balanced t \<Longrightarrow> shrunk (nheight t) (tree_remove kov k t)"
proof (induction t)
  case (Node l r w h)
  then have IH: "shrunk (nheight l) (tree_remove kov k l)" "shrunk (nheight r) (tree_remove kov k r)" by auto
  note bal = balance_shrunk [OF Node.prems]
  show ?case
  proof (cases "isTerminator l \<or> isTerminator r")
    case True
    then have "isTerminator l \<Longrightarrow> shrunk h r" "isTerminator r \<Longrightarrow> shrunk h l"
      using Node.prems by (auto simp: shrunk_def isTerminator_def)
    with True IH bal(1) [of "tree_remove kov k l"] bal(2) [of "tree_remove kov k r"] show ?thesis by auto
  next
    case False
    then obtain nr m where m: "popMin r = Some (nr, m)" using popMin_Some [of r] by (auto simp: isTerminator_def)
    then have "shrunk (nheight r) nr" using popMin_balanced Node.prems by auto
    then have "shrunk h (balance l m nr)" using balance_shrunk(2) [of l r m h nr] Node.prems by simp
    with False m IH bal(1) [of "tree_remove kov k l"] bal(2) [of "tree_remove kov k r"] show ?thesis by simp
  qed
qed (simp add: shrunk_def)

text \<open>A tree of height \<open>h\<close> has at least about \<open>2\<close> to the \<open>h div 3\<close> elements: the height is logarithmic.\<close>

lemma node_size_inorder: "node_size t = length (inorder t)"
  by (induction t) auto

lemma height_bound: "balanced t \<Longrightarrow> 2 ^ (nheight t div 3) \<le> node_size t + 1"
proof (induction "nheight t" arbitrary: t rule: less_induct)
  case less
  show ?case
  proof (cases "nheight t < 3")
    case True
    then show ?thesis by simp
  next
    case False
    then obtain l r v h where t: "t = Node l r v h" by (cases t) auto
    define m where "m = nheight t div 3 - 1"
    have div: "nheight t div 3 = m + 1" using False unfolding m_def by linarith
    have side: "2 ^ m \<le> node_size s + 1" if "s = l \<or> s = r" for s
    proof -
      from that t less.prems have s: "balanced s" "nheight s < nheight t" "nheight t \<le> nheight s + 3" by auto
      from s(3) div have "m \<le> nheight s div 3" by linarith
      then have "2 ^ m \<le> (2::nat) ^ (nheight s div 3)" by (simp add: power_increasing)
      with less.hyps [OF s(2,1)] show ?thesis by linarith
    qed
    from side [of l] side [of r] t div show ?thesis by (simp add: power_add)
  qed
qed

subsection \<open>Search\<close>

text \<open>The values in key order; keys do not repeat.\<close>

definition ordered :: "('v \<Rightarrow> 'k::linorder) \<Rightarrow> 'v list \<Rightarrow> bool" where
  "ordered kov vs \<longleftrightarrow> sorted_wrt (<) (map kov vs)"

lemma ordered_simps [simp]:
  "ordered kov []"
  "ordered kov (v # vs) \<longleftrightarrow> (\<forall>w\<in>set vs. kov v < kov w) \<and> ordered kov vs"
  "ordered kov (us @ vs) \<longleftrightarrow> ordered kov us \<and> ordered kov vs \<and> (\<forall>u\<in>set us. \<forall>v\<in>set vs. kov u < kov v)"
  by (auto simp: ordered_def sorted_wrt_append)

lemma ordered_node:
  "ordered kov (us @ w # vs) \<longleftrightarrow>
    ordered kov us \<and> ordered kov vs \<and> (\<forall>u\<in>set us. kov u < kov w) \<and> (\<forall>v\<in>set vs. kov w < kov v)"
  using less_trans by (fastforce simp: ordered_simps)

text \<open>The map a list of values stands for.\<close>

definition key_map :: "('v \<Rightarrow> 'k) \<Rightarrow> 'v list \<Rightarrow> ('k \<rightharpoonup> 'v)" where
  "key_map kov vs = map_of (map (\<lambda>v. (kov v, v)) vs)"

lemma key_map_simps [simp]:
  "key_map kov [] = Map.empty"
  "key_map kov (v # vs) = (key_map kov vs)(kov v \<mapsto> v)"
  "key_map kov (us @ vs) = key_map kov vs ++ key_map kov us"
  by (simp_all add: key_map_def)

lemma key_map_None: "key_map kov vs k = None \<longleftrightarrow> (\<forall>v\<in>set vs. kov v \<noteq> k)"
  by (force simp: key_map_def map_of_eq_None_iff)

lemma key_map_Some: "ordered kov vs \<Longrightarrow> key_map kov vs k = Some v \<longleftrightarrow> v \<in> set vs \<and> kov v = k"
proof (induction vs)
  case (Cons w vs)
  then show ?case by (cases "k = kov w") auto
qed simp

text \<open>Splitting a map at a node of a search tree.\<close>

lemma key_map_node:
  assumes "ordered kov (us @ w # vs)"
  shows "key_map kov (us @ w # vs) k =
    (if k < kov w then key_map kov us k else if kov w < k then key_map kov vs k else Some w)"
proof (cases "k = kov w")
  case True
  with assms have "key_map kov us k = None" by (auto simp: key_map_None)
  with True show ?thesis by (simp add: map_add_def)
next
  case False
  have "k < kov w \<Longrightarrow> key_map kov vs k = None" "kov w < k \<Longrightarrow> key_map kov us k = None"
    using assms by (auto simp: key_map_None)
  with False show ?thesis by (cases "k < kov w") (auto simp: map_add_def split: option.split)
qed

lemma tree_lookup_map: "ordered kov (inorder t) \<Longrightarrow> tree_lookup kov k t = key_map kov (inorder t) k"
  by (induction t) (simp_all add: key_map_node del: key_map_simps(2,3))

lemma tree_count_lookup: "tree_count kov k t = (if tree_lookup kov k t = None then 0 else 1)"
  by (induction t) simp_all

subsection \<open>Updates\<close>

lemma tree_insert_set: "set (inorder (tree_insert kov v t)) \<subseteq> insert v (set (inorder t))"
  by (induction t) auto

lemma tree_replace_set: "set (inorder (tree_replace kov v t)) \<subseteq> insert v (set (inorder t))"
  by (induction t) auto

lemma tree_insert_ordered: "ordered kov (inorder t) \<Longrightarrow> ordered kov (inorder (tree_insert kov v t))"
proof (induction t)
  case (Node l r w h)
  then show ?case using tree_insert_set [of kov v l] tree_insert_set [of kov v r]
    by (auto simp: ordered_node simp del: ordered_simps(2,3))
qed simp

lemma tree_replace_ordered: "ordered kov (inorder t) \<Longrightarrow> ordered kov (inorder (tree_replace kov v t))"
proof (induction t)
  case (Node l r w h)
  moreover have "\<not> kov v < kov w \<Longrightarrow> \<not> kov w < kov v \<Longrightarrow> kov v = kov w" by simp
  ultimately show ?case using tree_replace_set [of kov v l] tree_replace_set [of kov v r]
    by (auto simp: ordered_node simp del: ordered_simps(2,3))
qed simp

lemma tree_insert_map:
  "ordered kov (inorder t) \<Longrightarrow> key_map kov (inorder (tree_insert kov v t)) k =
    (if k = kov v \<and> key_map kov (inorder t) (kov v) = None then Some v else key_map kov (inorder t) k)"
proof (induction t)
  case (Node l r w h)
  have "key_map kov (inorder (tree_insert kov v (Node l r w h))) k =
      (if kov v < kov w then key_map kov (inorder (tree_insert kov v l) @ w # inorder r) k
       else if kov w < kov v then key_map kov (inorder l @ w # inorder (tree_insert kov v r)) k
       else key_map kov (inorder l @ w # inorder r) k)" by (simp del: key_map_simps)
  moreover have "ordered kov (inorder l)" "ordered kov (inorder r)" using Node.prems by simp_all
  ultimately show ?case
    using Node tree_insert_ordered [OF Node.prems, of v]
    by (auto simp: key_map_node simp del: key_map_simps(2,3) ordered_simps(2,3) split: if_splits)
qed simp

lemma tree_replace_map:
  "ordered kov (inorder t) \<Longrightarrow> key_map kov (inorder (tree_replace kov v t)) k =
    (if k = kov v then Some v else key_map kov (inorder t) k)"
proof (induction t)
  case (Node l r w h)
  have "key_map kov (inorder (tree_replace kov v (Node l r w h))) k =
      (if kov v < kov w then key_map kov (inorder (tree_replace kov v l) @ w # inorder r) k
       else if kov w < kov v then key_map kov (inorder l @ w # inorder (tree_replace kov v r)) k
       else key_map kov (inorder l @ v # inorder r) k)" by (simp del: key_map_simps)
  moreover have "ordered kov (inorder l)" "ordered kov (inorder r)" using Node.prems by simp_all
  ultimately show ?case
    using Node tree_replace_ordered [OF Node.prems, of v]
    by (auto simp: key_map_node simp del: key_map_simps(2,3) ordered_simps(2,3) split: if_splits)
qed simp

lemma popMin_inorder: "popMin t = Some (t', v) \<Longrightarrow> inorder t = v # inorder t'"
  by (induction t arbitrary: t') (auto simp: isTerminator_def split: if_splits option.splits)

lemma popMax_inorder: "popMax t = Some (t', v) \<Longrightarrow> inorder t = inorder t' @ [v]"
  by (induction t arbitrary: t') (auto simp: isTerminator_def split: if_splits option.splits)

lemma tree_remove_root:
  "inorder (if isTerminator l then r else if isTerminator r then l
     else case popMin r of None \<Rightarrow> Terminator | Some (nr, m) \<Rightarrow> balance l m nr) = inorder l @ inorder r"
  using popMin_Some [of r] popMin_inorder [of r] by (auto simp: isTerminator_def)

lemma tree_remove_inorder:
  "inorder (tree_remove kov k (Node l r w h)) =
     (if k < kov w then inorder (tree_remove kov k l) @ w # inorder r
      else if kov w < k then inorder l @ w # inorder (tree_remove kov k r)
      else inorder l @ inorder r)"
  using tree_remove_root [of l r] by simp

lemma tree_remove_set: "set (inorder (tree_remove kov k t)) \<subseteq> set (inorder t)"
  by (induction t) (auto simp: tree_remove_inorder simp del: tree_remove.simps(2) split: if_splits)

lemma tree_remove_ordered: "ordered kov (inorder t) \<Longrightarrow> ordered kov (inorder (tree_remove kov k t))"
proof (induction t)
  case (Node l r w h)
  have "ordered kov (inorder l @ inorder r)" using Node.prems by simp
  with Node tree_remove_set [of kov k l] tree_remove_set [of kov k r] show ?case
    by (auto simp: tree_remove_inorder ordered_node simp del: tree_remove.simps(2) ordered_simps(2,3))
qed simp

lemma tree_remove_map:
  "ordered kov (inorder t) \<Longrightarrow> key_map kov (inorder (tree_remove kov k t)) k' =
    (if k' = k then None else key_map kov (inorder t) k')"
proof (induction t)
  case (Node l r w h)
  have "key_map kov (inorder l) (kov w) = None" "key_map kov (inorder r) (kov w) = None"
    using Node.prems by (auto simp: key_map_None)
  then have gap: "key_map kov (inorder l @ inorder r) k' = (if k' = kov w then None else key_map kov (inorder l @ w # inorder r) k')"
    by (auto simp: map_add_def split: option.split)
  have IH: "key_map kov (inorder (tree_remove kov k l)) k' = (if k' = k then None else key_map kov (inorder l) k')"
    "key_map kov (inorder (tree_remove kov k r)) k' = (if k' = k then None else key_map kov (inorder r) k')"
    using Node by simp_all
  from tree_remove_ordered [OF Node.prems, of k] Node.prems gap IH show ?case
    by (auto simp: tree_remove_inorder key_map_node simp del: key_map_simps(2,3) tree_remove.simps(2) ordered_simps(2,3)
        split: if_splits)
qed simp

subsection \<open>Extreme and previous elements\<close>

lemma tree_min_inorder: "tree_min t = (case inorder t of [] \<Rightarrow> None | v # vs \<Rightarrow> Some v)"
  by (induction t) (auto simp: isTerminator_def split: list.splits)

lemma tree_max_inorder: "tree_max t = (if inorder t = [] then None else Some (last (inorder t)))"
  by (induction t) (auto simp: isTerminator_def)

lemma lookup_previous_from_last:
  "ordered kov (inorder t) \<Longrightarrow> lookup_previous_from kov k res t =
    (let vs = filter (\<lambda>v. kov v \<le> k) (inorder t) in if vs = [] then res else Some (last vs))"
proof (induction t arbitrary: res)
  case (Node l r w h)
  from Node.prems have o: "ordered kov (inorder l)" "ordered kov (inorder r)" "\<forall>u\<in>set (inorder l). kov u < kov w"
    "\<forall>v\<in>set (inorder r). kov w < kov v" by (auto simp: ordered_node simp del: ordered_simps(2,3))
  have "k \<le> kov w \<Longrightarrow> filter (\<lambda>v. kov v \<le> k) (inorder r) = []" using o by (auto simp: filter_empty_conv)
  with Node.IH o show ?case by (cases k "kov w" rule: linorder_cases) (auto simp: Let_def)
qed simp

lemma lookup_previous_greatest:
  assumes "ordered kov (inorder t)"
  shows "lookup_previous kov k t = Some v \<longleftrightarrow>
    v \<in> set (inorder t) \<and> kov v \<le> k \<and> (\<forall>w\<in>set (inorder t). kov w \<le> k \<longrightarrow> kov w \<le> kov v)"
    and "lookup_previous kov k t = None \<longleftrightarrow> (\<forall>w\<in>set (inorder t). k < kov w)"
proof -
  let ?vs = "filter (\<lambda>v. kov v \<le> k) (inorder t)"
  have prev: "lookup_previous kov k t = (if ?vs = [] then None else Some (last ?vs))"
    by (simp add: lookup_previous_def lookup_previous_from_last [OF assms] Let_def)
  have greatest: "kov w \<le> kov (last us)" if "ordered kov us" "w \<in> set us" for us w
    using that by (induction us rule: rev_induct) (auto simp: less_imp_le)
  have "ordered kov ?vs" using assms by (simp add: ordered_def sorted_wrt_map sorted_wrt_filter)
  note last = greatest [OF this]
  show "lookup_previous kov k t = None \<longleftrightarrow> (\<forall>w\<in>set (inorder t). k < kov w)"
    by (auto simp: prev filter_empty_conv not_le)
  have inj: "u = w" if "u \<in> set (inorder t)" "w \<in> set (inorder t)" "kov u = kov w" for u w
    using assms that key_map_Some by (metis option.inject)
  show "lookup_previous kov k t = Some v \<longleftrightarrow>
    v \<in> set (inorder t) \<and> kov v \<le> k \<and> (\<forall>w\<in>set (inorder t). kov w \<le> k \<longrightarrow> kov w \<le> kov v)"
  proof
    assume "lookup_previous kov k t = Some v"
    then have v: "?vs \<noteq> []" "v = last ?vs" by (auto simp: prev split: if_splits)
    then have "v \<in> set ?vs" using last_in_set by blast
    with v last show "v \<in> set (inorder t) \<and> kov v \<le> k \<and> (\<forall>w\<in>set (inorder t). kov w \<le> k \<longrightarrow> kov w \<le> kov v)" by auto
  next
    assume v: "v \<in> set (inorder t) \<and> kov v \<le> k \<and> (\<forall>w\<in>set (inorder t). kov w \<le> k \<longrightarrow> kov w \<le> kov v)"
    then have ne: "?vs \<noteq> []" by (auto simp: filter_empty_conv)
    then have "last ?vs \<in> set ?vs" by (rule last_in_set)
    with v last [of v] have "kov (last ?vs) = kov v" "last ?vs \<in> set (inorder t)" by (auto intro: antisym)
    with inj v ne show "lookup_previous kov k t = Some v" by (simp add: prev)
  qed
qed

subsection \<open>The interface of an ordered map\<close>

text \<open>
  What the users of \<open>ImmutableMap\<close> rely on: an invariant that every operation keeps, and the map that
  the tree stands for, which every operation changes at one key.
\<close>

locale ordered_map =
  fixes empty :: "'t" and insert :: "'v \<Rightarrow> 't \<Rightarrow> 't" and replace :: "'v \<Rightarrow> 't \<Rightarrow> 't" and remove :: "'k \<Rightarrow> 't \<Rightarrow> 't"
    and lookup :: "'k \<Rightarrow> 't \<Rightarrow> 'v option" and key :: "'v \<Rightarrow> 'k"
    and content :: "'t \<Rightarrow> ('k \<rightharpoonup> 'v)" and invar :: "'t \<Rightarrow> bool"
  assumes invar_empty: "invar empty" and content_empty: "content empty = Map.empty"
    and invar_insert: "invar t \<Longrightarrow> invar (insert v t)"
    and content_insert: "invar t \<Longrightarrow> content (insert v t) = (if content t (key v) = None then (content t)(key v \<mapsto> v) else content t)"
    and invar_replace: "invar t \<Longrightarrow> invar (replace v t)"
    and content_replace: "invar t \<Longrightarrow> content (replace v t) = (content t)(key v \<mapsto> v)"
    and invar_remove: "invar t \<Longrightarrow> invar (remove k t)"
    and content_remove: "invar t \<Longrightarrow> content (remove k t) = (content t)(k := None)"
    and lookup_content: "invar t \<Longrightarrow> lookup k t = content t k"
begin

lemmas map_laws = invar_empty content_empty invar_insert content_insert invar_replace content_replace
  invar_remove content_remove lookup_content

lemma lookup_after_replace: "invar t \<Longrightarrow> lookup k (replace v t) = (if k = key v then Some v else lookup k t)"
  by (simp add: map_laws)

lemma lookup_after_insert:
  "invar t \<Longrightarrow> lookup k (insert v t) = (if k = key v \<and> lookup k t = None then Some v else lookup k t)"
  by (auto simp: map_laws)

lemma lookup_after_remove: "invar t \<Longrightarrow> lookup k' (remove k t) = (if k' = k then None else lookup k' t)"
  by (simp add: map_laws)

lemma lookup_replace_all:
  "invar t \<Longrightarrow> invar (fold replace vs t) \<and>
    lookup k (fold replace vs t) = (case find (\<lambda>v. key v = k) (rev vs) of Some v \<Rightarrow> Some v | None \<Rightarrow> lookup k t)"
proof (induction vs rule: rev_induct)
  case (snoc v vs)
  then show ?case by (auto simp: lookup_after_replace invar_replace)
qed simp

end

definition tree_ok :: "('v \<Rightarrow> 'k::linorder) \<Rightarrow> 'v node \<Rightarrow> bool" where
  "tree_ok kov t \<longleftrightarrow> balanced t \<and> ordered kov (inorder t)"

definition tree_map :: "('v \<Rightarrow> 'k::linorder) \<Rightarrow> 'v node \<Rightarrow> ('k \<rightharpoonup> 'v)" where
  "tree_map kov t = key_map kov (inorder t)"

interpretation tm: ordered_map Terminator "tree_insert kov" "tree_replace kov" "tree_remove kov" "tree_lookup kov"
  kov "tree_map kov" "tree_ok kov" for kov :: "'v \<Rightarrow> 'k::linorder"
proof (unfold_locales, goal_cases)
  case (3 t v)
  then show ?case using tree_insert_balanced [of t kov v] by (simp add: tree_ok_def grown_def tree_insert_ordered)
next
  case (5 t v)
  then show ?case using tree_replace_balanced [of t kov v] by (simp add: tree_ok_def grown_def tree_replace_ordered)
next
  case (7 t k)
  then show ?case using tree_remove_balanced [of t kov k] by (simp add: tree_ok_def shrunk_def tree_remove_ordered)
qed (auto simp: tree_ok_def tree_map_def fun_eq_iff tree_insert_map tree_replace_map tree_remove_map tree_lookup_map)

end
