(* ===== verification/ImmutableIter.thy ===== *)
theory ImmutableIter
  imports ImmutableTree
begin

text \<open>
  The iterators of \<open>klee/include/klee/Internal/ADT/ImmutableTree.h\<close>: an iterator is the stack of
  nodes from the current node up to the root, empty at the end. The code compares node addresses
  to learn from which side it climbs; in a search tree the two sides of a node are different
  trees, so the comparison of trees answers the same. \<open>after\<close> is the list of values from the
  current one to the end, \<open>upto\<close> the list of values up to the current one.
\<close>

type_synonym 'v stack = "'v node list"

subsection \<open>Operations\<close>

fun push_left :: "'v node \<Rightarrow> 'v stack \<Rightarrow> 'v stack" where
  "push_left Terminator s = s"
| "push_left (Node l r v h) s = push_left l (Node l r v h # s)"

fun push_right :: "'v node \<Rightarrow> 'v stack \<Rightarrow> 'v stack" where
  "push_right Terminator s = s"
| "push_right (Node l r v h) s = push_right r (Node l r v h # s)"

definition it_begin :: "'v node \<Rightarrow> 'v stack" where
  "it_begin root = push_left root []"

definition it_end :: "'v node \<Rightarrow> 'v stack" where
  "it_end root = []"

fun climb_next :: "'v stack \<Rightarrow> 'v stack" where
  "climb_next (prev # n # s) = (if prev = left n then n # s else climb_next (n # s))"
| "climb_next _ = []"

fun climb_prev :: "'v stack \<Rightarrow> 'v stack" where
  "climb_prev (prev # n # s) = (if prev = right n then n # s else climb_prev (n # s))"
| "climb_prev _ = []"

text \<open>\<open>operator++\<close> asserts that the stack is not empty.\<close>

fun it_next :: "'v stack \<Rightarrow> 'v stack" where
  "it_next [] = []"
| "it_next (n # s) =
     (if isTerminator (right n) then climb_next (n # s)
      else push_left (left (right n)) (right n # n # s))"

fun it_prev :: "'v node \<Rightarrow> 'v stack \<Rightarrow> 'v stack" where
  "it_prev root [] = push_right root []"
| "it_prev root (n # s) =
     (if isTerminator (left n) then climb_prev (n # s)
      else push_right (right (left n)) (left n # n # s))"

fun it_deref :: "'v stack \<Rightarrow> 'v option" where
  "it_deref [] = None"
| "it_deref (n # s) = Some (nvalue n)"

text \<open>The descent of \<open>lower_bound\<close>; the flag is the early return on an equal key.\<close>

fun descend :: "('v \<Rightarrow> 'k::linorder) \<Rightarrow> 'k \<Rightarrow> 'v node \<Rightarrow> 'v stack \<Rightarrow> 'v stack \<times> bool" where
  "descend kov k Terminator s = (s, False)"
| "descend kov k (Node l r w h) s =
     (if k < kov w then descend kov k l (Node l r w h # s)
      else if kov w < k then descend kov k r (Node l r w h # s)
      else (Node l r w h # s, True))"

definition lower_bound :: "('v \<Rightarrow> 'k::linorder) \<Rightarrow> 'k \<Rightarrow> 'v node \<Rightarrow> 'v stack" where
  "lower_bound kov k root =
     (case descend kov k root [] of
        (s, True) \<Rightarrow> s
      | ([], False) \<Rightarrow> []
      | (n # s, False) \<Rightarrow> if kov (nvalue n) < k then it_next (n # s) else n # s)"

definition upper_bound :: "('v \<Rightarrow> 'k::linorder) \<Rightarrow> 'k \<Rightarrow> 'v node \<Rightarrow> 'v stack" where
  "upper_bound kov k root =
     (let it = lower_bound kov k root in
      case it_deref it of
        None \<Rightarrow> it
      | Some v \<Rightarrow> if \<not> k < kov v then it_next it else it)"

definition find_it :: "('v \<Rightarrow> 'k::linorder) \<Rightarrow> 'k \<Rightarrow> 'v node \<Rightarrow> 'v stack" where
  "find_it kov k root =
     (let it = lower_bound kov k root in
      case it_deref it of None \<Rightarrow> it_end root | Some v \<Rightarrow> if k < kov v then it_end root else it)"

subsection \<open>Positions\<close>

fun onward :: "'v stack \<Rightarrow> 'v list" where
  "onward (m # n # s) = (if m = left n then nvalue n # inorder (right n) @ onward (n # s) else onward (n # s))"
| "onward _ = []"

fun after :: "'v stack \<Rightarrow> 'v list" where
  "after [] = []"
| "after (n # s) = nvalue n # inorder (right n) @ onward (n # s)"

fun beneath :: "'v stack \<Rightarrow> 'v list" where
  "beneath (m # n # s) = (if m = right n then beneath (n # s) @ inorder (left n) @ [nvalue n] else beneath (n # s))"
| "beneath _ = []"

fun upto_it :: "'v stack \<Rightarrow> 'v list" where
  "upto_it [] = []"
| "upto_it (n # s) = beneath (n # s) @ inorder (left n) @ [nvalue n]"

text \<open>The stack is a path to the root of a tree whose nodes have two different sides.\<close>

fun path :: "'v node \<Rightarrow> 'v stack \<Rightarrow> bool" where
  "path root [] = True"
| "path root [n] = (n = root \<and> n \<noteq> Terminator)"
| "path root (m # n # s) = (m \<noteq> Terminator \<and> (m = left n \<or> m = right n) \<and> path root (n # s))"

definition proper :: "'v stack \<Rightarrow> bool" where
  "proper s \<longleftrightarrow> (\<forall>n\<in>set s. left n = right n \<longrightarrow> left n = Terminator)"

lemma ordered_sides:
  assumes "ordered kov (inorder n)"
  shows "ordered kov (inorder (left n))" "ordered kov (inorder (right n))"
    and "left n = right n \<Longrightarrow> left n = Terminator"
proof -
  show "ordered kov (inorder (left n))" "ordered kov (inorder (right n))" using assms by (cases n; simp)+
  show "left n = Terminator" if "left n = right n"
  proof (rule ccontr)
    assume "left n \<noteq> Terminator"
    then obtain x where x: "x \<in> set (inorder (left n))" using inorder_Nil [of "left n"] by (cases "inorder (left n)") auto
    from \<open>left n \<noteq> Terminator\<close> have "n = Node (left n) (right n) (nvalue n) (nheight n)" by (cases n) auto
    then have "ordered kov (inorder (left n) @ nvalue n # inorder (right n))" using assms by (metis inorder.simps(2))
    with x that show False by auto
  qed
qed

lemma path_ordered: "path root s \<Longrightarrow> ordered kov (inorder root) \<Longrightarrow> n \<in> set s \<Longrightarrow> ordered kov (inorder n)"
  by (induction root s arbitrary: n rule: path.induct) (auto intro: ordered_sides)

lemma path_proper: "path root s \<Longrightarrow> ordered kov (inorder root) \<Longrightarrow> proper s"
  unfolding proper_def using path_ordered ordered_sides(3) by metis

lemma node_eta: "n \<noteq> Terminator \<Longrightarrow> inorder n = inorder (left n) @ nvalue n # inorder (right n)"
  by (cases n) auto

lemma push_left_after: "left m = t \<Longrightarrow> after (push_left t (m # s)) = inorder t @ after (m # s)"
  by (induction t arbitrary: m s) auto

lemma push_right_upto: "right m = t \<Longrightarrow> upto_it (push_right t (m # s)) = upto_it (m # s) @ inorder t"
  by (induction t arbitrary: m s) auto

lemma push_path: "path root (m # s) \<Longrightarrow> left m = t \<Longrightarrow> path root (push_left t (m # s))"
  "path root (m # s) \<Longrightarrow> right m = t \<Longrightarrow> path root (push_right t (m # s))"
  by (induction t arbitrary: m s) auto

lemma begin_after: "after (it_begin root) = inorder root" "path root (it_begin root)"
  using push_left_after [of root "left root" "[]"] push_path(1) [of root root "[]" "left root"]
  by (cases root; simp add: it_begin_def)+

lemma climb_next_after: "after (climb_next s) = onward s" "path root s \<Longrightarrow> path root (climb_next s)"
  by (induction s rule: climb_next.induct) auto

lemma climb_prev_upto: "upto_it (climb_prev s) = beneath s" "path root s \<Longrightarrow> path root (climb_prev s)"
  by (induction s rule: climb_prev.induct) auto

lemma it_next_after:
  assumes "path root s" "proper s"
  shows "after (it_next s) = tl (after s)" "path root (it_next s)"
proof -
  show "after (it_next s) = tl (after s)"
  proof (cases s)
    case (Cons n s')
    show ?thesis
    proof (cases "right n = Terminator")
      case True
      then show ?thesis using Cons climb_next_after(1) [of s] by (simp add: isTerminator_def)
    next
      case False
      with assms(2) Cons have "right n \<noteq> left n" by (auto simp: proper_def)
      with False Cons push_left_after [of "right n" "left (right n)" "n # s'"] node_eta [OF False]
      show ?thesis by (simp add: isTerminator_def)
    qed
  qed simp
  show "path root (it_next s)"
  proof (cases s)
    case (Cons n s')
    with assms(1) show ?thesis
      using climb_next_after(2) [of root s] push_path(1) [of root "right n" "n # s'" "left (right n)"]
      by (auto simp: isTerminator_def)
  qed simp
qed

lemma upto_after:
  assumes "path root s" "proper s" "s \<noteq> []"
  shows "inorder root = upto_it s @ tl (after s)"
  using assms
proof (induction root s rule: path.induct)
  case (2 root n)
  then have "root \<noteq> Terminator" by auto
  from node_eta [OF this] "2.prems" show ?case by auto
next
  case (3 root m n s)
  then have IH: "inorder root = upto_it (n # s) @ tl (after (n # s))" by (simp add: proper_def)
  have m: "inorder m = inorder (left m) @ nvalue m # inorder (right m)" using 3 by (intro node_eta) simp
  have "left n \<noteq> right n" using "3.prems" by (auto simp: proper_def)
  with IH m "3.prems" show ?case by auto
qed simp

lemma it_prev_upto:
  assumes "path root s" "proper s" "s \<noteq> []"
  shows "upto_it (it_prev root s) = butlast (upto_it s)" "path root (it_prev root s)"
proof -
  obtain n s' where s: "s = n # s'" using assms(3) by (cases s) auto
  show "upto_it (it_prev root s) = butlast (upto_it s)"
  proof (cases "left n = Terminator")
    case True
    then show ?thesis using s climb_prev_upto(1) [of s] by (simp add: isTerminator_def butlast_append)
  next
    case False
    with assms(2) s have "right n \<noteq> left n" by (auto simp: proper_def)
    with False s push_right_upto [of "left n" "right (left n)" "n # s'"] node_eta [OF False]
    show ?thesis by (simp add: isTerminator_def butlast_append)
  qed
  show "path root (it_prev root s)"
    using s assms(1) climb_prev_upto(2) [of root s] push_path(2) [of root "left n" "n # s'" "right (left n)"]
    by (auto simp: isTerminator_def)
qed

lemma last_begin:
  "upto_it (it_prev root []) = inorder root" "path root (it_prev root [])"
  using push_right_upto [of root "right root" "[]"] push_path(2) [of root root "[]" "right root"]
  by (cases root; simp)+

lemma descend_path:
  "path root (t # s) \<or> t = Terminator \<and> path root s \<Longrightarrow> path root (fst (descend kov k t s))"
proof (induction t arbitrary: s)
  case (Node l r w h)
  have "path root (l # Node l r w h # s) \<or> l = Terminator \<and> path root (Node l r w h # s)"
    "path root (r # Node l r w h # s) \<or> r = Terminator \<and> path root (Node l r w h # s)"
    using Node.prems by auto
  with Node.IH [of "Node l r w h # s"] Node.prems show ?case by (auto simp del: path.simps)
next
  case Terminator
  then show ?case by (cases s) auto
qed

lemma dropWhile_split: "(\<forall>u\<in>set us. P u) \<Longrightarrow> dropWhile P (us @ vs) = dropWhile P vs"
  "\<not> P w \<Longrightarrow> dropWhile P (us @ w # vs) = dropWhile P us @ w # vs"
  by (induction us) auto

lemma descend_after:
  "ordered kov (inorder t) \<Longrightarrow> t \<noteq> Terminator \<Longrightarrow> descend kov k t s = (s', found) \<Longrightarrow>
    s' \<noteq> [] \<and> (if \<not> found \<and> kov (nvalue (hd s')) < k then tl (after s') else after s') =
      dropWhile (\<lambda>v. kov v < k) (inorder t) @ onward (t # s)"
proof (induction t arbitrary: s)
  case (Node l r w h)
  let ?t = "Node l r w h"
  from Node.prems(1) have o: "ordered kov (inorder l)" "ordered kov (inorder r)"
    "\<forall>u\<in>set (inorder l). kov u < kov w" "\<forall>v\<in>set (inorder r). kov w < kov v"
    by (auto simp: ordered_node simp del: ordered_simps(2,3))
  have sides: "r \<noteq> Terminator \<Longrightarrow> r \<noteq> l" using ordered_sides(3) [OF Node.prems(1)] by auto
  consider (less) "k < kov w" | (greater) "kov w < k" | (equal) "k = kov w" by fastforce
  then show ?case
  proof cases
    case less
    then have dw: "dropWhile (\<lambda>v. kov v < k) (inorder ?t) = dropWhile (\<lambda>v. kov v < k) (inorder l) @ w # inorder r"
      by (simp add: dropWhile_split)
    show ?thesis
    proof (cases "l = Terminator")
      case True
      with less Node.prems(3) dw show ?thesis by auto
    next
      case False
      from less Node.prems(3) have "descend kov k l (?t # s) = (s', found)" by simp
      from Node.IH(1) [OF o(1) False this] dw show ?thesis by simp
    qed
  next
    case greater
    then have nk: "\<not> k < kov w" by simp
    from greater have dw: "dropWhile (\<lambda>v. kov v < k) (inorder ?t) = dropWhile (\<lambda>v. kov v < k) (inorder r)"
    proof -
      have "\<forall>u\<in>set (inorder l). kov u < k" using o(3) greater less_trans by blast
      with greater show ?thesis by (simp add: dropWhile_split(1))
    qed
    show ?thesis
    proof (cases "r = Terminator")
      case True
      with greater nk Node.prems(3) dw show ?thesis by auto
    next
      case False
      from greater nk Node.prems(3) have "descend kov k r (?t # s) = (s', found)" by simp
      from Node.IH(2) [OF o(2) False this] dw sides False show ?thesis by simp
    qed
  next
    case equal
    then have "dropWhile (\<lambda>v. kov v < k) (inorder ?t) = w # inorder r"
      using o(3) by (auto simp: dropWhile_split)
    with equal Node.prems(3) show ?thesis by auto
  qed
qed simp

lemma lower_bound_path:
  assumes "ordered kov (inorder root)"
  shows "path root (lower_bound kov k root)"
    and "after (lower_bound kov k root) = dropWhile (\<lambda>v. kov v < k) (inorder root)"
proof -
  obtain s found where d: "descend kov k root [] = (s, found)" by fastforce
  have p: "path root s" using descend_path [of root root "[]" kov k] d by (cases root) auto
  note next_s = it_next_after [OF p path_proper [OF p assms]]
  show "path root (lower_bound kov k root)"
    using p next_s(2) d by (auto simp: lower_bound_def split: list.split bool.split)
  show "after (lower_bound kov k root) = dropWhile (\<lambda>v. kov v < k) (inorder root)"
  proof (cases "root = Terminator")
    case True
    then show ?thesis by (simp add: lower_bound_def)
  next
    case False
    from descend_after [OF assms False d] next_s(1) d show ?thesis
      by (cases s; cases found) (auto simp: lower_bound_def)
  qed
qed

lemma it_deref_after: "it_deref s = (case after s of [] \<Rightarrow> None | v # vs \<Rightarrow> Some v)"
  by (cases s) auto

lemma dropWhile_le:
  assumes "ordered kov vs"
  shows "(case dropWhile (\<lambda>v. kov v < k) vs of [] \<Rightarrow> [] | v # ws \<Rightarrow> if \<not> k < kov v then ws else v # ws) =
    dropWhile (\<lambda>v. kov v \<le> k) vs"
  using assms
proof (induction vs)
  case (Cons v vs)
  show ?case
  proof (cases "kov v < k")
    case True
    with Cons show ?thesis by simp
  next
    case False
    have "kov v \<le> k \<Longrightarrow> dropWhile (\<lambda>v. kov v \<le> k) vs = vs"
      using Cons.prems False by (cases vs) auto
    with False show ?thesis by (auto simp: not_less)
  qed
qed simp

lemma step_over:
  "after it = vs \<Longrightarrow> after (it_next it) = tl vs \<Longrightarrow>
    after (case it_deref it of None \<Rightarrow> it | Some v \<Rightarrow> if \<not> k < kov v then it_next it else it) =
    (case vs of [] \<Rightarrow> [] | v # ws \<Rightarrow> if \<not> k < kov v then ws else v # ws)"
  by (cases vs) (simp_all add: it_deref_after)

lemma upper_bound_path:
  assumes "ordered kov (inorder root)"
  shows "path root (upper_bound kov k root)"
    and "after (upper_bound kov k root) = dropWhile (\<lambda>v. kov v \<le> k) (inorder root)"
proof -
  note lb = lower_bound_path [OF assms, of k]
  note nx = it_next_after [OF lb(1) path_proper [OF lb(1) assms]]
  show "path root (upper_bound kov k root)"
    using lb(1) nx(2) by (simp add: upper_bound_def Let_def split: option.split)
  show "after (upper_bound kov k root) = dropWhile (\<lambda>v. kov v \<le> k) (inorder root)"
    unfolding upper_bound_def Let_def dropWhile_le [OF assms, of k, symmetric]
    by (rule step_over [OF lb(2)]) (simp add: nx(1) lb(2))
qed

lemma find_it_after:
  assumes "ordered kov (inorder root)"
  shows "it_deref (find_it kov k root) = tree_lookup kov k root"
proof -
  have first: "(case dropWhile (\<lambda>v. kov v < k) vs of [] \<Rightarrow> None | v # ws \<Rightarrow> if k < kov v then None else Some v) = key_map kov vs k"
    if "ordered kov vs" for vs
    using that
  proof (induction vs)
    case (Cons v vs)
    have "k \<le> kov v \<Longrightarrow> key_map kov vs k = None" using Cons.prems by (auto simp: key_map_None)
    with Cons show ?case by (auto simp: not_less)
  qed simp
  have "it_deref (find_it kov k root) =
      (case after (lower_bound kov k root) of [] \<Rightarrow> None | v # ws \<Rightarrow> if k < kov v then None else Some v)"
    by (auto simp: find_it_def Let_def it_deref_after it_end_def split: list.split)
  then show ?thesis by (simp only: lower_bound_path(2) [OF assms] first [OF assms] tree_lookup_map [OF assms])
qed

lemma iterate_path:
  assumes "ordered kov (inorder root)"
  shows "path root ((it_next ^^ i) (it_begin root)) \<and> after ((it_next ^^ i) (it_begin root)) = drop i (inorder root)"
proof (induction i)
  case (Suc i)
  then have p: "path root ((it_next ^^ i) (it_begin root))" by simp
  from it_next_after [OF p path_proper [OF p assms]] Suc show ?case by (simp add: drop_Suc tl_drop)
qed (simp add: begin_after)

subsection \<open>Properties\<close>

text \<open>
  C8: every operation keeps the tree a balanced search tree: the stored heights are right, the
  heights of siblings differ by at most two, and the keys increase in order and do not repeat.
\<close>

theorem tree_invariant:
  assumes "tree_ok kov t"
  shows "tree_ok kov (tree_insert kov v t) \<and> tree_ok kov (tree_replace kov v t) \<and> tree_ok kov (tree_remove kov k t) \<and>
    (\<forall>t' m. popMin t = Some (t', m) \<or> popMax t = Some (t', m) \<longrightarrow> tree_ok kov t')"
proof -
  have "tree_ok kov t'" if "popMin t = Some (t', m) \<or> popMax t = Some (t', m)" for t' m
  proof -
    from assms have ok: "balanced t" "ordered kov (inorder t)" by (simp_all add: tree_ok_def)
    from that show ?thesis
    proof
      assume "popMin t = Some (t', m)"
      with popMin_balanced [OF ok(1) this] popMin_inorder [OF this] ok(2) show ?thesis by (simp add: tree_ok_def shrunk_def)
    next
      assume "popMax t = Some (t', m)"
      with popMax_balanced [OF ok(1) this] popMax_inorder [OF this] ok(2) show ?thesis by (simp add: tree_ok_def shrunk_def)
    qed
  qed
  with assms show ?thesis by (simp add: tm.invar_insert tm.invar_replace tm.invar_remove)
qed

definition sample_tree :: "(nat \<times> string) node" where
  "sample_tree = fold (tree_replace fst) [(3, ''c''), (1, ''a''), (7, ''g''), (5, ''e'')] Terminator"

lemma sample_tree_ok [simp]: "tree_ok fst sample_tree"
  unfolding sample_tree_def using tm.lookup_replace_all tm.invar_empty by blast

theorem tree_invariant_witness:
  "tree_ok fst sample_tree \<and> tree_ok fst (tree_remove fst 3 sample_tree)"
  using tree_invariant [of fst sample_tree _ 3] by simp

text \<open>
  C9: the tree is a finite map: \<open>insert\<close> adds a binding for a new key only, \<open>replace\<close> sets the
  binding, \<open>remove\<close> deletes it, and no other key is affected.
\<close>

theorem tree_refines_map:
  assumes "tree_ok kov t"
  shows "tree_lookup kov k (tree_insert kov v t) = (if k = kov v \<and> tree_lookup kov k t = None then Some v else tree_lookup kov k t) \<and>
    tree_lookup kov k (tree_replace kov v t) = (if k = kov v then Some v else tree_lookup kov k t) \<and>
    tree_lookup kov k (tree_remove kov k' t) = (if k = k' then None else tree_lookup kov k t)"
  using assms tm.lookup_after_insert [of kov t] tm.lookup_after_replace [of kov t] tm.lookup_after_remove [of kov t] by simp

theorem tree_refines_map_witness:
  "tree_ok fst sample_tree \<and> tree_lookup fst 9 (tree_replace fst (9, ''i'') sample_tree) = Some (9, ''i'')"
  using tree_refines_map [of fst sample_tree 9 "(9, ''i'')"] by simp



text \<open>
  \<open>lookup_previous\<close> returns the value with the greatest key that is at most the given key, and
  nothing exactly when every key is greater.
\<close>

theorem lookup_previous_correct:
  assumes "tree_ok kov t"
  shows "(lookup_previous kov k t = Some v \<longleftrightarrow> v \<in> set (inorder t) \<and> kov v \<le> k \<and>
      (\<forall>w\<in>set (inorder t). kov w \<le> k \<longrightarrow> kov w \<le> kov v)) \<and>
    (lookup_previous kov k t = None \<longleftrightarrow> (\<forall>w\<in>set (inorder t). k < kov w))"
  using lookup_previous_greatest [of kov t k] assms by (simp add: tree_ok_def)

theorem lookup_previous_correct_witness:
  "tree_ok fst sample_tree \<and> lookup_previous fst 0 sample_tree = None"
proof -
  have "\<forall>w\<in>set (inorder sample_tree). 0 < fst w" by (simp add: sample_tree_def mkNode_def balance_def)
  with lookup_previous_correct [of fst sample_tree 0] show ?thesis by simp
qed

text \<open>
  C11: iterating from \<open>begin\<close> visits the values in key order, each once, and ends after the last one.
\<close>

theorem iteration_in_order:
  assumes "tree_ok kov t"
  shows "it_deref ((it_next ^^ i) (it_begin t)) = (if i < node_size t then Some (inorder t ! i) else None)"
  using iterate_path [of kov t i] assms
  by (auto simp: tree_ok_def it_deref_after node_size_inorder Cons_nth_drop_Suc [symmetric])

theorem iteration_in_order_witness:
  "tree_ok fst sample_tree \<and> it_deref ((it_next ^^ 0) (it_begin sample_tree)) = Some (inorder sample_tree ! 0)"
proof -
  have "0 < node_size sample_tree" by (simp add: sample_tree_def mkNode_def balance_def)
  with iteration_in_order [of fst sample_tree 0] show ?thesis by simp
qed

text \<open>
  \<open>lower_bound\<close> is the position of the first key that is not less than the given one,
  \<open>upper_bound\<close> that of the first greater key, \<open>find\<close> agrees with \<open>lookup\<close>, and a step back from a
  position other than the first leads to the preceding value.
\<close>

theorem bounds_correct:
  assumes "tree_ok kov t"
  shows "after (lower_bound kov k t) = dropWhile (\<lambda>v. kov v < k) (inorder t) \<and>
    after (upper_bound kov k t) = dropWhile (\<lambda>v. kov v \<le> k) (inorder t) \<and>
    it_deref (find_it kov k t) = tree_lookup kov k t \<and>
    upto_it (it_prev t (it_end t)) = inorder t \<and>
    (lower_bound kov k t \<noteq> it_end t \<longrightarrow>
       upto_it (it_prev t (lower_bound kov k t)) = butlast (upto_it (lower_bound kov k t)))"
proof -
  have o: "ordered kov (inorder t)" using assms by (simp add: tree_ok_def)
  note lb = lower_bound_path [OF o, of k]
  show ?thesis
    using lb(2) upper_bound_path(2) [OF o, of k] find_it_after [OF o, of k] last_begin(1) [of t]
      it_prev_upto(1) [OF lb(1) path_proper [OF lb(1) o]] by (simp add: it_end_def del: it_prev.simps)
qed

theorem bounds_correct_witness:
  "tree_ok fst sample_tree \<and> after (upper_bound fst 3 sample_tree) = [(5, ''e''), (7, ''g'')]"
proof -
  have "inorder sample_tree = [(1, ''a''), (3, ''c''), (5, ''e''), (7, ''g'')]"
    by (simp add: sample_tree_def mkNode_def balance_def)
  with bounds_correct [of fst sample_tree 3] show ?thesis by simp
qed

end
