(* ===== verification/Bits.thy ===== *)
theory Bits
  imports Prelude
begin

text \<open>
  The bit tricks of \<open>klee/include/klee/util/Bits.h\<close> on 32-bit and 64-bit machine words. A failed assertion is
  \<open>None\<close>. The namespaces \<open>bits32\<close> and \<open>bits64\<close> hold the same code but for the index of a single bit; the
  common part is one definition over words of any length.
\<close>

definition maxValueOfNBits :: "nat \<Rightarrow> 'a::len word option" where
  "maxValueOfNBits N =
     (if LENGTH('a) < N then None
      else if N = 0 then Some 0
      else Some (drop_bit (LENGTH('a) - N) (- 1)))"

definition truncateToNBits :: "'a::len word \<Rightarrow> nat \<Rightarrow> 'a word option" where
  "truncateToNBits x N =
     (if N = 0 \<or> LENGTH('a) < N then None else Some (x AND drop_bit (LENGTH('a) - N) (- 1)))"

definition withoutRightmostBit :: "'a::len word \<Rightarrow> 'a word" where
  "withoutRightmostBit x = x AND (x - 1)"

definition isolateRightmostBit :: "'a::len word \<Rightarrow> 'a word" where
  "isolateRightmostBit x = x AND - x"

definition isPowerOfTwo :: "'a::len word \<Rightarrow> bool" where
  "isPowerOfTwo x \<longleftrightarrow> x \<noteq> 0 \<and> x AND (x - 1) = 0"

definition indexOfSingleBit32 :: "32 word \<Rightarrow> nat option" where
  "indexOfSingleBit32 x =
     (if withoutRightmostBit x \<noteq> 0 then None
      else let res = (if x AND 0xFFFF0000 \<noteq> 0 then 16 else 0) + (if x AND 0xFF00FF00 \<noteq> 0 then 8 else 0) +
                     (if x AND 0xF0F0F0F0 \<noteq> 0 then 4 else 0) + (if x AND 0xCCCCCCCC \<noteq> 0 then 2 else 0) +
                     (if x AND 0xAAAAAAAA \<noteq> 0 then 1 else 0)
           in if 32 \<le> res then None else if push_bit res 1 \<noteq> x then None else Some res)"

definition indexOfSingleBit64 :: "64 word \<Rightarrow> nat option" where
  "indexOfSingleBit64 x =
     (if x AND (x - 1) \<noteq> 0 then None
      else case indexOfSingleBit32 (ucast (x OR drop_bit 32 x)) of
        None \<Rightarrow> None
      | Some res \<Rightarrow>
          let res = (if x AND push_bit 32 0xFFFFFFFF \<noteq> 0 then res + 32 else res)
          in if 64 \<le> res then None else if push_bit res 1 \<noteq> x then None else Some res)"

definition indexOfRightmostBit32 :: "32 word \<Rightarrow> nat option" where
  "indexOfRightmostBit32 x = indexOfSingleBit32 (isolateRightmostBit x)"

definition indexOfRightmostBit64 :: "64 word \<Rightarrow> nat option" where
  "indexOfRightmostBit64 x = indexOfSingleBit64 (isolateRightmostBit x)"

subsection \<open>Low bits\<close>

lemma drop_all_ones: "N \<le> LENGTH('a) \<Longrightarrow> drop_bit (LENGTH('a) - N) (- 1 :: 'a::len word) = mask N"
  by (rule bit_word_eqI) (auto simp: bit_drop_bit_eq bit_mask_iff)

lemma maxValueOfNBits_mask: "N \<le> LENGTH('a) \<Longrightarrow> maxValueOfNBits N = Some (mask N :: 'a::len word)"
  by (simp add: maxValueOfNBits_def drop_all_ones)

lemma unat_mask: "N \<le> LENGTH('a) \<Longrightarrow> unat (mask N :: 'a::len word) = 2 ^ N - 1"
proof -
  assume "N \<le> LENGTH('a)"
  then have "uint (mask N :: 'a word) = mask N" by (simp only: uint_mask_eq min_absorb2)
  also have "\<dots> = 2 ^ N - 1" by (simp only: mask_eq_exp_minus_1)
  finally have "uint (mask N :: 'a word) = 2 ^ N - 1" .
  then have "int (unat (mask N :: 'a word)) = int (2 ^ N - 1)" by (simp add: of_nat_diff)
  then show ?thesis by (simp only: of_nat_eq_iff)
qed

lemma maxValueOfNBits_unat:
  "N \<le> LENGTH('a) \<Longrightarrow> map_option unat (maxValueOfNBits N :: 'a::len word option) = Some (2 ^ N - 1)"
  by (simp add: maxValueOfNBits_mask unat_mask)

lemma lowest_bit:
  assumes "x \<noteq> (0 :: 'a::len word)"
  obtains n where "n < LENGTH('a)" "bit x n" "\<And>i. i < n \<Longrightarrow> \<not> bit x i"
proof -
  from assms obtain k where "bit x k" by (auto simp: bit_eq_iff)
  then show thesis using that [of "LEAST n. bit x n"] LeastI [of "bit x" k] not_less_Least bit_imp_le_length by blast
qed

text \<open>Subtracting one clears the lowest set bit and sets all bits below it.\<close>

lemma minus_one_bits:
  assumes "bit x n" "\<And>i. i < n \<Longrightarrow> \<not> bit (x :: 'a::len word) i"
  shows "x - 1 = unset_bit n x OR mask n"
proof -
  have n: "n < LENGTH('a)" using assms(1) bit_imp_le_length by blast
  have "x = unset_bit n x OR push_bit n 1"
    by (rule bit_word_eqI) (use assms(1) in \<open>auto simp: bit_simps\<close>)
  also have "\<dots> = unset_bit n x + push_bit n 1"
    by (rule disjunctive_add_eq_or [symmetric], rule bit_word_eqI) (auto simp: bit_simps)
  also have "push_bit n 1 = mask n + (1 :: 'a word)"
    by (simp add: mask_eq_exp_minus_1 push_bit_of_1)
  finally have "x - 1 = unset_bit n x + mask n" by (simp add: algebra_simps)
  also have "\<dots> = unset_bit n x OR mask n"
    by (rule disjunctive_add_eq_or, rule bit_word_eqI) (use assms(2) in \<open>auto simp: bit_simps\<close>)
  finally show ?thesis .
qed

lemma withoutRightmostBit_unset:
  assumes "bit x n" "\<And>i. i < n \<Longrightarrow> \<not> bit x i"
  shows "withoutRightmostBit x = unset_bit n x"
proof -
  have "withoutRightmostBit x = x AND (unset_bit n x OR mask n)"
    by (simp only: withoutRightmostBit_def minus_one_bits [OF assms])
  also have "\<dots> = unset_bit n x"
    by (rule bit_word_eqI) (use assms in \<open>auto simp: bit_simps\<close>)
  finally show ?thesis .
qed

lemma isolateRightmostBit_push:
  assumes "bit x n" "\<And>i. i < n \<Longrightarrow> \<not> bit x i"
  shows "isolateRightmostBit x = push_bit n 1"
proof -
  have "- x = NOT (unset_bit n x OR mask n)"
    using minus_one_bits [OF assms] by (simp add: minus_eq_not_minus_1)
  then have "isolateRightmostBit x = x AND NOT (unset_bit n x OR mask n)" by (simp only: isolateRightmostBit_def)
  also have "\<dots> = push_bit n 1"
    by (rule bit_word_eqI) (use assms in \<open>auto simp: bit_simps\<close>)
  finally show ?thesis .
qed

lemma isPowerOfTwo_iff: "isPowerOfTwo x \<longleftrightarrow> (\<exists>n<LENGTH('a). x = push_bit n (1 :: 'a::len word))"
proof
  assume p: "isPowerOfTwo x"
  then obtain n where n: "n < LENGTH('a)" "bit x n" "\<And>i. i < n \<Longrightarrow> \<not> bit x i"
    using lowest_bit unfolding isPowerOfTwo_def by metis
  from p have "unset_bit n x = 0"
    using withoutRightmostBit_unset [OF n(2,3)] by (simp add: isPowerOfTwo_def withoutRightmostBit_def)
  then have "\<not> bit x i" if "i \<noteq> n" for i
    using that bit_unset_bit_iff [of n x i] by simp
  then have "x = push_bit n 1"
    by (intro bit_word_eqI) (use n in \<open>auto simp: bit_simps\<close>)
  with n(1) show "\<exists>n<LENGTH('a). x = push_bit n 1" by blast
next
  assume "\<exists>n<LENGTH('a). x = push_bit n 1"
  then obtain n where n: "n < LENGTH('a)" "x = push_bit n 1" by blast
  then have b: "bit x n" "\<And>i. i < n \<Longrightarrow> \<not> bit x i" by (auto simp: bit_simps)
  have "unset_bit n x = 0" by (rule bit_word_eqI) (auto simp: n bit_simps)
  then show "isPowerOfTwo x"
    using withoutRightmostBit_unset [OF b] b(1) by (auto simp: isPowerOfTwo_def withoutRightmostBit_def)
qed

lemma indexOfSingleBit32_all: "list_all (\<lambda>n. indexOfSingleBit32 (push_bit n 1) = Some n) [0..<32]"
  by code_simp

lemma indexOfSingleBit32_push: "n < 32 \<Longrightarrow> indexOfSingleBit32 (push_bit n 1) = Some n"
  using indexOfSingleBit32_all by (simp add: list_all_iff)

lemma indexOfSingleBit64_push:
  assumes "n < 64"
  shows "indexOfSingleBit64 (push_bit n 1) = Some n"
proof -
  let ?x = "push_bit n 1 :: 64 word"
  have power: "?x AND (?x - 1) = 0" "?x \<noteq> 0" using isPowerOfTwo_iff [of ?x] assms by (auto simp: isPowerOfTwo_def)
  have high: "?x AND push_bit 32 0xFFFFFFFF = (if 32 \<le> n then ?x else 0)"
  proof -
    have ones: "(0xFFFFFFFF :: 64 word) = mask 32" by (simp add: mask_eq_exp_minus_1)
    show ?thesis unfolding ones by (rule bit_word_eqI) (use assms in \<open>auto simp: bit_simps\<close>)
  qed
  have low: "ucast (?x OR drop_bit 32 ?x) = (push_bit (n mod 32) 1 :: 32 word)"
  proof (cases "n < 32")
    case False
    then have "n mod 32 = n - 32" using assms by (simp add: le_mod_geq)
    then show ?thesis by (intro bit_word_eqI) (use assms False in \<open>auto simp: bit_simps\<close>)
  qed (intro bit_word_eqI, auto simp: bit_simps)
  have "indexOfSingleBit32 (push_bit (n mod 32) 1) = Some (n mod 32)" by (rule indexOfSingleBit32_push) simp
  moreover have "(if ?x AND push_bit 32 0xFFFFFFFF \<noteq> 0 then n mod 32 + 32 else n mod 32) = n"
    unfolding high using power(2) assms by (auto simp: le_mod_geq)
  ultimately show ?thesis using power(1) low assms by (simp add: indexOfSingleBit64_def Let_def)
qed

lemmas indexOfSingleBit_push = indexOfSingleBit32_push indexOfSingleBit64_push

subsection \<open>What the operations compute\<close>


text \<open>
  C16: The index of a bit. For a nonzero word \<open>isolateRightmostBit\<close> leaves its lowest set bit alone,
  \<open>withoutRightmostBit\<close> clears just that bit, and \<open>indexOfRightmostBit\<close> returns its index without failing an
  assertion, at 32 and at 64 bits.
\<close>

theorem rightmost_bit:
  assumes "x \<noteq> (0 :: 32 word)" "y \<noteq> (0 :: 64 word)"
  shows "(\<exists>n. indexOfRightmostBit32 x = Some n \<and> bit x n \<and> (\<forall>i<n. \<not> bit x i) \<and>
      isolateRightmostBit x = push_bit n 1 \<and> withoutRightmostBit x = unset_bit n x) \<and>
    (\<exists>n. indexOfRightmostBit64 y = Some n \<and> bit y n \<and> (\<forall>i<n. \<not> bit y i) \<and>
      isolateRightmostBit y = push_bit n 1 \<and> withoutRightmostBit y = unset_bit n y)"
proof
  obtain n where n: "n < LENGTH(32)" "bit x n" "\<And>i. i < n \<Longrightarrow> \<not> bit x i" using lowest_bit [OF assms(1)] by blast
  note iso = isolateRightmostBit_push [OF n(2,3)]
  have "n < 32" using n(1) by simp
  then have "indexOfRightmostBit32 x = Some n"
    unfolding indexOfRightmostBit32_def using iso indexOfSingleBit32_push by metis
  with iso withoutRightmostBit_unset [OF n(2,3)] n
  show "\<exists>n. indexOfRightmostBit32 x = Some n \<and> bit x n \<and> (\<forall>i<n. \<not> bit x i) \<and>
      isolateRightmostBit x = push_bit n 1 \<and> withoutRightmostBit x = unset_bit n x" by blast
next
  obtain n where n: "n < LENGTH(64)" "bit y n" "\<And>i. i < n \<Longrightarrow> \<not> bit y i" using lowest_bit [OF assms(2)] by blast
  note iso = isolateRightmostBit_push [OF n(2,3)]
  have "n < 64" using n(1) by simp
  then have "indexOfRightmostBit64 y = Some n"
    unfolding indexOfRightmostBit64_def using iso indexOfSingleBit64_push by metis
  with iso withoutRightmostBit_unset [OF n(2,3)] n
  show "\<exists>n. indexOfRightmostBit64 y = Some n \<and> bit y n \<and> (\<forall>i<n. \<not> bit y i) \<and>
      isolateRightmostBit y = push_bit n 1 \<and> withoutRightmostBit y = unset_bit n y" by blast
qed

theorem rightmost_bit_witness: "indexOfRightmostBit32 6 = Some 1 \<and> isolateRightmostBit (6 :: 64 word) = 2"
proof -
  from rightmost_bit [of 6 6] obtain m n where
    m: "indexOfRightmostBit32 6 = Some m" "bit (6 :: 32 word) m" "\<forall>i<m. \<not> bit (6 :: 32 word) i"
    and n: "isolateRightmostBit (6 :: 64 word) = push_bit n 1" "bit (6 :: 64 word) n" "\<forall>i<n. \<not> bit (6 :: 64 word) i"
    by auto
  have bits: "\<not> bit (6 :: 32 word) 0" "bit (6 :: 32 word) 1" "\<not> bit (6 :: 64 word) 0" "bit (6 :: 64 word) 1"
    by (simp_all add: bit_numeral_word_iff One_nat_def)
  have "m \<noteq> 0" "\<not> 1 < m" "n \<noteq> 0" "\<not> 1 < n" using m(2,3) n(2,3) bits by (metis, metis, metis, metis)
  then have "m = 1" "n = 1" by simp_all
  with m(1) n(1) show ?thesis by simp
qed

end
