(* ===== verification/ExprOrder.thy ===== *)
theory ExprOrder
  imports ExprEval "HOL-Library.List_Lexorder"
begin

text \<open>
  Hashing and structural comparison of expressions (\<open>Expr::computeHash\<close> and \<open>Expr::compare\<close> with
  their overrides in \<open>klee/lib/Expr/Expr.cpp\<close>, \<open>klee/lib/Expr/Updates.cpp\<close> and
  \<open>klee/include/klee/Expr/Expr.h\<close>), which order the sets of expressions the solvers use as keys.
  LLVM's \<open>hash_value\<close> for constants wider than 64 bits is the argument \<open>wide\<close>. The comparison is
  shown to be a total order that identifies structurally equal expressions, and makes \<open>expr\<close> an
  instance of \<open>linorder\<close>.
\<close>

subsection \<open>Kinds and hash values\<close>

fun getKind :: "expr \<Rightarrow> nat" where
  "getKind (ConstantExpr c) = 0"
| "getKind (NotOptimizedExpr e) = 1"
| "getKind (ReadExpr a us i) = 3"
| "getKind (SelectExpr c t f) = 4"
| "getKind (ConcatExpr l r) = 5"
| "getKind (ExtractExpr e off w) = 6"
| "getKind (ZExtExpr e w) = 7"
| "getKind (SExtExpr e w) = 8"
| "getKind (NotExpr e) = 9"
| "getKind (BinaryExpr k l r) = (case k of Add \<Rightarrow> 10 | Sub \<Rightarrow> 11 | Mul \<Rightarrow> 12 | UDiv \<Rightarrow> 13 | SDiv \<Rightarrow> 14
     | URem \<Rightarrow> 15 | SRem \<Rightarrow> 16 | And \<Rightarrow> 17 | Or \<Rightarrow> 18 | Xor \<Rightarrow> 19 | Shl \<Rightarrow> 20 | LShr \<Rightarrow> 21 | AShr \<Rightarrow> 22
     | Eq \<Rightarrow> 23 | Ne \<Rightarrow> 24 | Ult \<Rightarrow> 25 | Ule \<Rightarrow> 26 | Ugt \<Rightarrow> 27 | Uge \<Rightarrow> 28 | Slt \<Rightarrow> 29 | Sle \<Rightarrow> 30
     | Sgt \<Rightarrow> 31 | Sge \<Rightarrow> 32)"

type_synonym hash = "32 word"

definition MAGIC :: hash where
  "MAGIC = 39"

text \<open>A \<open>char\<close> is signed: its value enters the hash sign-extended.\<close>

definition char_word :: "char \<Rightarrow> hash" where
  "char_word c = word_of_int (sgn_val 8 (of_char c))"

definition name_hash :: "string \<Rightarrow> hash" where
  "name_hash name = fold (\<lambda>c res. res * MAGIC + char_word c) name 0"

definition array_hash :: "array \<Rightarrow> hash" where
  "array_hash a = name_hash (arr_name a) * MAGIC + of_nat (arr_size a)"

fun kids_hash :: "hash \<Rightarrow> hash list \<Rightarrow> hash" where
  "kids_hash res [] = res"
| "kids_hash res (h # hs) = kids_hash ((push_bit 1 res) XOR (h * MAGIC)) hs"

primrec hash :: "(apint \<Rightarrow> hash) \<Rightarrow> expr \<Rightarrow> hash" and update_hash :: "(apint \<Rightarrow> hash) \<Rightarrow> updates \<Rightarrow> hash" where
  "hash wide (ConstantExpr c) =
     (if getBitWidth c \<le> 64 then word_of_int (getLimitedValue c (2 ^ 64 - 1)) else wide c) XOR
     (of_nat (getBitWidth c) * MAGIC)"
| "hash wide (NotOptimizedExpr e) = kids_hash (of_nat (getKind (NotOptimizedExpr e)) * MAGIC) [hash wide e]"
| "hash wide (ReadExpr a us i) =
     (hash wide i * MAGIC) XOR (name_hash (arr_name a) XOR update_hash wide us)"
| "hash wide (SelectExpr c t f) =
     kids_hash (of_nat (getKind (SelectExpr c t f)) * MAGIC) [hash wide c, hash wide t, hash wide f]"
| "hash wide (ConcatExpr l r) = kids_hash (of_nat (getKind (ConcatExpr l r)) * MAGIC) [hash wide l, hash wide r]"
| "hash wide (ExtractExpr e off w) = ((of_nat off * MAGIC) XOR (of_nat w * MAGIC)) XOR (hash wide e * MAGIC)"
| "hash wide (NotExpr e) = hash wide e * MAGIC * of_nat (getKind (NotExpr e))"
| "hash wide (ZExtExpr e w) = (of_nat w * MAGIC) XOR (hash wide e * MAGIC)"
| "hash wide (SExtExpr e w) = (of_nat w * MAGIC) XOR (hash wide e * MAGIC)"
| "hash wide (BinaryExpr k l r) = kids_hash (of_nat (getKind (BinaryExpr k l r)) * MAGIC) [hash wide l, hash wide r]"
| "update_hash wide NullNode = 0"
| "update_hash wide (UpdateNode i v n) = (hash wide i XOR hash wide v) XOR update_hash wide n"

subsection \<open>Comparison\<close>

definition cmp :: "'a::linorder \<Rightarrow> 'a \<Rightarrow> int" where
  "cmp a b = (if a = b then 0 else if a < b then -1 else 1)"

definition or_else :: "int \<Rightarrow> int \<Rightarrow> int" where
  "or_else res next = (if res \<noteq> 0 then res else next)"

fun first_nonzero :: "int list \<Rightarrow> int" where
  "first_nonzero [] = 0"
| "first_nonzero (r # rs) = or_else r (first_nonzero rs)"

text \<open>
  Arrays of one name are ordered by their address. In the program an address is one object; the
  remaining fields come last so that the order is total on all records of the model.
\<close>

definition name_key :: "string \<Rightarrow> int list" where
  "name_key = map of_char"

definition address_key :: "array \<Rightarrow> int list" where
  "address_key a = [int (arr_addr a), int (arr_size a), int (arr_domain a), int (arr_range a)] @
     concat (map (\<lambda>c. [int (getBitWidth c), uval c]) (constantValues a))"

definition UpdateList_compare :: "(expr \<Rightarrow> expr \<Rightarrow> int) \<Rightarrow> array \<Rightarrow> updates \<Rightarrow> array \<Rightarrow> updates \<Rightarrow> int" where
  "UpdateList_compare compare root head root' head' =
     or_else (cmp (name_key (arr_name root)) (name_key (arr_name root')))
    (or_else (cmp (address_key root) (address_key root'))
    (or_else (cmp (getSize head) (getSize head'))
      (first_nonzero (map2 compare (upd_exprs head) (upd_exprs head')))))"

fun compareContents :: "(expr \<Rightarrow> expr \<Rightarrow> int) \<Rightarrow> expr \<Rightarrow> expr \<Rightarrow> int" where
  "compareContents compare (ConstantExpr c) (ConstantExpr d) =
     or_else (cmp (getBitWidth c) (getBitWidth d)) (cmp (uval c) (uval d))"
| "compareContents compare (ReadExpr a us i) (ReadExpr b vs j) = UpdateList_compare compare a us b vs"
| "compareContents compare (ConcatExpr l r) (ConcatExpr l' r') =
     cmp (getWidth (ConcatExpr l r)) (getWidth (ConcatExpr l' r'))"
| "compareContents compare (ExtractExpr e off w) (ExtractExpr e' off' w') = or_else (cmp off off') (cmp w w')"
| "compareContents compare (ZExtExpr e w) (ZExtExpr e' w') = cmp w w'"
| "compareContents compare (SExtExpr e w) (SExtExpr e' w') = cmp w w'"
| "compareContents compare _ _ = 0"

lemma map2_cong:
  "xs = xs' \<Longrightarrow> ys = ys' \<Longrightarrow> (\<And>x y. x \<in> set xs' \<Longrightarrow> y \<in> set ys' \<Longrightarrow> f x y = g x y) \<Longrightarrow> map2 f xs ys = map2 g xs' ys'"
  by (auto dest: set_zip_leftD set_zip_rightD)

lemma compareContents_cong [fundef_cong]:
  assumes "a = a'" "b = b'" "\<And>x y. x \<in> set (inner a') \<Longrightarrow> y \<in> set (inner b') \<Longrightarrow> f x y = g x y"
  shows "compareContents f a b = compareContents g a' b'"
proof (cases "(g, a', b')" rule: compareContents.cases)
  case (2 compare a us i b vs j)
  then have "map2 f (upd_exprs us) (upd_exprs vs) = map2 g (upd_exprs us) (upd_exprs vs)"
    by (intro map2_cong) (use assms(3) in auto)
  with 2 assms(1,2) show ?thesis by (simp add: UpdateList_compare_def del: map_eq_conv)
qed (use assms(1,2) in auto)

text \<open>The shortcut on identical objects and the memo of equal pairs only return 0 earlier.\<close>

function expr_compare :: "(apint \<Rightarrow> hash) \<Rightarrow> expr \<Rightarrow> expr \<Rightarrow> int" where
  "expr_compare wide a b =
     or_else (cmp (getKind a) (getKind b))
    (or_else (cmp (hash wide a) (hash wide b))
    (or_else (compareContents (expr_compare wide) a b)
      (first_nonzero (map (\<lambda>(x, y). expr_compare wide x y) (zip (kids a) (kids b))))))"
  by pat_completeness auto
termination
proof (relation "measure (\<lambda>(wide, a, b). size a)", goal_cases)
  case (3 wide a b p x y)
  then show ?case using kids_inner inner_size set_zip_leftD by fastforce
qed (auto dest: inner_size)

declare expr_compare.simps [simp del]

subsection \<open>The comparison as a lexicographic order\<close>

lemma cmp_simps [simp]: "cmp a a = 0" "cmp a b = 0 \<longleftrightarrow> a = b" "cmp a b < 0 \<longleftrightarrow> a < b"
  by (auto simp: cmp_def)

lemma cmp_swap: "cmp b a = - cmp a b"
  by (auto simp: cmp_def)

lemma or_else_simps [simp]: "or_else 0 r = r" "or_else r 0 = r" "or_else r s = 0 \<longleftrightarrow> r = 0 \<and> s = 0"
  by (auto simp: or_else_def)

lemma or_else_assoc: "or_else (or_else r s) t = or_else r (or_else s t)"
  by (simp add: or_else_def)

lemma cmp_Cons: "cmp (x # xs) (y # ys) = or_else (cmp x y) (cmp xs ys)"
  by (auto simp: cmp_def or_else_def)

lemma cmp_key: "cmp [i] [j] = cmp i (j::int)" "cmp (int m) (int n) = cmp m n" "cmp (uint v) (uint w) = cmp v w"
  by (simp_all add: cmp_def word_less_def word_uint_eq_iff)

text \<open>
  A prefix code over lists of integers: kind and hash, the attributes, then the codes of the updates
  and of the kids.
\<close>

fun attributes :: "expr \<Rightarrow> int list list" where
  "attributes (ConstantExpr c) = [[int (getBitWidth c)], [uval c]]"
| "attributes (ReadExpr a us i) = [name_key (arr_name a), address_key a, [int (getSize us)]]"
| "attributes (ConcatExpr l r) = [[int (getWidth (ConcatExpr l r))]]"
| "attributes (ExtractExpr e off w) = [[int off], [int w]]"
| "attributes (ZExtExpr e w) = [[int w]]"
| "attributes (SExtExpr e w) = [[int w]]"
| "attributes _ = []"

fun updates_of :: "expr \<Rightarrow> expr list" where
  "updates_of (ReadExpr a us i) = upd_exprs us"
| "updates_of e = []"

lemma updates_of_inner: "set (updates_of e) \<subseteq> set (inner e)"
  by (cases e) auto

function code :: "(apint \<Rightarrow> hash) \<Rightarrow> expr \<Rightarrow> int list list" where
  "code wide e = [int (getKind e)] # [uint (hash wide e)] # attributes e @
     concat (map (code wide) (updates_of e)) @ concat (map (code wide) (kids e))"
  by pat_completeness auto
termination
  by (relation "measure (\<lambda>(wide, e). size e)") (use updates_of_inner kids_inner inner_size in fastforce)+

declare code.simps [simp del]

lemma kind_cases:
  assumes "getKind a = getKind b"
  obtains c d where "a = ConstantExpr c" "b = ConstantExpr d"
  | x y where "a = NotOptimizedExpr x" "b = NotOptimizedExpr y"
  | r us i r' us' i' where "a = ReadExpr r us i" "b = ReadExpr r' us' i'"
  | c t f c' t' f' where "a = SelectExpr c t f" "b = SelectExpr c' t' f'"
  | l r l' r' where "a = ConcatExpr l r" "b = ConcatExpr l' r'"
  | x m v y n w where "a = ExtractExpr x m v" "b = ExtractExpr y n w"
  | x y where "a = NotExpr x" "b = NotExpr y"
  | x v y w where "a = ZExtExpr x v" "b = ZExtExpr y w"
  | x v y w where "a = SExtExpr x v" "b = SExtExpr y w"
  | k l r l' r' where "a = BinaryExpr k l r" "b = BinaryExpr k l' r'"
proof -
  have ge: "10 \<le> getKind (BinaryExpr k l r)" for k l r
    by (cases k) simp_all
  have ne: "n < 10 \<Longrightarrow> getKind (BinaryExpr k l r) = n \<longleftrightarrow> False" "n < 10 \<Longrightarrow> n = getKind (BinaryExpr k l r) \<longleftrightarrow> False" for k l r n
    using ge [of k l r] by (simp_all del: getKind.simps)
  have inj: "k = k'" if "getKind (BinaryExpr k l r) = getKind (BinaryExpr k' l' r')" for k l r k' l' r'
    using that by (cases k; cases k') simp_all
  show thesis
  proof (cases a)
    case (BinaryExpr k l r)
    with assms ne that(10) inj show thesis by (cases b) (simp_all del: getKind.simps(10), blast)
  qed (use assms ne that(1-9) in \<open>cases b; simp del: getKind.simps(10)\<close>)+
qed

lemma upd_exprs_length: "length (upd_exprs us) = 2 * getSize us"
  by (induction us rule: updates_induct) auto

lemma codes_cmp:
  assumes "length us = length vs"
    and "\<And>x y xs ys. x \<in> set us \<Longrightarrow> cmp (code wide x @ xs) (code wide y @ ys) = or_else (expr_compare wide x y) (cmp xs ys)"
  shows "cmp (concat (map (code wide) us) @ xs) (concat (map (code wide) vs) @ ys) =
    or_else (first_nonzero (map2 (expr_compare wide) us vs)) (cmp xs ys)"
  using assms by (induction us vs rule: list_induct2) (simp_all add: or_else_assoc)

text \<open>Comparing two expressions is comparing their codes lexicographically.\<close>

lemma code_cmp: "cmp (code wide a @ xs) (code wide b @ ys) = or_else (expr_compare wide a b) (cmp xs ys)"
proof (induction a arbitrary: b xs ys rule: expr_size_induct)
  case (smaller a)
  have codes: "cmp (concat (map (code wide) us) @ xs) (concat (map (code wide) vs) @ ys) =
      or_else (first_nonzero (map2 (expr_compare wide) us vs)) (cmp xs ys)"
    if "length us = length vs" "set us \<subseteq> set (inner a)" for us vs xs ys
    using that(2) smaller inner_size by (intro codes_cmp that(1)) blast
  show ?case
  proof (cases "getKind a = getKind b")
    case False
    then show ?thesis
      by (simp add: code.simps [of wide a] code.simps [of wide b] expr_compare.simps [of wide a b]
          cmp_Cons cmp_key or_else_def)
  next
    case True
    have kids: "length (kids a) = length (kids b)" using True by (cases rule: kind_cases) simp_all
    have contents: "cmp (attributes a @ concat (map (code wide) (updates_of a)) @ xs)
        (attributes b @ concat (map (code wide) (updates_of b)) @ ys) =
      or_else (compareContents (expr_compare wide) a b) (cmp xs ys)" for xs ys
      using True
    proof (cases rule: kind_cases)
      case (3 r us i r' us' i')
      show ?thesis
      proof (cases "getSize us = getSize us'")
        case True
        then have "length (upd_exprs us) = length (upd_exprs us')" by (simp add: upd_exprs_length)
        moreover have "set (upd_exprs us) \<subseteq> set (inner a)" using 3 by auto
        ultimately show ?thesis
          using codes [of "upd_exprs us" "upd_exprs us'"] 3 True
          by (simp add: UpdateList_compare_def cmp_Cons cmp_key or_else_assoc)
      next
        case False
        then show ?thesis
          using 3 by (simp add: UpdateList_compare_def cmp_Cons cmp_key or_else_assoc) (simp add: or_else_def)
      qed
    qed (simp_all add: cmp_Cons cmp_key or_else_assoc del: of_nat_add)
    show ?thesis
      using contents codes [OF kids kids_inner]
      by (simp add: code.simps [of wide a] code.simps [of wide b] expr_compare.simps [of wide a b]
          cmp_Cons cmp_key or_else_assoc)
  qed
qed

lemma compare_code: "expr_compare wide a b = cmp (code wide a) (code wide b)"
  using code_cmp [of wide a "[]" b "[]"] by simp

subsection \<open>Expressions that compare equal are equal\<close>

lemma of_char_int_inj: "of_char c = (of_char d :: int) \<Longrightarrow> c = d"
  by simp

lemma name_key_inj: "name_key s = name_key t \<Longrightarrow> s = t"
  unfolding name_key_def by (rule map_injective [OF _ injI]) (assumption, rule of_char_int_inj)

lemma apint_key_inj:
  "concat (map (\<lambda>c. [int (getBitWidth c), uval c]) cs) = concat (map (\<lambda>c. [int (getBitWidth c), uval c]) ds) \<Longrightarrow> cs = ds"
proof (induction cs arbitrary: ds)
  case Nil
  then show ?case by (cases ds) auto
next
  case (Cons c cs)
  then show ?case by (cases ds) (auto intro: apint.expand)
qed

lemma address_key_inj: "arr_name a = arr_name b \<Longrightarrow> address_key a = address_key b \<Longrightarrow> a = b"
  by (rule array.equality) (auto simp: address_key_def dest: apint_key_inj)

lemma first_nonzero_zero: "first_nonzero rs = 0 \<longleftrightarrow> (\<forall>r\<in>set rs. r = 0)"
  by (induction rs) auto

lemma upd_exprs_inj: "upd_exprs us = upd_exprs vs \<Longrightarrow> us = vs"
proof (induction us arbitrary: vs rule: updates_induct)
  case NullNode
  then show ?case by (cases vs) auto
next
  case (UpdateNode i v n)
  then show ?case by (cases vs) auto
qed

lemma map2_zero_eq:
  assumes "length us = length vs" "first_nonzero (map2 f us vs) = 0" "\<And>x y. x \<in> set us \<Longrightarrow> f x y = 0 \<Longrightarrow> x = y"
  shows "us = vs"
  using assms by (induction us vs rule: list_induct2) auto

lemma compare_zero: "expr_compare wide a b = 0 \<Longrightarrow> a = b"
proof (induction a arbitrary: b rule: expr_size_induct)
  case (smaller a)
  have eqs: "us = vs" if "length us = length vs" "first_nonzero (map2 (expr_compare wide) us vs) = 0" "set us \<subseteq> set (inner a)" for us vs
    using that smaller.IH inner_size by (intro map2_zero_eq [of us vs "expr_compare wide"]) blast+
  have kind: "getKind a = getKind b" and contents: "compareContents (expr_compare wide) a b = 0"
    and kids0: "first_nonzero (map2 (expr_compare wide) (kids a) (kids b)) = 0"
    using smaller.prems unfolding expr_compare.simps [of wide a b] by auto
  have kids: "kids a = kids b"
    by (rule eqs [OF _ kids0 kids_inner]) (use kind in \<open>cases rule: kind_cases; simp\<close>)
  show ?case
    using kind
  proof (cases rule: kind_cases)
    case (3 r us i r' us' i')
    then have "arr_name r = arr_name r'" "address_key r = address_key r'" "getSize us = getSize us'"
      "first_nonzero (map2 (expr_compare wide) (upd_exprs us) (upd_exprs us')) = 0"
      using contents by (auto simp: UpdateList_compare_def dest: name_key_inj)
    then show ?thesis
      using eqs [of "upd_exprs us" "upd_exprs us'"] 3 kids
      by (auto simp: upd_exprs_length dest: address_key_inj upd_exprs_inj)
  qed (use kids contents in \<open>auto intro: apint.expand\<close>)
qed

lemma code_inj: "code wide a = code wide b \<longleftrightarrow> a = b"
  using compare_zero [of wide a b] compare_code [of wide a b] by auto

subsection \<open>The order on expressions\<close>

text \<open>
  The order that sets of expressions are kept in. Every hash function of wide constants gives an
  order; the instance fixes one of them.
\<close>

instantiation expr :: linorder
begin

definition less_eq_expr :: "expr \<Rightarrow> expr \<Rightarrow> bool" where
  "less_eq_expr a b \<longleftrightarrow> expr_compare (\<lambda>_. 0) a b \<le> 0"

definition less_expr :: "expr \<Rightarrow> expr \<Rightarrow> bool" where
  "less_expr a b \<longleftrightarrow> expr_compare (\<lambda>_. 0) a b < 0"

instance
proof
  fix a b c :: expr
  have le: "x \<le> y \<longleftrightarrow> code (\<lambda>_. 0) x \<le> code (\<lambda>_. 0) y" for x y :: expr
    by (auto simp: less_eq_expr_def compare_code cmp_def)
  show "a < b \<longleftrightarrow> a \<le> b \<and> \<not> b \<le> a" by (auto simp: less_expr_def le compare_code)
  show "a \<le> a" by (simp add: le)
  show "a \<le> b \<Longrightarrow> b \<le> c \<Longrightarrow> a \<le> c" by (simp add: le)
  show "a \<le> b \<Longrightarrow> b \<le> a \<Longrightarrow> a = b" unfolding le using code_inj by (metis order_antisym)
  show "a \<le> b \<or> b \<le> a" by (auto simp: le)
qed

end

text \<open>
  C17: \<open>Expr::compare\<close> is a total order whatever the hash of wide constants: it answers -1, 0 or 1, it
  answers 0 exactly for structurally equal expressions, swapping the arguments negates the answer, and it
  is transitive. Hash values only decide the order, never equality.
\<close>

theorem compare_total_order:
  "expr_compare wide a b \<in> {-1, 0, 1} \<and>
   (expr_compare wide a b = 0 \<longleftrightarrow> a = b) \<and>
   expr_compare wide b a = - expr_compare wide a b \<and>
   (expr_compare wide a b < 0 \<and> expr_compare wide b c < 0 \<longrightarrow> expr_compare wide a c < 0)"
  using cmp_swap [of "code wide b" "code wide a"] by (auto simp: compare_code code_inj cmp_def)

theorem compare_total_order_witness:
  "expr_compare (\<lambda>_. 0) (const8 1) (const8 2) < 0 \<and> expr_compare (\<lambda>_. 0) (const8 2) (sample_read 0) < 0 \<and>
   expr_compare (\<lambda>_. 0) (const8 1) (sample_read 0) < 0"
proof -
  have "expr_compare (\<lambda>_. 0) (const8 1) (const8 2) < 0" "expr_compare (\<lambda>_. 0) (const8 2) (sample_read 0) < 0"
    by (simp_all add: expr_compare.simps const8_def sample_read_def mkAPInt_def getLimitedValue_def MAGIC_def cmp_def or_else_def)
  then show ?thesis using compare_total_order [of "\<lambda>_. 0" "const8 1" "const8 2" "sample_read 0"] by blast
qed

end
