(* ===== verification/ExprUtil.thy ===== *)
theory ExprUtil
  imports ExprEval "HOL-Library.Multiset"
begin

text \<open>
  The collectors of \<open>klee/lib/Expr/ExprUtil.cpp\<close>: the symbolic arrays an expression reads
  (\<open>findSymbolicObjects\<close>), its constant arrays (\<open>ConstantArrayFinder\<close>) and its reads (\<open>findReads\<close>, a worklist with
  a set of visited expressions). The value of an expression depends only on the arrays that are found.
\<close>

declare One_nat_def [simp del]

subsection \<open>Symbolic objects\<close>

text \<open>
  The visitor appends an array the first time it meets it: the updates of a read first, then its root, then its
  index. Its table of visited expressions only skips repetitions.
\<close>

definition add_object :: "(array \<Rightarrow> bool) \<Rightarrow> array \<Rightarrow> array list \<Rightarrow> array list" where
  "add_object P root objects = (if P root \<and> root \<notin> set objects then objects @ [root] else objects)"

primrec finder_visit :: "(array \<Rightarrow> bool) \<Rightarrow> expr \<Rightarrow> array list \<Rightarrow> array list"
  and finder_updates :: "(array \<Rightarrow> bool) \<Rightarrow> updates \<Rightarrow> array list \<Rightarrow> array list" where
  "finder_visit P (ConstantExpr c) objects = objects"
| "finder_visit P (NotOptimizedExpr e) objects = finder_visit P e objects"
| "finder_visit P (ReadExpr root us i) objects = finder_visit P i (add_object P root (finder_updates P us objects))"
| "finder_visit P (SelectExpr c t f) objects = finder_visit P f (finder_visit P t (finder_visit P c objects))"
| "finder_visit P (ConcatExpr l r) objects = finder_visit P r (finder_visit P l objects)"
| "finder_visit P (ExtractExpr e off w) objects = finder_visit P e objects"
| "finder_visit P (NotExpr e) objects = finder_visit P e objects"
| "finder_visit P (ZExtExpr e w) objects = finder_visit P e objects"
| "finder_visit P (SExtExpr e w) objects = finder_visit P e objects"
| "finder_visit P (BinaryExpr k l r) objects = finder_visit P r (finder_visit P l objects)"
| "finder_updates P NullNode objects = objects"
| "finder_updates P (UpdateNode i v n) objects = finder_updates P n (finder_visit P v (finder_visit P i objects))"

definition findSymbolicObjects :: "expr list \<Rightarrow> array list" where
  "findSymbolicObjects es = fold (finder_visit isSymbolicArray) es []"

definition ConstantArrayFinder :: "expr \<Rightarrow> array list" where
  "ConstantArrayFinder e = finder_visit isConstantArray e []"

subsection \<open>Reads\<close>

text \<open>Push an expression on the stack unless it is constant or was visited before; the head of the list is the back of the vector.\<close>

definition push_new :: "expr \<Rightarrow> expr list \<times> expr set \<Rightarrow> expr list \<times> expr set" where
  "push_new e w = (if isConst e \<or> e \<in> snd w then w else (e # fst w, insert e (snd w)))"

primrec push_all :: "expr list \<Rightarrow> expr list \<times> expr set \<Rightarrow> expr list \<times> expr set" where
  "push_all [] w = w"
| "push_all (e # es) w = push_all es (push_new e w)"

lemma push_all_set:
  "snd (push_all es w) = snd w \<union> {e \<in> set es. \<not> isConst e}"
  "set (fst (push_all es w)) = set (fst w) \<union> {e \<in> set es. \<not> isConst e \<and> e \<notin> snd w}"
  by (induction es arbitrary: w) (auto simp: push_new_def)

lemma push_all_mset: "\<exists>new. mset (fst (push_all es w)) = mset (fst w) + mset new \<and> set new \<subseteq> set es"
proof (induction es arbitrary: w)
  case (Cons e es)
  obtain new where new: "mset (fst (push_all es (push_new e w))) = mset (fst (push_new e w)) + mset new" "set new \<subseteq> set es"
    using Cons.IH by blast
  have "mset (fst (push_new e w)) = mset (fst w) + mset (if isConst e \<or> e \<in> snd w then [] else [e])"
    by (simp add: push_new_def)
  with new show ?case
    by (intro exI [of _ "(if isConst e \<or> e \<in> snd w then [] else [e]) @ new"]) auto
qed simp

lemma push_all_distinct:
  "distinct (fst w) \<Longrightarrow> set (fst w) \<subseteq> snd w \<Longrightarrow> distinct (fst (push_all es w)) \<and> set (fst (push_all es w)) \<subseteq> snd (push_all es w)"
proof (induction es arbitrary: w)
  case (Cons e es)
  then have "distinct (fst (push_new e w))" "set (fst (push_new e w)) \<subseteq> snd (push_new e w)"
    by (auto simp: push_new_def)
  from Cons.IH [OF this] show ?case by simp
qed simp

lemma replace_top_smaller:
  assumes "\<forall>x\<in>set es. size x < size e"
  shows "(fst (push_all es (stack, visited)), e # stack) \<in> inv_image (mult less_than) (\<lambda>st. mset (map size st))"
proof -
  obtain new where new: "mset (fst (push_all es (stack, visited))) = mset stack + mset new" "set new \<subseteq> set es"
    using push_all_mset [of es "(stack, visited)"] by auto
  have "mset (map size (fst (push_all es (stack, visited)))) = mset (map size stack) + mset (map size new)"
    by (metis new(1) image_mset_union mset_map)
  moreover have "\<forall>k\<in>#mset (map size new). \<exists>j\<in>#{#size e#}. (k, j) \<in> less_than" using new(2) assms by auto
  ultimately show ?thesis
    using one_step_implies_mult [of "{#size e#}" "mset (map size new)" less_than "mset (map size stack)"] by simp
qed

text \<open>The children to visit: the update list of a read only the first time its head is met.\<close>

fun next_exprs :: "bool \<Rightarrow> updates set \<Rightarrow> expr \<Rightarrow> expr list" where
  "next_exprs visitUpdates seen (ReadExpr root us i) = i # (if visitUpdates \<and> us \<notin> seen then upd_exprs us else [])"
| "next_exprs visitUpdates seen e = kids e"

fun seen_updates :: "bool \<Rightarrow> updates set \<Rightarrow> expr \<Rightarrow> updates set" where
  "seen_updates visitUpdates seen (ReadExpr root us i) = (if visitUpdates then insert us seen else seen)"
| "seen_updates visitUpdates seen e = seen"

lemma next_exprs_inner: "set (next_exprs vu seen e) \<subseteq> set (inner e)"
  by (cases e) auto

function findReads_loop :: "bool \<Rightarrow> expr list \<Rightarrow> expr set \<Rightarrow> updates set \<Rightarrow> expr list \<Rightarrow> expr list" where
  "findReads_loop vu [] visited seen results = results"
| "findReads_loop vu (e # stack) visited seen results =
     (let w = push_all (next_exprs vu seen e) (stack, visited)
      in findReads_loop vu (fst w) (snd w) (seen_updates vu seen e) (if isRead e then results @ [e] else results))"
  by pat_completeness auto
termination
proof (relation "inv_image (inv_image (mult less_than) (\<lambda>st. mset (map size st))) (\<lambda>(vu, stack, visited, seen, results). stack)", goal_cases)
  case 1
  show ?case by (intro wf_inv_image wf_mult wf_less_than)
next
  case (2 vu e stack visited seen results w)
  have "\<forall>x\<in>set (next_exprs vu seen e). size x < size e" using next_exprs_inner inner_size by blast
  from replace_top_smaller [OF this, of stack visited] 2 show ?case by simp
qed

declare findReads_loop.simps(2) [simp del]

definition findReads :: "expr \<Rightarrow> bool \<Rightarrow> expr list" where
  "findReads e visitUpdates =
     (let w = push_new e ([], {}) in findReads_loop visitUpdates (fst w) (snd w) {} [])"

subsection \<open>The arrays of an expression\<close>

primrec arrays :: "expr \<Rightarrow> array set" and arraysU :: "updates \<Rightarrow> array set" where
  "arrays (ConstantExpr c) = {}"
| "arrays (NotOptimizedExpr e) = arrays e"
| "arrays (ReadExpr root us i) = insert root (arraysU us \<union> arrays i)"
| "arrays (SelectExpr c t f) = arrays c \<union> arrays t \<union> arrays f"
| "arrays (ConcatExpr l r) = arrays l \<union> arrays r"
| "arrays (ExtractExpr e off w) = arrays e"
| "arrays (NotExpr e) = arrays e"
| "arrays (ZExtExpr e w) = arrays e"
| "arrays (SExtExpr e w) = arrays e"
| "arrays (BinaryExpr k l r) = arrays l \<union> arrays r"
| "arraysU NullNode = {}"
| "arraysU (UpdateNode i v n) = arrays i \<union> arrays v \<union> arraysU n"

lemma add_object_set: "set (add_object P root objects) = set objects \<union> {a. a = root \<and> P a}"
  and add_object_distinct: "distinct objects \<Longrightarrow> distinct (add_object P root objects)"
  by (auto simp: add_object_def)

lemma finder_set:
  "set (finder_visit P e objects) = set objects \<union> {a \<in> arrays e. P a}"
  "set (finder_updates P us objects) = set objects \<union> {a \<in> arraysU us. P a}"
  by (induction e and us arbitrary: objects and objects) (auto simp: add_object_set)

lemma finder_distinct:
  "distinct objects \<Longrightarrow> distinct (finder_visit P e objects)"
  "distinct objects \<Longrightarrow> distinct (finder_updates P us objects)"
  by (induction e and us arbitrary: objects and objects) (auto simp: add_object_distinct)

lemma finder_fold:
  "set (fold (finder_visit P) es objects) = set objects \<union> {a. P a \<and> (\<exists>e\<in>set es. a \<in> arrays e)}"
  "distinct objects \<Longrightarrow> distinct (fold (finder_visit P) es objects)"
  by (induction es arbitrary: objects) (auto simp: finder_set finder_distinct)

lemma findSymbolicObjects_set:
  "set (findSymbolicObjects es) = {a. isSymbolicArray a \<and> (\<exists>e\<in>set es. a \<in> arrays e)}"
  "distinct (findSymbolicObjects es)"
  by (simp_all add: findSymbolicObjects_def finder_fold)

lemma arrays_all_sub:
  "all_sub (\<lambda>e. case asRead e of Some (a, us, i) \<Rightarrow> Q a | None \<Rightarrow> True) e \<Longrightarrow> a \<in> arrays e \<Longrightarrow> Q a"
  "list_all (all_sub (\<lambda>e. case asRead e of Some (a, us, i) \<Rightarrow> Q a | None \<Rightarrow> True)) (upd_exprs us) \<Longrightarrow> a \<in> arraysU us \<Longrightarrow> Q a"
  by (induction e and us) (auto simp: all_sub_nodes)

lemma eval_arrays:
  "(\<And>a i. a \<in> arrays e \<Longrightarrow> take_bit (arr_range a) (\<rho> a i) = take_bit (arr_range a) (\<rho>' a i)) \<Longrightarrow> eval \<rho> e = eval \<rho>' e"
  "(\<And>b i. b \<in> insert a (arraysU us) \<Longrightarrow> take_bit (arr_range b) (\<rho> b i) = take_bit (arr_range b) (\<rho>' b i)) \<Longrightarrow>
     evalU \<rho> a iv us = evalU \<rho>' a iv us"
proof (induction e and us arbitrary: and a iv)
  case (ReadExpr root us i)
  have "eval \<rho> i = eval \<rho>' i" using ReadExpr.IH(2) ReadExpr.prems by simp
  moreover have "evalU \<rho> root v us = evalU \<rho>' root v us" for v
    by (rule ReadExpr.IH(1)) (use ReadExpr.prems in auto)
  ultimately show ?case by simp
next
  case (UpdateNode i v n)
  have "eval \<rho> i = eval \<rho>' i" "eval \<rho> v = eval \<rho>' v" using UpdateNode.IH(1,2) UpdateNode.prems by auto
  moreover have "evalU \<rho> a iv n = evalU \<rho>' a iv n"
    by (rule UpdateNode.IH(3)) (use UpdateNode.prems in auto)
  ultimately show ?case by simp
qed (simp_all add: initial_value_def)

subsection \<open>What a value depends on\<close>

definition cell :: "env \<Rightarrow> array \<Rightarrow> nat \<Rightarrow> int" where
  "cell \<rho> a i = take_bit (arr_range a) (\<rho> a i)"

text \<open>The executor's bounds checks: every read is inside its array.\<close>

definition in_bounds :: "env \<Rightarrow> expr \<Rightarrow> bool" where
  "in_bounds \<rho> = all_sub (\<lambda>e. case asRead e of Some (a, us, i) \<Rightarrow> nat (eval \<rho> i) < arr_size a | None \<Rightarrow> True)"

definition same_reads :: "env \<Rightarrow> env \<Rightarrow> expr \<Rightarrow> bool" where
  "same_reads \<rho> \<rho>' = all_sub (\<lambda>e. case asRead e of
     Some (a, us, i) \<Rightarrow> initial_value \<rho> a (nat (eval \<rho> i)) = initial_value \<rho>' a (nat (eval \<rho> i)) | None \<Rightarrow> True)"

lemma same_reads_nodes:
  "same_reads \<rho> \<rho>' (ReadExpr a us i) \<longleftrightarrow> initial_value \<rho> a (nat (eval \<rho> i)) = initial_value \<rho>' a (nat (eval \<rho> i)) \<and>
     same_reads \<rho> \<rho>' i \<and> list_all (same_reads \<rho> \<rho>') (upd_exprs us)"
  "same_reads \<rho> \<rho>' (ConstantExpr c)" "same_reads \<rho> \<rho>' (NotOptimizedExpr e) = same_reads \<rho> \<rho>' e"
  "same_reads \<rho> \<rho>' (SelectExpr x y z) \<longleftrightarrow> same_reads \<rho> \<rho>' x \<and> same_reads \<rho> \<rho>' y \<and> same_reads \<rho> \<rho>' z"
  "same_reads \<rho> \<rho>' (ConcatExpr l r) \<longleftrightarrow> same_reads \<rho> \<rho>' l \<and> same_reads \<rho> \<rho>' r"
  "same_reads \<rho> \<rho>' (ExtractExpr e off w) = same_reads \<rho> \<rho>' e" "same_reads \<rho> \<rho>' (NotExpr e) = same_reads \<rho> \<rho>' e"
  "same_reads \<rho> \<rho>' (ZExtExpr e w) = same_reads \<rho> \<rho>' e" "same_reads \<rho> \<rho>' (SExtExpr e w) = same_reads \<rho> \<rho>' e"
  "same_reads \<rho> \<rho>' (BinaryExpr k l r) \<longleftrightarrow> same_reads \<rho> \<rho>' l \<and> same_reads \<rho> \<rho>' r"
  by (simp_all add: same_reads_def all_sub_nodes)

lemma in_bounds_nodes:
  "in_bounds \<rho> (ReadExpr a us i) \<longleftrightarrow> nat (eval \<rho> i) < arr_size a \<and> in_bounds \<rho> i \<and> list_all (in_bounds \<rho>) (upd_exprs us)"
  "in_bounds \<rho> (ConstantExpr c)" "in_bounds \<rho> (NotOptimizedExpr e) = in_bounds \<rho> e"
  "in_bounds \<rho> (SelectExpr x y z) \<longleftrightarrow> in_bounds \<rho> x \<and> in_bounds \<rho> y \<and> in_bounds \<rho> z"
  "in_bounds \<rho> (ConcatExpr l r) \<longleftrightarrow> in_bounds \<rho> l \<and> in_bounds \<rho> r"
  "in_bounds \<rho> (ExtractExpr e off w) = in_bounds \<rho> e" "in_bounds \<rho> (NotExpr e) = in_bounds \<rho> e"
  "in_bounds \<rho> (ZExtExpr e w) = in_bounds \<rho> e" "in_bounds \<rho> (SExtExpr e w) = in_bounds \<rho> e"
  "in_bounds \<rho> (BinaryExpr k l r) \<longleftrightarrow> in_bounds \<rho> l \<and> in_bounds \<rho> r"
  by (simp_all add: in_bounds_def all_sub_nodes)

lemma same_reads_eval:
  "same_reads \<rho> \<rho>' e \<Longrightarrow> eval \<rho>' e = eval \<rho> e"
  "list_all (same_reads \<rho> \<rho>') (upd_exprs us) \<Longrightarrow> initial_value \<rho> a (nat iv) = initial_value \<rho>' a (nat iv) \<Longrightarrow>
     evalU \<rho>' a iv us = evalU \<rho> a iv us"
  by (induction e and us arbitrary: and a iv) (simp_all add: same_reads_nodes)

lemma same_reads_checks:
  "same_reads \<rho> \<rho>' e \<Longrightarrow> (div_safe \<rho>' e \<longleftrightarrow> div_safe \<rho> e) \<and> (in_bounds \<rho>' e \<longleftrightarrow> in_bounds \<rho> e)"
  "list_all (same_reads \<rho> \<rho>') (upd_exprs us) \<Longrightarrow>
     (div_safeU \<rho>' us \<longleftrightarrow> div_safeU \<rho> us) \<and> (list_all (in_bounds \<rho>') (upd_exprs us) \<longleftrightarrow> list_all (in_bounds \<rho>) (upd_exprs us))"
  by (induction e and us) (simp_all add: same_reads_nodes in_bounds_nodes, (metis same_reads_eval(1))+)

lemma in_bounds_same_reads:
  assumes "in_bounds \<rho> e" "\<And>a i. isSymbolicArray a \<Longrightarrow> i < arr_size a \<Longrightarrow> cell \<rho> a i = cell \<rho>' a i"
  shows "same_reads \<rho> \<rho>' e"
  using assms(1) unfolding in_bounds_def same_reads_def
  by (rule all_sub_mono)
    (use assms(2) in \<open>auto simp: initial_value_def isConstantArray_def cell_def split: option.splits prod.splits\<close>)

subsection \<open>The reads found are the reads reachable\<close>

definition next_of :: "bool \<Rightarrow> expr \<Rightarrow> expr list" where
  "next_of visitUpdates e = (if visitUpdates then inner e else kids e)"

inductive_set reach :: "bool \<Rightarrow> expr \<Rightarrow> expr set" for vu :: bool and e :: expr where
  start: "\<not> isConst e \<Longrightarrow> e \<in> reach vu e"
| step: "x \<in> reach vu e \<Longrightarrow> y \<in> set (next_of vu x) \<Longrightarrow> \<not> isConst y \<Longrightarrow> y \<in> reach vu e"

definition visited_closed :: "bool \<Rightarrow> expr set \<Rightarrow> expr set \<Rightarrow> bool" where
  "visited_closed vu done visited \<longleftrightarrow> (\<forall>x\<in>done. \<forall>y\<in>set (next_of vu x). \<not> isConst y \<longrightarrow> y \<in> visited)"

definition reads_inv :: "bool \<Rightarrow> expr \<Rightarrow> expr list \<Rightarrow> expr set \<Rightarrow> updates set \<Rightarrow> expr list \<Rightarrow> bool" where
  "reads_inv vu e0 stack visited seen results \<longleftrightarrow>
     distinct stack \<and> set stack \<subseteq> visited \<and> visited \<subseteq> reach vu e0 \<and> (\<not> isConst e0 \<longrightarrow> e0 \<in> visited) \<and>
     visited_closed vu (visited - set stack) visited \<and>
     (vu \<longrightarrow> (\<forall>us\<in>seen. \<forall>y\<in>set (upd_exprs us). \<not> isConst y \<longrightarrow> y \<in> visited)) \<and>
     distinct results \<and> set results = {x \<in> visited - set stack. isRead x}"

lemma next_exprs_cases:
  assumes "y \<in> set (next_of vu e)"
  shows "y \<in> set (next_exprs vu seen e) \<or> (\<exists>root us i. e = ReadExpr root us i \<and> vu \<and> us \<in> seen \<and> y \<in> set (upd_exprs us))"
  using assms by (cases e) (auto simp: next_of_def split: if_splits)

lemma next_exprs_next: "set (next_exprs vu seen e) \<subseteq> set (next_of vu e)"
  by (cases e) (auto simp: next_of_def)

lemma reads_inv_step:
  assumes inv: "reads_inv vu e0 (e # stack) visited seen results"
  defines "w \<equiv> push_all (next_exprs vu seen e) (stack, visited)"
  shows "reads_inv vu e0 (fst w) (snd w) (seen_updates vu seen e) (if isRead e then results @ [e] else results)"
proof -
  from inv have st: "distinct (e # stack)" "set (e # stack) \<subseteq> visited" and reach: "visited \<subseteq> reach vu e0"
    and closed: "visited_closed vu (visited - set (e # stack)) visited"
    and seen: "vu \<longrightarrow> (\<forall>us\<in>seen. \<forall>y\<in>set (upd_exprs us). \<not> isConst y \<longrightarrow> y \<in> visited)"
    and res: "distinct results" "set results = {x \<in> visited - set (e # stack). isRead x}"
    and e0: "\<not> isConst e0 \<longrightarrow> e0 \<in> visited"
    unfolding reads_inv_def by auto
  have V: "snd w = visited \<union> {y \<in> set (next_exprs vu seen e). \<not> isConst y}"
    and S: "set (fst w) = set stack \<union> {y \<in> set (next_exprs vu seen e). \<not> isConst y \<and> y \<notin> visited}"
    unfolding w_def by (simp_all add: push_all_set)
  have left: "snd w - set (fst w) = insert e (visited - set (e # stack))" using V S st by auto
  have "distinct (fst w)" "set (fst w) \<subseteq> snd w"
    using push_all_distinct [of "(stack, visited)" "next_exprs vu seen e"] st by (auto simp: w_def)
  moreover have "snd w \<subseteq> reach vu e0"
  proof -
    have "e \<in> reach vu e0" using st(2) reach by auto
    then have "y \<in> reach vu e0" if "y \<in> set (next_exprs vu seen e)" "\<not> isConst y" for y
      using that next_exprs_next by (blast intro: reach.step)
    then show ?thesis using V reach by blast
  qed
  moreover have "visited_closed vu (snd w - set (fst w)) (snd w)"
  proof -
    have "y \<in> snd w" if y: "y \<in> set (next_of vu e)" "\<not> isConst y" for y
      using next_exprs_cases [OF y(1), of seen] y(2) V seen by auto
    moreover have "visited \<subseteq> snd w" using V by blast
    ultimately show ?thesis using closed unfolding left visited_closed_def by blast
  qed
  moreover have "vu \<longrightarrow> (\<forall>us\<in>seen_updates vu seen e. \<forall>y\<in>set (upd_exprs us). \<not> isConst y \<longrightarrow> y \<in> snd w)"
    using seen V by (cases e) auto
  moreover have "distinct (if isRead e then results @ [e] else results)" using res st by auto
  moreover have "set (if isRead e then results @ [e] else results) = {x \<in> snd w - set (fst w). isRead x}"
    unfolding left using res(2) by auto
  ultimately show ?thesis unfolding reads_inv_def using e0 V by auto
qed

lemma findReads_loop_inv:
  "reads_inv vu e0 stack visited seen results \<Longrightarrow>
     distinct (findReads_loop vu stack visited seen results) \<and>
     set (findReads_loop vu stack visited seen results) = {x \<in> reach vu e0. isRead x}"
proof (induction vu stack visited seen results rule: findReads_loop.induct)
  case (1 vu visited seen results)
  have "x \<in> visited" if "x \<in> reach vu e0" for x
    using that "1.prems" by induction (auto simp: reads_inv_def visited_closed_def)
  then have "visited = reach vu e0" using "1.prems" by (auto simp: reads_inv_def)
  then show ?case using "1.prems" by (auto simp: reads_inv_def)
next
  case (2 vu e stack visited seen results)
  from "2.IH" [OF refl reads_inv_step [OF "2.prems"]] show ?case
    by (subst (1 2) findReads_loop.simps(2)) (simp add: Let_def)
qed

lemma findReads_facts: "distinct (findReads e vu) \<and> set (findReads e vu) = {x \<in> reach vu e. isRead x}"
proof -
  let ?w = "push_new e ([], {})"
  have "reads_inv vu e (fst ?w) (snd ?w) {} []"
    by (auto simp: reads_inv_def push_new_def visited_closed_def intro: reach.start)
  from findReads_loop_inv [OF this] show ?thesis by (simp add: findReads_def Let_def)
qed

lemmas findReads_set = findReads_facts [THEN conjunct2]

text \<open>
  C18: \<open>findReads\<close> ends and returns every read of the expression once: with \<open>visitUpdates\<close> the reads reached through
  children, read indices and update lists, without it those reached through children only. The tables of visited
  expressions and of visited update lists lose none.
\<close>

theorem findReads_exact:
  "distinct (findReads e visitUpdates) \<and> set (findReads e visitUpdates) = {x \<in> reach visitUpdates e. isRead x}"
  by (rule findReads_facts)

text \<open>
  \<open>findSymbolicObjects\<close> returns, without repetition, the symbolic arrays of the expressions, and these and the constant
  arrays are all that their values depend on: two environments that agree on them give every expression the same
  value.
\<close>

theorem findSymbolicObjects_complete:
  assumes "e \<in> set es"
    and "\<And>a i. a \<in> set (findSymbolicObjects es) \<or> isConstantArray a \<Longrightarrow> \<rho> a i = \<rho>' a i"
  shows "distinct (findSymbolicObjects es) \<and> (\<forall>a\<in>set (findSymbolicObjects es). isSymbolicArray a) \<and> eval \<rho> e = eval \<rho>' e"
proof (intro conjI)
  have "\<rho> a i = \<rho>' a i" if "a \<in> arrays e" for a i
    by (rule assms(2)) (use that assms(1) in \<open>auto simp: findSymbolicObjects_set isConstantArray_def\<close>)
  then show "eval \<rho> e = eval \<rho>' e" by (intro eval_arrays(1)) simp
qed (simp_all add: findSymbolicObjects_set)

theorem findSymbolicObjects_complete_witness:
  "findSymbolicObjects [sample_read 0, sample_read 1] = [sample_array] \<and>
   eval (\<lambda>a i. if arr_addr a = 2 \<and> isSymbolicArray a then 7 else 1) (sample_read 1) = eval (\<lambda>a i. 1) (sample_read 1)"
proof -
  have objs: "findSymbolicObjects [sample_read 0, sample_read 1] = [sample_array]"
    by (simp add: findSymbolicObjects_def sample_read_def sample_index_def add_object_def isSymbolicArray_def sample_array_def)
  have "arr_addr sample_array = 1" by (simp add: sample_array_def)
  then have "(if arr_addr a = 2 \<and> isSymbolicArray a then 7 else 1 :: int) = 1"
    if "a \<in> set (findSymbolicObjects [sample_read 0, sample_read 1]) \<or> isConstantArray a" for a
    using that by (auto simp: objs isConstantArray_def)
  with objs findSymbolicObjects_complete [of "sample_read 1" "[sample_read 0, sample_read 1]"
      "\<lambda>a i. if arr_addr a = 2 \<and> isSymbolicArray a then 7 else 1" "\<lambda>a i. 1"]
  show ?thesis by simp
qed

end
