(* ===== verification/Solver.thy ===== *)
theory Solver
  imports Bits ExprOrder Constraints ExprUtil
begin

text \<open>
  Queries and the solver interface of \<open>klee/include/klee/Solver/Solver.h\<close> and \<open>SolverImpl.h\<close>: the
  record of the four computations every solver implements, the front end of
  \<open>klee/lib/Solver/Solver.cpp\<close> with the binary searches of \<open>getRange\<close>, the default
  \<open>computeValidity\<close> of \<open>SolverImpl.cpp\<close>, and \<open>DummySolver.cpp\<close>. A solver is stateful and may fail; a
  failed assertion or \<open>abort\<close> is an outcome of its own. The locale \<open>solver_contract\<close> states what a solver
  owes its clients; the solvers of the chain are shown to keep it when the solver below does.
\<close>

declare One_nat_def [simp del]

subsection \<open>Queries\<close>

record query =
  constraints :: "expr list"
  qexpr :: expr

definition withExpr :: "query \<Rightarrow> expr \<Rightarrow> query" where
  "withExpr q e = \<lparr>constraints = constraints q, qexpr = e\<rparr>"

definition withFalse :: "query \<Rightarrow> query" where
  "withFalse q = \<lparr>constraints = constraints q, qexpr = ConstantExpr (mkAPInt Bool 0)\<rparr>"

definition negateExpr :: "query \<Rightarrow> query" where
  "negateExpr q = withExpr q (createIsZero (qexpr q))"

datatype Validity = VTrue | VFalse | VUnknown

subsection \<open>Outcomes and calls\<close>

text \<open>The boolean returned by a computation and its out-parameter; \<open>Aborted\<close> is a failed assertion.\<close>

datatype 'a answer = Success 'a | Failure | Aborted

type_synonym ('s, 'a) call = "'s \<Rightarrow> 'a answer \<times> 's"

definition return :: "'a \<Rightarrow> ('s, 'a) call" where
  "return x s = (Success x, s)"

definition failure :: "('s, 'a) call" where
  "failure s = (Failure, s)"

definition aborted :: "('s, 'a) call" where
  "aborted s = (Aborted, s)"

definition and_then :: "('s, 'a) call \<Rightarrow> ('a \<Rightarrow> ('s, 'b) call) \<Rightarrow> ('s, 'b) call" where
  "and_then m f s = (case m s of (Success x, s') \<Rightarrow> f x s' | (Failure, s') \<Rightarrow> (Failure, s') | (Aborted, s') \<Rightarrow> (Aborted, s'))"

text \<open>The callers that assert success turn a failure into a failed assertion.\<close>

definition must_succeed :: "('s, 'a) call \<Rightarrow> ('s, 'a) call" where
  "must_succeed m s = (case m s of (Failure, s') \<Rightarrow> (Aborted, s') | r \<Rightarrow> r)"

text \<open>Values for the requested objects, or that there is no solution (\<open>hasSolution\<close>).\<close>

record 's solver_impl =
  computeTruth :: "query \<Rightarrow> ('s, bool) call"
  computeValidity :: "query \<Rightarrow> ('s, Validity) call"
  computeValue :: "query \<Rightarrow> ('s, expr) call"
  computeInitialValues :: "query \<Rightarrow> array list \<Rightarrow> ('s, 8 word list list option) call"

text \<open>The implementation of \<open>computeValidity\<close> that \<open>SolverImpl\<close> provides.\<close>

definition default_computeValidity :: "(query \<Rightarrow> ('s, bool) call) \<Rightarrow> query \<Rightarrow> ('s, Validity) call" where
  "default_computeValidity truth query =
     and_then (truth query) (\<lambda>isTrue.
       if isTrue then return VTrue
       else and_then (truth (negateExpr query)) (\<lambda>isFalse. return (if isFalse then VFalse else VUnknown)))"

definition DummySolver :: "'s solver_impl" where
  "DummySolver = \<lparr>computeTruth = \<lambda>q. failure, computeValidity = \<lambda>q. failure,
     computeValue = \<lambda>q. failure, computeInitialValues = \<lambda>q objects. failure\<rparr>"

subsection \<open>The front end\<close>

definition Solver_evaluate :: "'s solver_impl \<Rightarrow> query \<Rightarrow> ('s, Validity) call" where
  "Solver_evaluate impl query =
     (if getWidth (qexpr query) \<noteq> Bool then aborted
      else case asConst (qexpr query) of
        Some CE \<Rightarrow> return (if isTrue CE then VTrue else VFalse)
      | None \<Rightarrow> computeValidity impl query)"

definition mustBeTrue :: "'s solver_impl \<Rightarrow> query \<Rightarrow> ('s, bool) call" where
  "mustBeTrue impl query =
     (if getWidth (qexpr query) \<noteq> Bool then aborted
      else case asConst (qexpr query) of
        Some CE \<Rightarrow> return (isTrue CE)
      | None \<Rightarrow> computeTruth impl query)"

definition mustBeFalse :: "'s solver_impl \<Rightarrow> query \<Rightarrow> ('s, bool) call" where
  "mustBeFalse impl query = mustBeTrue impl (negateExpr query)"

definition mayBeTrue :: "'s solver_impl \<Rightarrow> query \<Rightarrow> ('s, bool) call" where
  "mayBeTrue impl query = and_then (mustBeFalse impl query) (\<lambda>res. return (\<not> res))"

definition mayBeFalse :: "'s solver_impl \<Rightarrow> query \<Rightarrow> ('s, bool) call" where
  "mayBeFalse impl query = and_then (mustBeTrue impl query) (\<lambda>res. return (\<not> res))"

definition getValue :: "'s solver_impl \<Rightarrow> query \<Rightarrow> ('s, apint) call" where
  "getValue impl query =
     (case asConst (qexpr query) of
        Some CE \<Rightarrow> return CE
      | None \<Rightarrow> and_then (computeValue impl query) (\<lambda>tmp.
          case asConst tmp of Some CE \<Rightarrow> return CE | None \<Rightarrow> aborted))"

definition getInitialValues :: "'s solver_impl \<Rightarrow> query \<Rightarrow> array list \<Rightarrow> ('s, 8 word list list) call" where
  "getInitialValues impl query objects =
     and_then (computeInitialValues impl query objects) (\<lambda>r.
       case r of None \<Rightarrow> failure | Some values \<Rightarrow> return values)"

text \<open>
  The three searches of \<open>getRange\<close> have one shape: halve \<open>[lo, hi]\<close> by the answer of a query at the
  midpoint. The 64-bit sums cannot wrap, since the midpoint is at most \<open>hi\<close>.
\<close>

function search :: "(nat \<Rightarrow> ('s, bool) call) \<Rightarrow> nat \<Rightarrow> nat \<Rightarrow> ('s, nat) call" where
  "search ask lo hi s =
     (if lo < hi then
        let mid = lo + (hi - lo) div 2
        in case ask mid s of
             (Success res, s') \<Rightarrow> if res then search ask lo mid s' else search ask (mid + 1) hi s'
           | (_, s') \<Rightarrow> (Aborted, s')
      else (Success lo, s))"
  by pat_completeness auto
termination
  by (relation "measure (\<lambda>(ask, lo, hi, s). hi - lo)") auto

declare search.simps [simp del]

definition getRange :: "'s solver_impl \<Rightarrow> query \<Rightarrow> ('s, expr \<times> expr) call" where
  "getRange impl query =
     (let e = qexpr query; width = getWidth e;
          const = (\<lambda>v. ConstantExpr (mkAPInt width (int v)));
          range = (\<lambda>min max. return (const min, const max))
      in if width = 1 then
           and_then (must_succeed (Solver_evaluate impl query)) (\<lambda>result.
             case result of VTrue \<Rightarrow> range 1 1 | VFalse \<Rightarrow> range 0 0 | VUnknown \<Rightarrow> range 0 1)
         else case asConst e of
           Some CE \<Rightarrow> if 64 < width then aborted else range (nat (getZExtValue CE)) (nat (getZExtValue CE))
         | None \<Rightarrow>
             and_then (search (\<lambda>mid. mustBeTrue impl (withExpr query (Eq_create (LShr_create e (const mid)) (const 0)))) 0 width) (\<lambda>bits.
             and_then (must_succeed (mayBeTrue impl (withExpr query (Eq_create e (const 0))))) (\<lambda>res.
             case maxValueOfNBits bits :: 64 word option of None \<Rightarrow> aborted | Some top_value \<Rightarrow>
             and_then (if res then return 0
                       else search (\<lambda>mid. mayBeTrue impl (withExpr query (Ule_create e (const mid)))) 0 (unat top_value)) (\<lambda>min.
             and_then (search (\<lambda>mid. mustBeTrue impl (withExpr query (Ule_create e (const mid)))) min (unat top_value)) (\<lambda>max.
             range min max)))))"

subsection \<open>Syntactic conditions kept by the constructors the solvers use\<close>

text \<open>
  A condition on the nodes of an expression that constants and binary nodes meet: the constructors that
  negate or compare introduce no other nodes.
\<close>

definition about_leaves :: "(expr \<Rightarrow> bool) \<Rightarrow> bool" where
  "about_leaves P \<longleftrightarrow> (\<forall>c. P (ConstantExpr c)) \<and> (\<forall>k l r. P (BinaryExpr k l r))"

lemma about_leaves_nodes:
  assumes "about_leaves P"
  shows "all_sub P (ConstantExpr c)" "all_sub P (BinaryExpr k l r) \<longleftrightarrow> all_sub P l \<and> all_sub P r"
  using assms by (simp_all add: about_leaves_def all_sub_nodes)

lemma And_create_sub:
  assumes "about_leaves P" "all_sub P l" "all_sub P r"
  shows "all_sub P (And_create l r)" "all_sub P (Or_create l r)"
  using assms
  by (auto simp: And_create_def Or_create_def BCREATE_R_def AndExpr_createPartial_def AndExpr_createPartialR_def
      AndExpr_create_def OrExpr_createPartial_def OrExpr_createPartialR_def OrExpr_create_def about_leaves_nodes
      split: option.split)

lemma Eq_partialR_sub:
  assumes P: "about_leaves P"
  shows "all_sub P r \<Longrightarrow> all_sub P (EqExpr_createPartialR cl r)"
proof (induction r arbitrary: cl rule: expr_size_induct)
  case (smaller r)
  have IH: "all_sub P (Eq_createC x c)" if "size x < size r" "all_sub P x" for x c
    using smaller.IH [OF that] P by (auto simp: Eq_createC.simps about_leaves_nodes split: option.split)
  have dflt: "all_sub P (EqExpr_create (ConstantExpr cl) r)"
    using smaller.prems P by (simp add: EqExpr_create_def about_leaves_nodes)
  have parts: "all_sub P x" if "x \<in> set (inner r)" for x
    using all_sub_inner [OF smaller.prems that] .
  show ?case
    using dflt smaller.IH smaller.prems IH And_create_sub(1) [OF P] parts P
    by (auto simp: EqExpr_createPartialR.simps [of cl r] Let_def ConstArrayOpt_def about_leaves_nodes
        split: option.splits prod.splits)
qed

lemma Eq_create_sub:
  assumes "about_leaves P" "all_sub P l" "all_sub P r"
  shows "all_sub P (Eq_create l r)"
  using assms Eq_partialR_sub [OF assms(1)]
  by (auto simp: Eq_create_def CMPCREATE_T_def EqExpr_createPartial_def EqExpr_create_def about_leaves_nodes
      split: option.split)

lemma createIsZero_sub: "about_leaves P \<Longrightarrow> all_sub P e \<Longrightarrow> all_sub P (createIsZero e)"
  unfolding createIsZero_def by (rule Eq_create_sub) (simp_all add: about_leaves_nodes)

lemma LShr_Ule_create_sub:
  assumes "about_leaves P" "all_sub P l" "all_sub P r"
  shows "all_sub P (LShr_create l r)" "all_sub P (Ule_create l r)"
  using assms createIsZero_sub [OF assms(1)] And_create_sub [OF assms(1)]
  by (auto simp: LShr_create_def LShrExpr_create_def BCREATE_def Ule_create_def UleExpr_create_def CMPCREATE_def
      about_leaves_nodes split: option.split)

lemma narrow_foldable_leaves:
  "about_leaves (\<lambda>e. case asRead e of Some (a, us, i) \<Rightarrow> arr_domain a \<le> 32 | None \<Rightarrow> True)"
  "about_leaves (\<lambda>e. \<not> opaque_const e)"
  by (simp_all add: about_leaves_def)

lemmas narrow_sub = Eq_create_sub [OF narrow_foldable_leaves(1), folded narrow_def]
  createIsZero_sub [OF narrow_foldable_leaves(1), folded narrow_def]
  LShr_Ule_create_sub [OF narrow_foldable_leaves(1), folded narrow_def]
  about_leaves_nodes [OF narrow_foldable_leaves(1), folded narrow_def]

lemmas foldable_sub = Eq_create_sub [OF narrow_foldable_leaves(2), folded foldable_def]
  createIsZero_sub [OF narrow_foldable_leaves(2), folded foldable_def]
  LShr_Ule_create_sub [OF narrow_foldable_leaves(2), folded foldable_def]
  about_leaves_nodes [OF narrow_foldable_leaves(2), folded foldable_def]

subsection \<open>What a query means\<close>

text \<open>
  A query is well-formed when its expressions are well typed and can be folded by the evaluator and when,
  where the constraints hold, no division by zero happens and no read is outside its array (the executor checks
  both before it builds an expression).
\<close>

text \<open>The order of arrays by address.\<close>

definition array_key :: "array \<Rightarrow> int list list" where
  "array_key a = [address_key a, name_key (arr_name a)]"

definition byte_object :: "array \<Rightarrow> bool" where
  "byte_object a \<longleftrightarrow> arr_range a = 8"

definition byte_reads :: "expr \<Rightarrow> bool" where
  "byte_reads = all_sub (\<lambda>e. case asRead e of Some (a, us, i) \<Rightarrow> arr_range a = 8 | None \<Rightarrow> True)"

lemma byte_reads_leaves:
  "about_leaves (\<lambda>e. case asRead e of Some (a, us, i) \<Rightarrow> arr_range a = 8 | None \<Rightarrow> True)"
  by (simp add: about_leaves_def)

lemmas byte_reads_sub = Eq_create_sub [OF byte_reads_leaves, folded byte_reads_def]
  createIsZero_sub [OF byte_reads_leaves, folded byte_reads_def]
  LShr_Ule_create_sub [OF byte_reads_leaves, folded byte_reads_def]
  about_leaves_nodes [OF byte_reads_leaves, folded byte_reads_def]

lemmas leaf_sub = narrow_sub foldable_sub byte_reads_sub

text \<open>The constructors introduce no read either, so what they build reads inside the arrays if their arguments do.\<close>

lemma in_bounds_leaves:
  "about_leaves (\<lambda>e. case asRead e of Some (a, us, i) \<Rightarrow> nat (eval \<rho> i) < arr_size a | None \<Rightarrow> True)"
  by (simp add: about_leaves_def)

lemmas in_bounds_sub = Eq_create_sub [OF in_bounds_leaves, folded in_bounds_def]
  createIsZero_sub [OF in_bounds_leaves, folded in_bounds_def]
  LShr_Ule_create_sub [OF in_bounds_leaves, folded in_bounds_def]
  about_leaves_nodes [OF in_bounds_leaves, folded in_bounds_def]

definition wf_expr :: "expr \<Rightarrow> bool" where
  "wf_expr e \<longleftrightarrow> wt e \<and> narrow e \<and> byte_reads e \<and> foldable e"

definition checked :: "env \<Rightarrow> expr \<Rightarrow> bool" where
  "checked \<rho> e \<longleftrightarrow> div_safe \<rho> e \<and> in_bounds \<rho> e"

definition wf_query :: "query \<Rightarrow> bool" where
  "wf_query q \<longleftrightarrow> (\<forall>c\<in>set (constraints q). wf_expr c \<and> getWidth c = Bool) \<and> wf_expr (qexpr q) \<and>
     (\<forall>\<rho>. sat \<rho> (constraints q) \<longrightarrow> checked \<rho> (qexpr q) \<and> (\<forall>c\<in>set (constraints q). checked \<rho> c))"

definition consistent :: "query \<Rightarrow> bool" where
  "consistent q \<longleftrightarrow> (\<exists>\<rho>. sat \<rho> (constraints q))"

definition value_query :: "query \<Rightarrow> bool" where
  "value_query q \<longleftrightarrow> wf_query q \<and> consistent q"

definition bool_query :: "query \<Rightarrow> bool" where
  "bool_query q \<longleftrightarrow> wf_query q \<and> getWidth (qexpr q) = Bool"

definition truth_query :: "query \<Rightarrow> bool" where
  "truth_query q \<longleftrightarrow> value_query q \<and> getWidth (qexpr q) = Bool"

definition valid :: "query \<Rightarrow> bool" where
  "valid q \<longleftrightarrow> (\<forall>\<rho>. sat \<rho> (constraints q) \<longrightarrow> eval \<rho> (qexpr q) = 1)"

definition valid_not :: "query \<Rightarrow> bool" where
  "valid_not q \<longleftrightarrow> (\<forall>\<rho>. sat \<rho> (constraints q) \<longrightarrow> eval \<rho> (qexpr q) = 0)"

definition validity_of :: "query \<Rightarrow> Validity" where
  "validity_of q = (if valid q then VTrue else if valid_not q then VFalse else VUnknown)"

definition possible_value :: "query \<Rightarrow> apint \<Rightarrow> bool" where
  "possible_value q c \<longleftrightarrow> apint_ok c \<and> getBitWidth c = getWidth (qexpr q) \<and>
     (\<exists>\<rho>. sat \<rho> (constraints q) \<and> eval \<rho> (qexpr q) = uval c)"

definition is_solution :: "query \<Rightarrow> array list \<Rightarrow> 8 word list list \<Rightarrow> bool" where
  "is_solution q objects values \<longleftrightarrow> length values = length objects \<and>
     (\<forall>i<length objects. length (values ! i) = arr_size (objects ! i)) \<and>
     (\<exists>\<rho>. sat \<rho> (constraints q) \<and> eval \<rho> (qexpr q) = 0 \<and>
       (\<forall>i<length objects. \<forall>j<arr_size (objects ! i).
          cell \<rho> (objects ! i) j = take_bit (arr_range (objects ! i)) (uint (values ! i ! j))))"

lemma Assignment_bindings: "bindings (Assignment bs fr) = map_of bs"
proof -
  have "fold (\<lambda>(os, arr) m. if m os = None then m(os \<mapsto> arr) else m) bs m a =
      (case m a of Some v \<Rightarrow> Some v | None \<Rightarrow> map_of bs a)" for m :: "array \<rightharpoonup> 8 word list" and a
  proof (induction bs arbitrary: m)
    case (Cons b bs)
    obtain os arr where b: "b = (os, arr)" by (cases b)
    show ?case unfolding b fold_simps o_apply prod.case Cons.IH
      by (cases "m os"; cases "a = os") (auto split: option.split)
  qed (simp split: option.split)
  then show ?thesis by (intro ext) (simp add: Assignment_def)
qed

lemma sat_all: "sat \<rho> cs \<longleftrightarrow> (\<forall>c\<in>set cs. eval \<rho> c = 1)"
  by (auto simp: sat_def)

text \<open>
  The loop with which the validating solvers and assertions check constraints under an assignment: one that does not fold
  to a constant fails the check as a false one does.
\<close>

primrec constraints_hold :: "assignment \<Rightarrow> expr list \<Rightarrow> bool" where
  "constraints_hold assign [] = True"
| "constraints_hold assign (c # cs) =
     (case asConst (evaluate assign c) of None \<Rightarrow> False | Some ret \<Rightarrow> \<not> isFalse ret \<and> constraints_hold assign cs)"

lemma constraints_hold_true:
  "(\<And>c. c \<in> set cs \<Longrightarrow> evaluate assign c = ConstantExpr (mkAPInt Bool 1)) \<Longrightarrow> constraints_hold assign cs"
  by (induction cs) (auto simp: isFalse_def mkAPInt_def)

lemma constraints_hold_sat:
  assumes "constraints_hold assign cs" "\<forall>c\<in>set cs. wf_expr c \<and> getWidth c = Bool"
  shows "sat (env_of assign) cs"
  using assms
proof (induction cs)
  case (Cons c cs)
  then obtain k where k: "evaluate assign c = ConstantExpr k" "\<not> isFalse k"
    by (cases "evaluate assign c") auto
  have "refines_at (env_of assign) (evaluate assign c) c"
    using Cons.prems(2) by (intro evaluate_refines) (auto simp: wf_expr_def)
  then have "eval (env_of assign) c = 1"
    using k eval_bool_cases [of c "env_of assign"] Cons.prems(2) by (auto simp: refines_at_def isFalse_def wf_expr_def)
  with Cons k show ?case by (simp add: sat_all)
qed (simp add: sat_all)

lemma query_parts [simp]:
  "constraints (withExpr q e) = constraints q" "qexpr (withExpr q e) = e"
  "constraints (withFalse q) = constraints q" "qexpr (withFalse q) = ConstantExpr (mkAPInt Bool 0)"
  "constraints (negateExpr q) = constraints q" "qexpr (negateExpr q) = createIsZero (qexpr q)"
  by (simp_all add: withExpr_def withFalse_def negateExpr_def)

lemma bool_queryD:
  assumes "bool_query q"
  shows "wt (qexpr q)" "getWidth (qexpr q) = Bool" "wf_query q" "eval \<rho> (qexpr q) = 0 \<or> eval \<rho> (qexpr q) = 1"
  using assms eval_bool_cases by (auto simp: bool_query_def wf_query_def wf_expr_def)

lemma truth_query_bool: "truth_query q \<longleftrightarrow> bool_query q \<and> consistent q"
  by (auto simp: truth_query_def bool_query_def value_query_def)

lemma truth_bool: "truth_query q \<Longrightarrow> bool_query q"
  by (simp add: truth_query_bool)

lemma truth_queryD:
  assumes "truth_query q"
  shows "wt (qexpr q)" "getWidth (qexpr q) = Bool" "consistent q" "wf_query q"
    "eval \<rho> (qexpr q) = 0 \<or> eval \<rho> (qexpr q) = 1"
  using assms bool_queryD [of q] by (auto simp: truth_query_bool)

text \<open>An expression with the value of another, built without new leaves, asks a well-formed query.\<close>

lemma bool_query_withExpr:
  assumes "wf_query q" "expr_equiv e (BinaryExpr k l r)" "isCmp k" "\<not> isDiv k" "narrow e \<and> byte_reads e \<and> foldable e"
    and "\<And>\<rho>. div_safe \<rho> (qexpr q) \<Longrightarrow> div_safe \<rho> l \<and> div_safe \<rho> r"
    and "\<And>\<rho>. in_bounds \<rho> (qexpr q) \<Longrightarrow> in_bounds \<rho> e"
  shows "bool_query (withExpr q e)"
proof -
  have e: "wt e" "getWidth e = Bool" "\<And>\<rho>. div_safe \<rho> (BinaryExpr k l r) \<Longrightarrow> div_safe \<rho> e"
    using assms(2,3) by (auto simp: expr_equiv_def)
  have "checked \<rho> e" if "sat \<rho> (constraints q)" for \<rho>
    using assms(1,4,6,7) that e(3) [of \<rho>] by (auto simp: wf_query_def checked_def)
  then show ?thesis
    using assms(1,5) e(1,2) by (simp add: bool_query_def wf_query_def wf_expr_def)
qed

lemma consistent_withExpr [simp]: "consistent (withExpr q e) = consistent q" "consistent (negateExpr q) = consistent q"
  by (simp_all add: consistent_def)

lemma bool_query_negate:
  assumes "bool_query q"
  shows "bool_query (negateExpr q)"
  unfolding negateExpr_def using assms
  by (intro bool_query_withExpr [OF _ createIsZero_equiv])
    (auto simp: bool_query_def wf_query_def wf_expr_def isCmp_def isDiv_def leaf_sub in_bounds_sub)

lemma truth_query_negate: "truth_query q \<Longrightarrow> truth_query (negateExpr q)"
  by (simp add: truth_query_bool bool_query_negate)

lemma truth_query_withExpr: "value_query q \<Longrightarrow> bool_query (withExpr q e) \<Longrightarrow> truth_query (withExpr q e)"
  by (simp add: truth_query_bool value_query_def)

lemma valid_negate:
  assumes "bool_query q"
  shows "valid (negateExpr q) \<longleftrightarrow> valid_not q" "valid_not (negateExpr q) \<longleftrightarrow> valid q"
  using assms bool_queryD [OF assms] by (auto simp: valid_def valid_not_def)

lemma validity_exclusive: "truth_query q \<Longrightarrow> valid q \<Longrightarrow> \<not> valid_not q"
  by (auto simp: truth_query_def value_query_def consistent_def valid_def valid_not_def)

subsection \<open>Sound calls\<close>

text \<open>
  From a state that meets the invariant a sound call keeps it, never aborts, and on success its result is
  right; \<open>fails\<close> says whether it may report failure.
\<close>

definition sound_call :: "bool \<Rightarrow> ('s \<Rightarrow> bool) \<Rightarrow> ('a \<Rightarrow> bool) \<Rightarrow> ('s, 'a) call \<Rightarrow> bool" where
  "sound_call fails Inv P m \<longleftrightarrow> (\<forall>s. Inv s \<longrightarrow> Inv (snd (m s)) \<and>
     (case fst (m s) of Success x \<Rightarrow> P x | Failure \<Rightarrow> fails | Aborted \<Rightarrow> False))"

lemma sound_return [intro]: "P x \<Longrightarrow> sound_call fails Inv P (return x)"
  by (simp add: sound_call_def return_def)

lemma sound_and_then:
  assumes "sound_call fails Inv P m" "\<And>x. P x \<Longrightarrow> sound_call fails Inv Q (f x)"
  shows "sound_call fails Inv Q (and_then m f)"
  unfolding sound_call_def
proof (intro allI impI)
  fix s assume "Inv s"
  moreover obtain r s' where "m s = (r, s')" by (cases "m s")
  ultimately show "Inv (snd (and_then m f s)) \<and>
      (case fst (and_then m f s) of Success x \<Rightarrow> Q x | Failure \<Rightarrow> fails | Aborted \<Rightarrow> False)"
    using assms by (cases r) (force simp: sound_call_def and_then_def)+
qed

lemma sound_weaken: "sound_call fails Inv P m \<Longrightarrow> (\<And>x. P x \<Longrightarrow> Q x) \<Longrightarrow> sound_call fails Inv Q m"
  unfolding sound_call_def by (force split: answer.splits)

lemma sound_failure [intro]: "sound_call True Inv P failure"
  by (simp add: sound_call_def failure_def)

lemma sound_must_succeed: "sound_call False Inv P m \<Longrightarrow> sound_call fails Inv P (must_succeed m)"
  unfolding sound_call_def must_succeed_def by (force split: prod.splits answer.splits)

lemma sound_callD:
  assumes "sound_call fails Inv P m" "Inv s" "m s = (r, s')"
  shows "Inv s'" "r = Success x \<Longrightarrow> P x" "r \<noteq> Aborted" "r = Failure \<Longrightarrow> fails"
  using assms unfolding sound_call_def by force+

subsection \<open>The contract of a solver\<close>

locale solver_contract =
  fixes impl :: "'s solver_impl" and Inv :: "'s \<Rightarrow> bool" and fails :: bool and init :: "query \<Rightarrow> bool"
  assumes init_bool: "init q \<Longrightarrow> bool_query q"
    and truth: "truth_query q \<Longrightarrow> sound_call fails Inv (\<lambda>b. b = valid q) (computeTruth impl q)"
    and validity: "truth_query q \<Longrightarrow> sound_call fails Inv (\<lambda>v. v = validity_of q) (computeValidity impl q)"
    and value_of: "value_query q \<Longrightarrow> sound_call fails Inv (\<lambda>e. \<exists>c. e = ConstantExpr c \<and> possible_value q c) (computeValue impl q)"
    and initial_values: "init q \<Longrightarrow> list_all byte_object objects \<Longrightarrow>
      sound_call fails Inv (\<lambda>r. case r of None \<Rightarrow> valid q | Some values \<Rightarrow> is_solution q objects values)
        (computeInitialValues impl q objects)"
begin

lemma default_validity:
  assumes "truth_query q"
  shows "sound_call fails Inv (\<lambda>v. v = validity_of q) (default_computeValidity (computeTruth impl) q)"
  unfolding default_computeValidity_def
proof (rule sound_and_then [OF truth [OF assms]])
  fix isTrue assume b: "isTrue = valid q"
  show "sound_call fails Inv (\<lambda>v. v = validity_of q) (if isTrue then return VTrue
      else and_then (computeTruth impl (negateExpr q)) (\<lambda>isFalse. return (if isFalse then VFalse else VUnknown)))"
  proof (cases isTrue)
    case False
    then show ?thesis
      using b valid_negate(1) [of q] truth_query_bool [of q] assms
      by (auto simp: validity_of_def intro!: sound_and_then [OF truth [OF truth_query_negate [OF assms]]])
  qed (use b in \<open>auto simp: validity_of_def\<close>)
qed

lemma const_truth:
  assumes "truth_query q" "qexpr q = ConstantExpr CE"
  shows "isTrue CE \<longleftrightarrow> valid q" "\<not> isTrue CE \<longleftrightarrow> valid_not q"
proof -
  have "consistent q" using assms(1) by (rule truth_queryD)
  moreover have "uval CE = 0 \<or> uval CE = 1" "getBitWidth CE = Bool"
    using truth_queryD(2,5) [OF assms(1)] assms(2) by simp_all
  ultimately show "isTrue CE \<longleftrightarrow> valid q" "\<not> isTrue CE \<longleftrightarrow> valid_not q"
    using assms(2) by (auto simp: valid_def valid_not_def isTrue_def consistent_def)
qed

lemma must_true: "truth_query q \<Longrightarrow> sound_call fails Inv (\<lambda>b. b = valid q) (mustBeTrue impl q)"
  using truth_queryD(2) [of q] const_truth(1) [of q] truth [of q]
  by (auto simp: mustBeTrue_def split: option.split)

lemma must_false: "truth_query q \<Longrightarrow> sound_call fails Inv (\<lambda>b. b = valid_not q) (mustBeFalse impl q)"
  using must_true [OF truth_query_negate, of q] by (simp add: mustBeFalse_def valid_negate truth_query_bool)

lemma may_be_true: "truth_query q \<Longrightarrow> sound_call fails Inv (\<lambda>b. b = (\<not> valid_not q)) (mayBeTrue impl q)"
  unfolding mayBeTrue_def by (rule sound_and_then [OF must_false]) auto

lemma may_be_false: "truth_query q \<Longrightarrow> sound_call fails Inv (\<lambda>b. b = (\<not> valid q)) (mayBeFalse impl q)"
  unfolding mayBeFalse_def by (rule sound_and_then [OF must_true]) auto

lemma evaluate_validity: "truth_query q \<Longrightarrow> sound_call fails Inv (\<lambda>v. v = validity_of q) (Solver_evaluate impl q)"
  using truth_queryD(2) [of q] const_truth [of q] validity [of q]
  by (auto simp: Solver_evaluate_def validity_of_def split: option.split)

lemma get_value: "value_query q \<Longrightarrow> sound_call fails Inv (possible_value q) (getValue impl q)"
proof (cases "asConst (qexpr q)")
  case (Some CE)
  assume "value_query q"
  with Some have "possible_value q CE"
    by (auto simp: possible_value_def value_query_def wf_query_def wf_expr_def consistent_def)
  with Some show ?thesis by (simp add: getValue_def sound_return)
next
  case None
  assume "value_query q"
  from value_of [OF this] show ?thesis
    unfolding getValue_def None option.case by (rule sound_and_then) auto
qed

end

text \<open>A solver that finds initial values for every consistent query of truth.\<close>

locale full_contract = solver_contract +
  assumes init_truth: "truth_query q \<Longrightarrow> init q"

text \<open>\<open>DummySolver\<close> always fails, which keeps every promise but that of answering.\<close>

interpretation dummy: full_contract DummySolver "\<lambda>_. True" True bool_query
  by unfold_locales (auto simp: DummySolver_def truth_query_bool)

subsection \<open>Binary search by queries\<close>

lemma sound_search:
  assumes "\<And>mid. mid < hi \<Longrightarrow> sound_call False Inv (\<lambda>b. b = \<phi> mid) (ask mid)"
    and "\<phi> hi" "lo \<le> hi" "\<And>m n. \<phi> m \<Longrightarrow> m \<le> n \<Longrightarrow> \<phi> n"
  shows "sound_call fails Inv (\<lambda>r. lo \<le> r \<and> r \<le> hi \<and> \<phi> r \<and> (\<forall>x. lo \<le> x \<and> x < r \<longrightarrow> \<not> \<phi> x)) (search ask lo hi)"
proof -
  have "Inv s \<Longrightarrow> (\<And>mid. mid < hi \<Longrightarrow> sound_call False Inv (\<lambda>b. b = \<phi> mid) (ask mid)) \<Longrightarrow> \<phi> hi \<Longrightarrow> lo \<le> hi \<Longrightarrow>
    \<exists>r s'. search ask lo hi s = (Success r, s') \<and> Inv s' \<and> lo \<le> r \<and> r \<le> hi \<and> \<phi> r \<and> (\<forall>x. lo \<le> x \<and> x < r \<longrightarrow> \<not> \<phi> x)" for s
  proof (induction ask lo hi s rule: search.induct)
    case (1 ask lo hi s)
    show ?case
    proof (cases "lo < hi")
      case False
      then show ?thesis using 1 by (subst search.simps) auto
    next
      case True
      define mid where "mid = lo + (hi - lo) div 2"
      have mid: "mid < hi" "lo \<le> mid" using True by (auto simp: mid_def)
      obtain r s1 where ask: "ask mid s = (r, s1)" by (cases "ask mid s")
      from sound_callD [OF "1.prems"(2) [OF mid(1)] "1.prems"(1) ask]
      have r: "Inv s1" "r = Success (\<phi> mid)" by (cases r; auto)+
      show ?thesis
      proof (cases "\<phi> mid")
        case True
        have "search ask lo hi s = search ask lo mid s1"
          using \<open>lo < hi\<close> ask r True by (subst search.simps) (simp add: mid_def [symmetric])
        moreover have "\<exists>r s'. search ask lo mid s1 = (Success r, s') \<and> Inv s' \<and> lo \<le> r \<and> r \<le> mid \<and> \<phi> r \<and> (\<forall>x. lo \<le> x \<and> x < r \<longrightarrow> \<not> \<phi> x)"
          by (rule "1.IH"(1) [OF \<open>lo < hi\<close> mid_def _ _ _ r(1)]) (use ask r True mid "1.prems" in auto)
        ultimately show ?thesis using mid by fastforce
      next
        case False
        have low: "\<not> \<phi> x" if "x \<le> mid" for x using False assms(4) that by blast
        have "search ask lo hi s = search ask (mid + 1) hi s1"
          using \<open>lo < hi\<close> ask r False by (subst search.simps) (simp add: mid_def [symmetric])
        moreover have "\<exists>r s'. search ask (mid + 1) hi s1 = (Success r, s') \<and> Inv s' \<and> mid + 1 \<le> r \<and> r \<le> hi \<and> \<phi> r \<and> (\<forall>x. mid + 1 \<le> x \<and> x < r \<longrightarrow> \<not> \<phi> x)"
          by (rule "1.IH"(2) [OF \<open>lo < hi\<close> mid_def _ _ _ r(1)]) (use ask r False mid "1.prems" in auto)
        ultimately show ?thesis using mid low by (metis Suc_eq_plus1 Suc_leI le_SucI linorder_not_less order_trans)
      qed
    qed
  qed
  with assms(1-3) show ?thesis unfolding sound_call_def by fastforce
qed

text \<open>The three kinds of query that the search asks, and what they decide.\<close>

definition range_const :: "query \<Rightarrow> nat \<Rightarrow> expr" where
  "range_const q v = ConstantExpr (mkAPInt (getWidth (qexpr q)) (int v))"

lemma range_const_facts:
  assumes "wt (qexpr q)"
  shows "wt (range_const q v)" "getWidth (range_const q v) = getWidth (qexpr q)"
    "v < 2 ^ getWidth (qexpr q) \<Longrightarrow> eval \<rho> (range_const q v) = int v"
    "div_safe \<rho> (range_const q v)" "in_bounds \<rho> (range_const q v)" "narrow (range_const q v) \<and> byte_reads (range_const q v) \<and> foldable (range_const q v)"
proof -
  show "wt (range_const q v)" using wt_width_pos [OF assms] by (simp add: range_const_def apint_ok_def mkAPInt_def)
  assume "v < 2 ^ getWidth (qexpr q)"
  then have "int v < 2 ^ getWidth (qexpr q)" by (metis of_nat_less_iff of_nat_numeral of_nat_power)
  then show "eval \<rho> (range_const q v) = int v" by (simp add: range_const_def mkAPInt_def take_bit_id)
qed (simp_all add: range_const_def mkAPInt_def leaf_sub in_bounds_sub)

lemma cmp_query:
  assumes q: "value_query q" and v: "v < 2 ^ getWidth (qexpr q)"
  shows "truth_query (withExpr q (Eq_create (qexpr q) (range_const q v)))"
    "eval \<rho> (Eq_create (qexpr q) (range_const q v)) = of_bool (eval \<rho> (qexpr q) = int v)"
    "truth_query (withExpr q (Ule_create (qexpr q) (range_const q v)))"
    "eval \<rho> (Ule_create (qexpr q) (range_const q v)) = of_bool (eval \<rho> (qexpr q) \<le> int v)"
proof -
  let ?e = "qexpr q" and ?c = "range_const q v"
  have e: "wt ?e" "narrow ?e" "byte_reads ?e" "foldable ?e" using q by (auto simp: value_query_def wf_query_def wf_expr_def)
  note c = range_const_facts [OF e(1), where v = v]
  have eq: "expr_equiv (Eq_create ?e ?c) (BinaryExpr Eq ?e ?c)" "expr_equiv (Ule_create ?e ?c) (BinaryExpr Ule ?e ?c)"
    using e c by (auto intro!: Eq_create_equiv cmp_create_equiv)
  show "truth_query (withExpr q (Eq_create ?e ?c))" "truth_query (withExpr q (Ule_create ?e ?c))"
    using q
    by (auto intro!: truth_query_withExpr [OF q] bool_query_withExpr [OF _ eq(1)] bool_query_withExpr [OF _ eq(2)]
        simp: value_query_def isCmp_def isDiv_def leaf_sub in_bounds_sub e c(1,2,4,5,6))
  show "eval \<rho> (Eq_create ?e ?c) = of_bool (eval \<rho> ?e = int v)" "eval \<rho> (Ule_create ?e ?c) = of_bool (eval \<rho> ?e \<le> int v)"
    using eq c(3) [OF v] by (simp_all add: expr_equiv_def)
qed

lemma shift_query:
  assumes q: "value_query q" and v: "v < getWidth (qexpr q)"
  defines "e' \<equiv> Eq_create (LShr_create (qexpr q) (range_const q v)) (range_const q 0)"
  shows "truth_query (withExpr q e')" "eval \<rho> e' = of_bool (eval \<rho> (qexpr q) < 2 ^ v)"
proof -
  let ?e = "qexpr q" and ?c = "range_const q v" and ?z = "range_const q 0"
  have e: "wt ?e" "narrow ?e" "byte_reads ?e" "foldable ?e" using q by (auto simp: value_query_def wf_query_def wf_expr_def)
  note c = range_const_facts [OF e(1), where v = v] and z = range_const_facts [OF e(1), where v = 0]
  have v': "v < 2 ^ getWidth ?e" using v less_exp [of "getWidth ?e"] by linarith
  have sh: "expr_equiv (LShr_create ?e ?c) (BinaryExpr LShr ?e ?c)"
    using e c by (intro shift_create_equiv) simp
  then have "expr_equiv e' (BinaryExpr Eq (LShr_create ?e ?c) ?z)"
    unfolding e'_def using z by (intro Eq_create_equiv) (simp add: expr_equiv_def isCmp_def)
  also have "expr_equiv (BinaryExpr Eq (LShr_create ?e ?c) ?z) (BinaryExpr Eq (BinaryExpr LShr ?e ?c) ?z)"
    using sh z by (intro expr_equiv_Binary expr_equiv_refl) (simp_all add: isCmp_def)
  finally have eq: "expr_equiv e' (BinaryExpr Eq (BinaryExpr LShr ?e ?c) ?z)" .
  have sem: "eval \<rho> (BinaryExpr Eq (BinaryExpr LShr ?e ?c) ?z) = of_bool (eval \<rho> ?e < 2 ^ v)" for \<rho>
  proof -
    have "eval \<rho> ?e div 2 ^ v = 0 \<longleftrightarrow> eval \<rho> ?e < 2 ^ v"
      using eval_range(2) [OF e(1), of \<rho>] by (auto simp: div_eq_0_iff zdiv_eq_0_iff)
    then show ?thesis using v c(3) [OF v'] z(3) by (simp add: drop_bit_eq_div)
  qed
  show "truth_query (withExpr q e')"
    using q by (intro truth_query_withExpr [OF q] bool_query_withExpr [OF _ eq])
      (simp_all add: value_query_def isCmp_def isDiv_def e'_def leaf_sub in_bounds_sub e c(1,2,4,5,6) z(1,2,4,5,6))
  show "eval \<rho> e' = of_bool (eval \<rho> ?e < 2 ^ v)" using eq sem by (simp add: expr_equiv_def)
qed

text \<open>The postcondition of \<open>getRange\<close>: both ends are attained and all possible values lie between them.\<close>

definition tight_range :: "query \<Rightarrow> nat \<Rightarrow> nat \<Rightarrow> bool" where
  "tight_range q lo hi \<longleftrightarrow>
     (\<forall>\<rho>. sat \<rho> (constraints q) \<longrightarrow> int lo \<le> eval \<rho> (qexpr q) \<and> eval \<rho> (qexpr q) \<le> int hi) \<and>
     (\<exists>\<rho>. sat \<rho> (constraints q) \<and> eval \<rho> (qexpr q) = int lo) \<and>
     (\<exists>\<rho>. sat \<rho> (constraints q) \<and> eval \<rho> (qexpr q) = int hi)"

definition range_result :: "query \<Rightarrow> expr \<times> expr \<Rightarrow> bool" where
  "range_result q r \<longleftrightarrow> (\<exists>lo hi. r = (range_const q lo, range_const q hi) \<and> tight_range q lo hi)"

definition below :: "query \<Rightarrow> nat \<Rightarrow> bool" where
  "below q v \<longleftrightarrow> (\<forall>\<rho>. sat \<rho> (constraints q) \<longrightarrow> eval \<rho> (qexpr q) \<le> int v)"

definition reaches :: "query \<Rightarrow> nat \<Rightarrow> bool" where
  "reaches q v \<longleftrightarrow> (\<exists>\<rho>. sat \<rho> (constraints q) \<and> eval \<rho> (qexpr q) \<le> int v)"

definition is_min :: "query \<Rightarrow> nat \<Rightarrow> bool" where
  "is_min q v \<longleftrightarrow> (\<forall>\<rho>. sat \<rho> (constraints q) \<longrightarrow> int v \<le> eval \<rho> (qexpr q)) \<and>
     (\<exists>\<rho>. sat \<rho> (constraints q) \<and> eval \<rho> (qexpr q) = int v)"

lemma least_reached:
  assumes "wt (qexpr q)" "reaches q v" "\<forall>x<v. \<not> reaches q x"
  shows "is_min q v"
proof -
  have low: "int v \<le> eval \<rho> (qexpr q)" if "sat \<rho> (constraints q)" for \<rho>
  proof (rule ccontr)
    assume "\<not> int v \<le> eval \<rho> (qexpr q)"
    with eval_range(2) [OF assms(1), of \<rho>] have "nat (eval \<rho> (qexpr q)) < v" "eval \<rho> (qexpr q) \<le> int (nat (eval \<rho> (qexpr q)))"
      by auto
    with that assms(3) show False unfolding reaches_def by blast
  qed
  with assms(2) show ?thesis unfolding is_min_def reaches_def by force
qed

lemma least_above:
  assumes "is_min q lo" "lo \<le> hi" "below q hi" "\<forall>x. lo \<le> x \<and> x < hi \<longrightarrow> \<not> below q x"
  shows "tight_range q lo hi"
proof -
  have "\<exists>\<rho>. sat \<rho> (constraints q) \<and> eval \<rho> (qexpr q) = int hi"
  proof (cases "lo = hi")
    case True
    then show ?thesis using assms(1) by (simp add: is_min_def)
  next
    case False
    then have "\<not> below q (hi - 1)" using assms(2,4) by simp
    then obtain \<rho> where "sat \<rho> (constraints q)" "int (hi - 1) < eval \<rho> (qexpr q)"
      unfolding below_def by force
    then show ?thesis using assms(2,3) False unfolding below_def by (intro exI [of _ \<rho>]) force
  qed
  with assms(1,3) show ?thesis by (simp add: tight_range_def is_min_def below_def)
qed

context solver_contract
begin

lemma range_bool:
  assumes "truth_query q" "\<not> fails"
  shows "sound_call False Inv (range_result q) (getRange impl q)"
proof -
  have res: "range_result q (range_const q m, range_const q n)" if "tight_range q m n" for m n
    using that by (auto simp: range_result_def)
  have ev: "sound_call False Inv (\<lambda>v. v = validity_of q) (must_succeed (Solver_evaluate impl q))"
    using evaluate_validity [OF assms(1)] assms(2) by (intro sound_must_succeed) simp
  note facts = truth_queryD(2,3,5) [OF assms(1)]
  have w: "getWidth (qexpr q) = 1" using facts(1) .
  have "tight_range q 1 1" if "valid q"
    using that facts(2) by (auto simp: tight_range_def valid_def consistent_def)
  moreover have "tight_range q 0 0" if "valid_not q"
    using that facts(2) by (auto simp: tight_range_def valid_not_def consistent_def)
  moreover have "tight_range q 0 1" if nv: "\<not> valid q" "\<not> valid_not q"
  proof -
    have "0 \<le> eval \<rho> (qexpr q) \<and> eval \<rho> (qexpr q) \<le> 1" for \<rho> using facts(3) [of \<rho>] by auto
    moreover have "\<exists>\<rho>. sat \<rho> (constraints q) \<and> eval \<rho> (qexpr q) = 0"
      using nv(1) facts(3) unfolding valid_def by blast
    moreover have "\<exists>\<rho>. sat \<rho> (constraints q) \<and> eval \<rho> (qexpr q) = 1"
      using nv(2) facts(3) unfolding valid_not_def by blast
    ultimately show ?thesis by (simp add: tight_range_def)
  qed
  ultimately show ?thesis
    unfolding getRange_def Let_def if_P [OF w] range_const_def [symmetric]
    by (intro sound_and_then [OF ev]) (auto simp: validity_of_def intro!: res)
qed

lemma range_search:
  assumes q: "value_query q" and w: "1 < getWidth (qexpr q)" "getWidth (qexpr q) \<le> 64"
    and nc: "asConst (qexpr q) = None" and nf: "\<not> fails"
  shows "sound_call False Inv (range_result q) (getRange impl q)"
proof -
  let ?e = "qexpr q" and ?w = "getWidth (qexpr q)"
  have wt: "wt ?e" and cons: "consistent q" using q by (auto simp: value_query_def wf_query_def wf_expr_def)
  have "fails = False" using nf by simp
  note must = must_true [unfolded this] and may = may_be_true [unfolded this]
  define fits where "fits b \<longleftrightarrow> (\<forall>\<rho>. sat \<rho> (constraints q) \<longrightarrow> eval \<rho> ?e < 2 ^ b)" for b
  have fits_mono: "fits m \<Longrightarrow> m \<le> n \<Longrightarrow> fits n" for m n
    unfolding fits_def by (meson less_le_trans one_le_numeral power_increasing)
  have bits: "sound_call False Inv (\<lambda>b. 0 \<le> b \<and> b \<le> ?w \<and> fits b \<and> (\<forall>x. 0 \<le> x \<and> x < b \<longrightarrow> \<not> fits x))
      (search (\<lambda>mid. mustBeTrue impl (withExpr q (Eq_create (LShr_create ?e (range_const q mid)) (range_const q 0)))) 0 ?w)"
  proof (rule sound_search)
    fix mid assume "mid < ?w"
    from must [OF shift_query(1) [OF q this]] shift_query(2) [OF q this]
    show "sound_call False Inv (\<lambda>b. b = fits mid)
        (mustBeTrue impl (withExpr q (Eq_create (LShr_create ?e (range_const q mid)) (range_const q 0))))"
      by (simp add: valid_def fits_def)
  qed (use eval_range(3) [OF wt] fits_mono in \<open>auto simp: fits_def\<close>)
  have zero: "sound_call False Inv (\<lambda>b. b = reaches q 0) (must_succeed (mayBeTrue impl (withExpr q (Eq_create ?e (range_const q 0)))))"
  proof (rule sound_must_succeed)
    have "eval \<rho> ?e \<le> 0 \<longleftrightarrow> eval \<rho> ?e = 0" for \<rho> using eval_range(2) [OF wt, of \<rho>] by linarith
    then have "\<not> valid_not (withExpr q (Eq_create ?e (range_const q 0))) \<longleftrightarrow> reaches q 0"
      using cmp_query(2) [OF q, of 0] by (simp add: valid_not_def reaches_def)
    then show "sound_call False Inv (\<lambda>b. b = reaches q 0) (mayBeTrue impl (withExpr q (Eq_create ?e (range_const q 0))))"
      using may [OF cmp_query(1) [OF q, of 0]] by simp
  qed
  have final: "sound_call False Inv (range_result q)
      (and_then (if res then return 0
         else search (\<lambda>mid. mayBeTrue impl (withExpr q (Ule_create ?e (range_const q mid)))) 0 top_value) (\<lambda>min.
       and_then (search (\<lambda>mid. mustBeTrue impl (withExpr q (Ule_create ?e (range_const q mid)))) min top_value) (\<lambda>max.
       return (range_const q min, range_const q max))))"
    if top: "below q top_value" "top_value < 2 ^ ?w" and res: "res = reaches q 0" for top_value res
  proof (rule sound_and_then)
    have reach_mono: "reaches q m \<Longrightarrow> m \<le> n \<Longrightarrow> reaches q n" for m n unfolding reaches_def by force
    have top_reached: "reaches q top_value" using cons top(1) by (auto simp: reaches_def below_def consistent_def)
    show "sound_call False Inv (\<lambda>m. is_min q m \<and> m \<le> top_value) (if res then return 0
         else search (\<lambda>mid. mayBeTrue impl (withExpr q (Ule_create ?e (range_const q mid)))) 0 top_value)"
    proof (cases res)
      case True
      then show ?thesis using res least_reached [OF wt, of 0] by auto
    next
      case False
      have "sound_call False Inv (\<lambda>m. 0 \<le> m \<and> m \<le> top_value \<and> reaches q m \<and> (\<forall>x. 0 \<le> x \<and> x < m \<longrightarrow> \<not> reaches q x))
          (search (\<lambda>mid. mayBeTrue impl (withExpr q (Ule_create ?e (range_const q mid)))) 0 top_value)"
      proof (rule sound_search)
        fix mid assume "mid < top_value"
        then have mid: "mid < 2 ^ ?w" using top(2) by simp
        from may [OF cmp_query(3) [OF q mid]] cmp_query(4) [OF q mid]
        show "sound_call False Inv (\<lambda>b. b = reaches q mid) (mayBeTrue impl (withExpr q (Ule_create ?e (range_const q mid))))"
          by (simp add: valid_not_def reaches_def)
      qed (use top_reached reach_mono in auto)
      then show ?thesis using False least_reached [OF wt] by (auto elim!: sound_weaken)
    qed
    fix m assume m: "is_min q m \<and> m \<le> top_value"
    have "sound_call False Inv (\<lambda>r. m \<le> r \<and> r \<le> top_value \<and> below q r \<and> (\<forall>x. m \<le> x \<and> x < r \<longrightarrow> \<not> below q x))
        (search (\<lambda>mid. mustBeTrue impl (withExpr q (Ule_create ?e (range_const q mid)))) m top_value)"
    proof (rule sound_search)
      fix mid assume "mid < top_value"
      then have mid: "mid < 2 ^ ?w" using top(2) by simp
      from must [OF cmp_query(3) [OF q mid]] cmp_query(4) [OF q mid]
      show "sound_call False Inv (\<lambda>b. b = below q mid) (mustBeTrue impl (withExpr q (Ule_create ?e (range_const q mid))))"
        by (simp add: valid_def below_def)
    qed (use top(1) m in \<open>auto simp: below_def\<close>)
    note highest = this
    show "sound_call False Inv (range_result q) (and_then
        (search (\<lambda>mid. mustBeTrue impl (withExpr q (Ule_create ?e (range_const q mid)))) m top_value)
        (\<lambda>max. return (range_const q m, range_const q max)))"
      unfolding range_result_def using m least_above by (intro sound_and_then [OF highest] sound_return) blast
  qed
  show ?thesis
    unfolding getRange_def Let_def nc option.case range_const_def [symmetric] if_not_P [OF less_imp_neq [OF w(1), symmetric]]
  proof (rule sound_and_then [OF bits], rule sound_and_then [OF zero])
    fix b res assume b: "0 \<le> b \<and> b \<le> ?w \<and> fits b \<and> (\<forall>x. 0 \<le> x \<and> x < b \<longrightarrow> \<not> fits x)" and res: "res = reaches q 0"
    from b w(2) obtain v where v: "maxValueOfNBits b = Some (v :: 64 word)" "unat v = 2 ^ b - 1"
      using maxValueOfNBits_unat [of b, where ?'a = 64] by auto
    have "below q (2 ^ b - 1)" using b unfolding fits_def below_def by (simp add: of_nat_diff)
    moreover have "(2::nat) ^ b - 1 < 2 ^ ?w"
    proof -
      have "(2::nat) ^ b \<le> 2 ^ ?w" "0 < (2::nat) ^ b" using b by (simp_all add: power_increasing)
      then show ?thesis by linarith
    qed
    ultimately show "sound_call False Inv (range_result q) (case maxValueOfNBits b :: 64 word option of None \<Rightarrow> aborted | Some top_value \<Rightarrow>
      and_then (if res then return 0
         else search (\<lambda>mid. mayBeTrue impl (withExpr q (Ule_create ?e (range_const q mid)))) 0 (unat top_value)) (\<lambda>min.
       and_then (search (\<lambda>mid. mustBeTrue impl (withExpr q (Ule_create ?e (range_const q mid)))) min (unat top_value)) (\<lambda>max.
       return (range_const q min, range_const q max))))"
      unfolding v(1) option.case using v(2) by (intro final res) simp_all
  qed
qed

end

subsection \<open>A reference solver\<close>

text \<open>The contract can be kept: the solver that answers by the meaning of the query.\<close>

definition some_values :: "env \<Rightarrow> array list \<Rightarrow> 8 word list list" where
  "some_values \<rho> objects = map (\<lambda>a. map (\<lambda>i. word_of_int (\<rho> a i)) [0..<arr_size a]) objects"

definition reference_solver :: "unit solver_impl" where
  "reference_solver = \<lparr>computeTruth = \<lambda>q. return (valid q), computeValidity = \<lambda>q. return (validity_of q),
     computeValue = \<lambda>q. return (ConstantExpr (SOME c. possible_value q c)),
     computeInitialValues = \<lambda>q objects. return (if valid q then None
       else Some (some_values (SOME \<rho>. sat \<rho> (constraints q) \<and> eval \<rho> (qexpr q) = 0) objects))\<rparr>"

lemma some_value_possible: "value_query q \<Longrightarrow> possible_value q (SOME c. possible_value q c)"
proof (rule someI_ex)
  assume q: "value_query q"
  then obtain \<rho> where \<rho>: "sat \<rho> (constraints q)" and wt: "wt (qexpr q)"
    by (auto simp: value_query_def consistent_def wf_query_def wf_expr_def)
  have "possible_value q (APInt (getWidth (qexpr q)) (eval \<rho> (qexpr q)))"
    using \<rho> wt_width_pos [OF wt] eval_range(1) [OF wt, of \<rho>] by (auto simp: possible_value_def apint_ok_def)
  then show "\<exists>c. possible_value q c" by blast
qed

lemma some_values_solution:
  assumes "bool_query q" "list_all byte_object objects" "\<not> valid q"
  shows "is_solution q objects (some_values (SOME \<rho>. sat \<rho> (constraints q) \<and> eval \<rho> (qexpr q) = 0) objects)"
proof -
  define \<rho> where "\<rho> = (SOME \<rho>. sat \<rho> (constraints q) \<and> eval \<rho> (qexpr q) = 0)"
  have "\<exists>\<rho>. sat \<rho> (constraints q) \<and> eval \<rho> (qexpr q) = 0"
    using assms(3) bool_queryD(4) [OF assms(1)] unfolding valid_def by blast
  then have "sat \<rho> (constraints q) \<and> eval \<rho> (qexpr q) = 0" unfolding \<rho>_def by (rule someI_ex)
  moreover have "cell \<rho> (objects ! i) j = take_bit (arr_range (objects ! i)) (uint (some_values \<rho> objects ! i ! j))"
    if "i < length objects" "j < arr_size (objects ! i)" for i j
  proof -
    have "arr_range (objects ! i) = 8" using assms(2) that(1) by (simp add: list_all_length byte_object_def)
    then show ?thesis using that by (simp add: cell_def some_values_def uint_word_of_int_eq)
  qed
  moreover have "length (some_values \<rho> objects) = length objects"
    "\<forall>i<length objects. length (some_values \<rho> objects ! i) = arr_size (objects ! i)"
    by (simp_all add: some_values_def)
  ultimately show ?thesis unfolding is_solution_def \<rho>_def [symmetric] by blast
qed

interpretation reference: full_contract reference_solver "\<lambda>_. True" False bool_query
  by unfold_locales (auto simp: reference_solver_def some_value_possible some_values_solution truth_query_bool)

subsection \<open>Properties of the front end\<close>

text \<open>A query for the witnesses: a byte of the sample array, known to be below five.\<close>

definition sample_bound :: "int \<Rightarrow> expr" where
  "sample_bound n = BinaryExpr Ult (sample_read 0) (const8 n)"

definition sample_query :: "expr \<Rightarrow> query" where
  "sample_query e = \<lparr>constraints = [sample_bound 5], qexpr = e\<rparr>"

lemma eval_sample: "eval \<rho> (sample_read 0) = cell \<rho> sample_array 0"
  by (simp add: sample_read_def sample_index_def initial_value_def cell_def isConstantArray_def isSymbolicArray_def sample_array_def)

lemma sample_wf: "wf_expr (sample_read 0)" "wf_expr (sample_bound n)" "getWidth (sample_bound n) = Bool"
  "checked \<rho> (sample_read 0)" "checked \<rho> (sample_bound n)"
proof -
  show "wf_expr (sample_read 0)" "wf_expr (sample_bound n)"
    using sample_narrow
    by (simp_all add: wf_expr_def sample_bound_def leaf_sub const8_def, simp_all add: sample_read_def byte_reads_def all_sub_nodes sample_index_def)
  show "checked \<rho> (sample_read 0)" "checked \<rho> (sample_bound n)"
    by (simp_all add: checked_def sample_bound_def isCmp_def isDiv_def const8_def in_bounds_sub,
        simp_all add: sample_read_def in_bounds_def all_sub_nodes sample_index_def sample_array_def)
qed (simp add: sample_bound_def isCmp_def)

lemma sample_query_ok:
  "wf_expr e \<Longrightarrow> (\<And>\<rho>. checked \<rho> e) \<Longrightarrow> value_query (sample_query e)"
proof -
  have "sat (\<lambda>_ _. 0) [sample_bound 5]" by (simp add: sample_bound_def eval_sample cell_def const8_def mkAPInt_def take_bit_id)
  then show "wf_expr e \<Longrightarrow> (\<And>\<rho>. checked \<rho> e) \<Longrightarrow> value_query (sample_query e)"
    using sample_wf by (auto simp: value_query_def wf_query_def consistent_def sample_query_def)
qed

text \<open>
  The front end over any solver that keeps the contract. On a consistent well-formed query the four
  truth tests and \<open>evaluate\<close> decide validity of the query and of its negation exactly as the comments of
  \<open>Solver.h\<close> state, \<open>getValue\<close> returns a value the expression takes under some assignment of the constraints, and
  none of them fails an assertion.
\<close>

theorem front_end_correct:
  assumes "solver_contract impl Inv fails init" "truth_query q"
  shows "sound_call fails Inv (\<lambda>b. b = valid q) (mustBeTrue impl q) \<and>
    sound_call fails Inv (\<lambda>b. b = valid_not q) (mustBeFalse impl q) \<and>
    sound_call fails Inv (\<lambda>b. b = (\<exists>\<rho>. sat \<rho> (constraints q) \<and> eval \<rho> (qexpr q) = 1)) (mayBeTrue impl q) \<and>
    sound_call fails Inv (\<lambda>b. b = (\<exists>\<rho>. sat \<rho> (constraints q) \<and> eval \<rho> (qexpr q) = 0)) (mayBeFalse impl q) \<and>
    sound_call fails Inv (\<lambda>v. v = validity_of q) (Solver_evaluate impl q) \<and>
    sound_call fails Inv (possible_value q) (getValue impl q)"
proof -
  have "\<not> valid_not q \<longleftrightarrow> (\<exists>\<rho>. sat \<rho> (constraints q) \<and> eval \<rho> (qexpr q) = 1)"
    "\<not> valid q \<longleftrightarrow> (\<exists>\<rho>. sat \<rho> (constraints q) \<and> eval \<rho> (qexpr q) = 0)"
    using truth_queryD(5) [OF assms(2)] unfolding valid_def valid_not_def by (metis zero_neq_one)+
  moreover have "value_query q" using assms(2) by (simp add: truth_query_def)
  ultimately show ?thesis
    using solver_contract.must_true [OF assms] solver_contract.must_false [OF assms]
      solver_contract.may_be_true [OF assms] solver_contract.may_be_false [OF assms]
      solver_contract.evaluate_validity [OF assms] solver_contract.get_value [OF assms(1)] by simp
qed

theorem front_end_correct_witness:
  "sound_call False (\<lambda>_. True) (\<lambda>b. b = valid (sample_query (sample_bound 9))) (mustBeTrue reference_solver (sample_query (sample_bound 9)))"
proof -
  have "truth_query (sample_query (sample_bound 9))"
    using sample_query_ok [OF sample_wf(2,5)] sample_wf(3) by (simp add: truth_query_def sample_query_def)
  from front_end_correct [OF reference.solver_contract_axioms this] show ?thesis by simp
qed

text \<open>
  C19: \<open>getRange\<close> over a solver that keeps the contract and does not fail. The binary searches end, no assertion
  fails, and the two constants returned are a tight range: every possible value lies between them and both are
  possible values (the postcondition written in \<open>Solver.h\<close>).
\<close>

theorem getRange_tight:
  assumes "solver_contract impl Inv False init" "value_query q" "getWidth (qexpr q) \<le> 64" "Inv s"
  shows "\<exists>lo hi s'. getRange impl q s = (Success (range_const q lo, range_const q hi), s') \<and> Inv s' \<and>
    (\<forall>\<rho>. sat \<rho> (constraints q) \<longrightarrow> int lo \<le> eval \<rho> (qexpr q) \<and> eval \<rho> (qexpr q) \<le> int hi) \<and>
    (\<exists>\<rho>. sat \<rho> (constraints q) \<and> eval \<rho> (qexpr q) = int lo) \<and>
    (\<exists>\<rho>. sat \<rho> (constraints q) \<and> eval \<rho> (qexpr q) = int hi)"
proof -
  have wt: "wt (qexpr q)" and cons: "consistent q" using assms(2) by (auto simp: value_query_def wf_query_def wf_expr_def)
  have "sound_call False Inv (range_result q) (getRange impl q)"
  proof (cases "getWidth (qexpr q) = 1")
    case True
    then show ?thesis
      using solver_contract.range_bool [OF assms(1)] assms(2) by (simp add: truth_query_def)
  next
    case False
    then have w: "1 < getWidth (qexpr q)" using wt_width_pos [OF wt] by simp
    show ?thesis
    proof (cases "asConst (qexpr q)")
      case None
      then show ?thesis using solver_contract.range_search [OF assms(1,2) w assms(3)] by simp
    next
      case (Some CE)
      then have "0 \<le> uval CE" using eval_range(2) [OF wt] by simp
      then have "tight_range q (nat (uval CE)) (nat (uval CE))"
        using Some cons by (auto simp: tight_range_def consistent_def)
      then have "range_result q (range_const q (nat (uval CE)), range_const q (nat (uval CE)))"
        unfolding range_result_def by blast
      then show ?thesis
        using Some False assms(3) by (auto simp: getRange_def Let_def getZExtValue_def range_const_def)
    qed
  qed
  from sound_callD [OF this assms(4)] show ?thesis
    unfolding range_result_def tight_range_def
    by (cases "getRange impl q s"; cases "fst (getRange impl q s)") fastforce+
qed

theorem getRange_tight_witness:
  "\<exists>lo hi. fst (getRange reference_solver (sample_query (sample_read 0)) ()) =
     Success (range_const (sample_query (sample_read 0)) lo, range_const (sample_query (sample_read 0)) hi)"
proof -
  have q: "value_query (sample_query (sample_read 0))" using sample_query_ok [OF sample_wf(1,4)] by simp
  have "getWidth (qexpr (sample_query (sample_read 0))) \<le> 64" by (simp add: sample_query_def)
  from getRange_tight [OF reference.solver_contract_axioms q this, of "()"] show ?thesis by auto
qed

end
