(* ===== verification/CachingSolver.thy ===== *)
theory CachingSolver
  imports Solver
begin

text \<open>
  The partial validities and the staged solver of \<open>klee/lib/Solver/IncompleteSolver.cpp\<close> and the branch cache of
  \<open>klee/lib/Solver/CachingSolver.cpp\<close>. An incomplete solver is a parameter: a record of the functions the staged
  solver calls. The cache is a finite map from constraints and canonical query to a partial validity; entries are
  kept for ever, and the insertion of \<open>std::unordered_map\<close> leaves an entry that is already there unchanged.
\<close>

subsection \<open>Partial validity\<close>

datatype PartialValidity = MustBeTrue | MustBeFalse | MayBeTrue | MayBeFalse | TrueOrFalse | PVNone

fun negatePartialValidity :: "PartialValidity \<Rightarrow> PartialValidity option" where
  "negatePartialValidity MustBeTrue = Some MustBeFalse"
| "negatePartialValidity MustBeFalse = Some MustBeTrue"
| "negatePartialValidity MayBeTrue = Some MayBeFalse"
| "negatePartialValidity MayBeFalse = Some MayBeTrue"
| "negatePartialValidity TrueOrFalse = Some TrueOrFalse"
| "negatePartialValidity PVNone = None"

record incomplete_solver =
  ic_computeTruth :: "query \<Rightarrow> PartialValidity"
  ic_computeValidity :: "query \<Rightarrow> PartialValidity"
  ic_computeValue :: "query \<Rightarrow> expr option"
  ic_computeInitialValues :: "query \<Rightarrow> array list \<Rightarrow> 8 word list list option option"

definition IncompleteSolver_computeValidity :: "(query \<Rightarrow> PartialValidity) \<Rightarrow> query \<Rightarrow> PartialValidity" where
  "IncompleteSolver_computeValidity truth query =
     (let trueResult = truth query in
      if trueResult = MustBeTrue then MustBeTrue
      else let falseResult = truth (negateExpr query) in
        if falseResult = MustBeTrue then MustBeFalse
        else let trueCorrect = (trueResult \<noteq> PVNone); falseCorrect = (falseResult \<noteq> PVNone) in
          if trueCorrect \<and> falseCorrect then TrueOrFalse
          else if trueCorrect then MayBeFalse
          else if falseCorrect then MayBeTrue
          else PVNone)"

definition StagedSolver :: "incomplete_solver \<Rightarrow> 's solver_impl \<Rightarrow> 's solver_impl" where
  "StagedSolver primary secondary =
     \<lparr>computeTruth = \<lambda>query.
        (let trueResult = ic_computeTruth primary query in
         if trueResult \<noteq> PVNone then return (trueResult = MustBeTrue) else computeTruth secondary query),
      computeValidity = \<lambda>query.
        (case ic_computeValidity primary query of
           MustBeTrue \<Rightarrow> return VTrue
         | MustBeFalse \<Rightarrow> return VFalse
         | TrueOrFalse \<Rightarrow> return VUnknown
         | MayBeTrue \<Rightarrow> and_then (computeTruth secondary query) (\<lambda>tmp. return (if tmp then VTrue else VUnknown))
         | MayBeFalse \<Rightarrow> and_then (computeTruth secondary (negateExpr query)) (\<lambda>tmp. return (if tmp then VFalse else VUnknown))
         | PVNone \<Rightarrow> computeValidity secondary query),
      computeValue = \<lambda>query.
        (case ic_computeValue primary query of Some result \<Rightarrow> return result | None \<Rightarrow> computeValue secondary query),
      computeInitialValues = \<lambda>query objects.
        (case ic_computeInitialValues primary query objects of
           Some r \<Rightarrow> return r | None \<Rightarrow> computeInitialValues secondary query objects)\<rparr>"

subsection \<open>The branch cache\<close>

type_synonym cache_map = "expr list \<times> expr \<rightharpoonup> PartialValidity"

record 's caching_state =
  cache :: cache_map
  solver_state :: 's

definition on_solver :: "('s, 'a) call \<Rightarrow> ('s caching_state, 'a) call" where
  "on_solver m st = (case m (solver_state st) of (r, s') \<Rightarrow> (r, st\<lparr>solver_state := s'\<rparr>))"

text \<open>The canonical query and whether it is the negation.\<close>

definition canonicalizeQuery :: "expr \<Rightarrow> expr \<times> bool" where
  "canonicalizeQuery originalQuery =
     (let negatedQuery = createIsZero originalQuery in
      if originalQuery < negatedQuery then (originalQuery, False) else (negatedQuery, True))"

definition cacheLookup :: "query \<Rightarrow> ('s caching_state, PartialValidity option) call" where
  "cacheLookup query st =
     (let (canonicalQuery, negationUsed) = canonicalizeQuery (qexpr query) in
      case cache st (constraints query, canonicalQuery) of
        None \<Rightarrow> (Success None, st)
      | Some pv \<Rightarrow>
          if negationUsed then
            (case negatePartialValidity pv of None \<Rightarrow> (Aborted, st) | Some pv' \<Rightarrow> (Success (Some pv'), st))
          else (Success (Some pv), st))"

definition cacheInsert :: "query \<Rightarrow> PartialValidity \<Rightarrow> ('s caching_state, unit) call" where
  "cacheInsert query result st =
     (let (canonicalQuery, negationUsed) = canonicalizeQuery (qexpr query);
          key = (constraints query, canonicalQuery)
      in case (if negationUsed then negatePartialValidity result else Some result) of
           None \<Rightarrow> (Aborted, st)
         | Some cachedResult \<Rightarrow>
             (Success (), if cache st key = None then st\<lparr>cache := (cache st)(key \<mapsto> cachedResult)\<rparr> else st))"

definition insert_and_return :: "query \<Rightarrow> PartialValidity \<Rightarrow> 'a \<Rightarrow> ('s caching_state, 'a) call" where
  "insert_and_return query pv x = and_then (cacheInsert query pv) (\<lambda>_. return x)"

definition caching_computeValidity :: "'s solver_impl \<Rightarrow> query \<Rightarrow> ('s caching_state, Validity) call" where
  "caching_computeValidity solver query =
     and_then (cacheLookup query) (\<lambda>hit.
       case hit of
         Some MustBeTrue \<Rightarrow> return VTrue
       | Some MustBeFalse \<Rightarrow> return VFalse
       | Some TrueOrFalse \<Rightarrow> return VUnknown
       | Some MayBeTrue \<Rightarrow>
           and_then (on_solver (computeTruth solver query)) (\<lambda>tmp.
             if tmp then insert_and_return query MustBeTrue VTrue
             else insert_and_return query TrueOrFalse VUnknown)
       | Some MayBeFalse \<Rightarrow>
           and_then (on_solver (computeTruth solver (negateExpr query))) (\<lambda>tmp.
             if tmp then insert_and_return query MustBeFalse VFalse
             else insert_and_return query TrueOrFalse VUnknown)
       | Some PVNone \<Rightarrow> aborted
       | None \<Rightarrow>
           and_then (on_solver (computeValidity solver query)) (\<lambda>result.
             insert_and_return query
               (case result of VTrue \<Rightarrow> MustBeTrue | VFalse \<Rightarrow> MustBeFalse | VUnknown \<Rightarrow> TrueOrFalse) result))"

definition caching_computeTruth :: "'s solver_impl \<Rightarrow> query \<Rightarrow> ('s caching_state, bool) call" where
  "caching_computeTruth solver query =
     and_then (cacheLookup query) (\<lambda>hit.
       case hit of
         Some cachedResult \<Rightarrow>
           if cachedResult \<noteq> MayBeTrue then return (cachedResult = MustBeTrue)
           else and_then (on_solver (computeTruth solver query)) (\<lambda>isValid.
             insert_and_return query (if isValid then MustBeTrue else TrueOrFalse) isValid)
       | None \<Rightarrow> and_then (on_solver (computeTruth solver query)) (\<lambda>isValid.
             insert_and_return query (if isValid then MustBeTrue else MayBeFalse) isValid))"

definition CachingSolver :: "'s solver_impl \<Rightarrow> 's caching_state solver_impl" where
  "CachingSolver solver =
     \<lparr>computeTruth = caching_computeTruth solver, computeValidity = caching_computeValidity solver,
      computeValue = \<lambda>query. on_solver (computeValue solver query),
      computeInitialValues = \<lambda>query objects. on_solver (computeInitialValues solver query objects)\<rparr>"

subsection \<open>What a partial validity claims\<close>

fun pv_ok :: "query \<Rightarrow> PartialValidity \<Rightarrow> bool" where
  "pv_ok q MustBeTrue \<longleftrightarrow> valid q"
| "pv_ok q MustBeFalse \<longleftrightarrow> valid_not q"
| "pv_ok q MayBeTrue \<longleftrightarrow> \<not> valid_not q"
| "pv_ok q MayBeFalse \<longleftrightarrow> \<not> valid q"
| "pv_ok q TrueOrFalse \<longleftrightarrow> \<not> valid q \<and> \<not> valid_not q"
| "pv_ok q PVNone \<longleftrightarrow> True"

lemma pv_ok_negate:
  assumes "truth_query q" "negatePartialValidity pv = Some pv'"
  shows "pv_ok (negateExpr q) pv \<longleftrightarrow> pv_ok q pv'"
  using assms(2) valid_negate [OF truth_bool [OF assms(1)]] by (cases pv) auto

lemma negate_involution: "negatePartialValidity pv = Some pv' \<Longrightarrow> negatePartialValidity pv' = Some pv"
  by (cases pv) auto

lemma negate_total: "pv \<noteq> PVNone \<Longrightarrow> \<exists>pv'. negatePartialValidity pv = Some pv' \<and> pv' \<noteq> PVNone"
  by (cases pv) auto

lemma pv_validity:
  assumes "truth_query q" "pv_ok q pv"
  shows "pv = MustBeTrue \<Longrightarrow> validity_of q = VTrue" "pv = MustBeFalse \<Longrightarrow> validity_of q = VFalse"
    "pv = TrueOrFalse \<Longrightarrow> validity_of q = VUnknown"
  using assms validity_exclusive [OF assms(1)] by (auto simp: validity_of_def)

definition incomplete_sound :: "(query \<Rightarrow> bool) \<Rightarrow> incomplete_solver \<Rightarrow> bool" where
  "incomplete_sound init p \<longleftrightarrow>
     (\<forall>q. truth_query q \<longrightarrow> pv_ok q (ic_computeTruth p q) \<and> ic_computeTruth p q \<noteq> MayBeTrue \<and> pv_ok q (ic_computeValidity p q)) \<and>
     (\<forall>q e. value_query q \<and> ic_computeValue p q = Some e \<longrightarrow> (\<exists>c. e = ConstantExpr c \<and> possible_value q c)) \<and>
     (\<forall>q objects. init q \<and> list_all byte_object objects \<longrightarrow>
        (case ic_computeInitialValues p q objects of
           Some None \<Rightarrow> valid q | Some (Some vs) \<Rightarrow> is_solution q objects vs | None \<Rightarrow> True))"

lemma default_incomplete_validity:
  assumes "truth_query q"
    and truth: "\<And>q. truth_query q \<Longrightarrow> pv_ok q (truth q) \<and> truth q \<noteq> MayBeTrue"
  shows "pv_ok q (IncompleteSolver_computeValidity truth q)"
  using truth [OF assms(1)] truth [OF truth_query_negate [OF assms(1)]] valid_negate [OF truth_bool [OF assms(1)]]
    validity_exclusive [OF assms(1)] validity_exclusive [OF truth_query_negate [OF assms(1)]]
  by (cases "truth q"; cases "truth (negateExpr q)") (auto simp: IncompleteSolver_computeValidity_def)

subsection \<open>The staged solver keeps the contract\<close>

lemma staged_contract:
  assumes "solver_contract secondary Inv fails init" "incomplete_sound init primary"
  shows "solver_contract (StagedSolver primary secondary) Inv fails init"
proof -
  note sec = solver_contract.truth [OF assms(1)] solver_contract.validity [OF assms(1)]
    solver_contract.value_of [OF assms(1)] solver_contract.initial_values [OF assms(1)]
  have prim: "pv_ok q (ic_computeTruth primary q)" "ic_computeTruth primary q \<noteq> MayBeTrue" "pv_ok q (ic_computeValidity primary q)"
    if "truth_query q" for q using assms(2) that by (auto simp: incomplete_sound_def)
  show ?thesis
  proof
    fix q assume q: "truth_query q"
    show "sound_call fails Inv (\<lambda>b. b = valid q) (computeTruth (StagedSolver primary secondary) q)"
      using prim(1,2) [OF q] sec(1) [OF q] validity_exclusive [OF q]
      by (cases "ic_computeTruth primary q") (auto simp: StagedSolver_def Let_def)
    show "sound_call fails Inv (\<lambda>v. v = validity_of q) (computeValidity (StagedSolver primary secondary) q)"
      using prim(3) [OF q] sec(2) [OF q] pv_validity [OF q prim(3) [OF q]] valid_negate(1) [OF truth_bool [OF q]]
      by (cases "ic_computeValidity primary q")
        (auto simp: StagedSolver_def validity_of_def
          intro!: sound_and_then [OF sec(1) [OF q]] sound_and_then [OF sec(1) [OF truth_query_negate [OF q]]])
  next
    fix q assume "value_query q"
    then show "sound_call fails Inv (\<lambda>e. \<exists>c. e = ConstantExpr c \<and> possible_value q c) (computeValue (StagedSolver primary secondary) q)"
      using assms(2) sec(3) by (auto simp: StagedSolver_def incomplete_sound_def split: option.split)
  next
    fix q objects assume q: "init q" "list_all byte_object objects"
    then have "case ic_computeInitialValues primary q objects of
        Some None \<Rightarrow> valid q | Some (Some vs) \<Rightarrow> is_solution q objects vs | None \<Rightarrow> True"
      using assms(2) by (simp add: incomplete_sound_def)
    with sec(4) [OF q] show "sound_call fails Inv (\<lambda>r. case r of None \<Rightarrow> valid q | Some values \<Rightarrow> is_solution q objects values)
        (computeInitialValues (StagedSolver primary secondary) q objects)"
      by (auto simp: StagedSolver_def split: option.splits)
  qed (use solver_contract.init_bool [OF assms(1)] in auto)
qed

subsection \<open>The branch cache keeps the contract\<close>

text \<open>Every entry holds a partial validity that is right for its constraints and canonical query.\<close>

definition entry_query :: "expr list \<times> expr \<Rightarrow> query" where
  "entry_query key = \<lparr>constraints = fst key, qexpr = snd key\<rparr>"

definition cache_ok :: "cache_map \<Rightarrow> bool" where
  "cache_ok c \<longleftrightarrow> (\<forall>key pv. c key = Some pv \<longrightarrow> pv \<noteq> PVNone \<and> (truth_query (entry_query key) \<longrightarrow> pv_ok (entry_query key) pv))"

definition caching_inv :: "('s \<Rightarrow> bool) \<Rightarrow> 's caching_state \<Rightarrow> bool" where
  "caching_inv Inv st \<longleftrightarrow> cache_ok (cache st) \<and> Inv (solver_state st)"

lemma sound_on_solver: "sound_call fails Inv P m \<Longrightarrow> sound_call fails (caching_inv Inv) P (on_solver m)"
  unfolding sound_call_def on_solver_def caching_inv_def by (auto split: prod.split)

lemma entry_canonical:
  "entry_query (constraints q, fst (canonicalizeQuery (qexpr q))) = (if snd (canonicalizeQuery (qexpr q)) then negateExpr q else q)"
  by (simp add: canonicalizeQuery_def entry_query_def Let_def negateExpr_def withExpr_def)

text \<open>A partial validity for the query and the one stored for its canonical form say the same.\<close>

lemma canonical_pv:
  assumes "truth_query q" "(if snd (canonicalizeQuery (qexpr q)) then negatePartialValidity pv else Some pv) = Some pv'"
  shows "pv_ok (entry_query (constraints q, fst (canonicalizeQuery (qexpr q)))) pv \<longleftrightarrow> pv_ok q pv'"
    "pv_ok (entry_query (constraints q, fst (canonicalizeQuery (qexpr q)))) pv' \<longleftrightarrow> pv_ok q pv"
proof -
  have "pv_ok (negateExpr q) pv \<longleftrightarrow> pv_ok q pv'" "pv_ok (negateExpr q) pv' \<longleftrightarrow> pv_ok q pv"
    if "negatePartialValidity pv = Some pv'"
    using pv_ok_negate [OF assms(1) that] pv_ok_negate [OF assms(1) negate_involution [OF that]] by simp_all
  with assms(2) show "pv_ok (entry_query (constraints q, fst (canonicalizeQuery (qexpr q)))) pv \<longleftrightarrow> pv_ok q pv'"
    "pv_ok (entry_query (constraints q, fst (canonicalizeQuery (qexpr q)))) pv' \<longleftrightarrow> pv_ok q pv"
    unfolding entry_canonical by (cases "snd (canonicalizeQuery (qexpr q))"; simp)+
qed

lemma entry_truth: "truth_query q \<Longrightarrow> truth_query (entry_query (constraints q, fst (canonicalizeQuery (qexpr q))))"
  using truth_query_negate by (simp add: entry_canonical)

lemma sound_cacheLookup:
  assumes "truth_query q"
  shows "sound_call fails (caching_inv Inv) (\<lambda>hit. \<forall>pv. hit = Some pv \<longrightarrow> pv \<noteq> PVNone \<and> pv_ok q pv) (cacheLookup q)"
  unfolding sound_call_def
proof (intro allI impI)
  fix st :: "'a caching_state" assume inv: "caching_inv Inv st"
  obtain e neg where e: "canonicalizeQuery (qexpr q) = (e, neg)" by (cases "canonicalizeQuery (qexpr q)")
  note pv = canonical_pv(1) [OF assms, unfolded e fst_conv snd_conv] and tq = entry_truth [OF assms, unfolded e fst_conv]
  show "caching_inv Inv (snd (cacheLookup q st)) \<and> (case fst (cacheLookup q st) of
      Success hit \<Rightarrow> \<forall>pv. hit = Some pv \<longrightarrow> pv \<noteq> PVNone \<and> pv_ok q pv | Failure \<Rightarrow> fails | Aborted \<Rightarrow> False)"
  proof (cases "cache st (constraints q, e)")
    case None
    then show ?thesis using inv by (simp add: cacheLookup_def e)
  next
    case (Some c)
    with inv tq have c: "c \<noteq> PVNone" "pv_ok (entry_query (constraints q, e)) c"
      by (auto simp: caching_inv_def cache_ok_def)
    with negate_total [OF c(1)] pv Some inv show ?thesis by (cases neg) (auto simp: cacheLookup_def e)
  qed
qed

lemma sound_cacheInsert:
  assumes "truth_query q" "pv \<noteq> PVNone" "pv_ok q pv"
  shows "sound_call fails (caching_inv Inv) (\<lambda>_. True) (cacheInsert q pv)"
  unfolding sound_call_def
proof (intro allI impI)
  fix st :: "'a caching_state" assume inv: "caching_inv Inv st"
  obtain e neg where e: "canonicalizeQuery (qexpr q) = (e, neg)" by (cases "canonicalizeQuery (qexpr q)")
  obtain pv' where pv': "(if neg then negatePartialValidity pv else Some pv) = Some pv'" "pv' \<noteq> PVNone"
    using negate_total [OF assms(2)] assms(2) by (cases neg) auto
  have "pv_ok (entry_query (constraints q, e)) pv'"
    using canonical_pv(2) [OF assms(1)] pv'(1) assms(3) by (simp add: e)
  with pv' inv show "caching_inv Inv (snd (cacheInsert q pv st)) \<and>
      (case fst (cacheInsert q pv st) of Success x \<Rightarrow> True | Failure \<Rightarrow> fails | Aborted \<Rightarrow> False)"
    by (auto simp: cacheInsert_def e caching_inv_def cache_ok_def Let_def)
qed

lemma sound_insert_and_return:
  assumes "truth_query q" "pv \<noteq> PVNone" "pv_ok q pv" "P x"
  shows "sound_call fails (caching_inv Inv) P (insert_and_return q pv x)"
  unfolding insert_and_return_def using assms by (intro sound_and_then [OF sound_cacheInsert]) auto

context solver_contract
begin

lemma caching_truth:
  assumes q: "truth_query q"
  shows "sound_call fails (caching_inv Inv) (\<lambda>b. b = valid q) (caching_computeTruth impl q)"
  unfolding caching_computeTruth_def
proof (rule sound_and_then [OF sound_cacheLookup [OF q]])
  fix hit assume hit: "\<forall>pv. hit = Some pv \<longrightarrow> pv \<noteq> PVNone \<and> pv_ok q pv"
  note ask = sound_and_then [OF sound_on_solver [OF truth [OF q]]] and ins = sound_insert_and_return [OF q]
  show "sound_call fails (caching_inv Inv) (\<lambda>b. b = valid q) (case hit of
         Some cachedResult \<Rightarrow>
           if cachedResult \<noteq> MayBeTrue then return (cachedResult = MustBeTrue)
           else and_then (on_solver (computeTruth impl q)) (\<lambda>isValid.
             insert_and_return q (if isValid then MustBeTrue else TrueOrFalse) isValid)
       | None \<Rightarrow> and_then (on_solver (computeTruth impl q)) (\<lambda>isValid.
             insert_and_return q (if isValid then MustBeTrue else MayBeFalse) isValid))"
  proof (cases hit)
    case None
    then show ?thesis by (auto intro!: ask ins split: if_splits)
  next
    case (Some pv)
    with hit have "pv \<noteq> PVNone" "pv_ok q pv" by auto
    with Some validity_exclusive [OF q] show ?thesis
      by (cases pv) (auto intro!: ask ins split: if_splits)
  qed
qed

lemma caching_validity:
  assumes q: "truth_query q"
  shows "sound_call fails (caching_inv Inv) (\<lambda>v. v = validity_of q) (caching_computeValidity impl q)"
  unfolding caching_computeValidity_def
proof (rule sound_and_then [OF sound_cacheLookup [OF q]], goal_cases)
  case (1 hit)
  note ask = sound_and_then [OF sound_on_solver [OF truth [OF q]]]
    sound_and_then [OF sound_on_solver [OF truth [OF truth_query_negate [OF q]]]]
    sound_and_then [OF sound_on_solver [OF validity [OF q]]] and ins = sound_insert_and_return [OF q]
  show ?case
  proof (cases hit)
    case None
    then show ?thesis
      by (auto simp: validity_of_def intro!: ask ins)
  next
    case (Some pv)
    with 1 have pv: "pv \<noteq> PVNone" "pv_ok q pv" by auto
    note v = pv_validity [OF q pv(2)] valid_negate(1) [OF truth_bool [OF q]] validity_exclusive [OF q]
    show ?thesis
      using pv v Some by (cases pv) (auto simp: validity_of_def intro!: ask ins)
  qed
qed

lemma caching_contract: "solver_contract (CachingSolver impl) (caching_inv Inv) fails init"
  by unfold_locales
    (simp_all add: CachingSolver_def caching_truth caching_validity sound_on_solver value_of initial_values init_bool)

end

subsection \<open>Properties\<close>

definition empty_cache :: "'s \<Rightarrow> 's caching_state" where
  "empty_cache s = \<lparr>cache = Map.empty, solver_state = s\<rparr>"

text \<open>
  C20: The branch cache keeps the contract of the solver it wraps: with an empty cache its invariant holds, and from
  then on every truth value, validity, value and assignment it answers, from the cache or from the solver below, is
  right for the query, no assertion fails, and it fails only when the solver below fails.
\<close>

theorem caching_solver_sound:
  assumes "solver_contract impl Inv fails init" "Inv s"
  shows "caching_inv Inv (empty_cache s) \<and> solver_contract (CachingSolver impl) (caching_inv Inv) fails init"
  using solver_contract.caching_contract [OF assms(1)] assms(2)
  by (simp add: caching_inv_def empty_cache_def cache_ok_def)

theorem caching_solver_sound_witness:
  "solver_contract (CachingSolver reference_solver) (caching_inv (\<lambda>_. True)) False bool_query"
  using caching_solver_sound [OF reference.solver_contract_axioms, of "()"] by simp



text \<open>
  A truth query that was not in the cache is answered a second time from the cache: the same answer, and neither the
  solver below nor the cache changes.
\<close>

theorem repeated_query_hits:
  assumes "cache st (constraints q, fst (canonicalizeQuery (qexpr q))) = None"
    and "caching_computeTruth impl q st = (Success b, st')"
  shows "caching_computeTruth impl q st' = (Success b, st')"
proof -
  obtain e neg where e: "canonicalizeQuery (qexpr q) = (e, neg)" by (cases "canonicalizeQuery (qexpr q)")
  obtain r s' where ask: "computeTruth impl q (solver_state st) = (r, s')" by (cases "computeTruth impl q (solver_state st)")
  with assms e have r: "r = Success b"
    by (cases r) (auto simp: caching_computeTruth_def and_then_def cacheLookup_def on_solver_def insert_and_return_def
        cacheInsert_def Let_def return_def split: if_splits option.splits)
  let ?pv = "if b then MustBeTrue else MayBeFalse"
  obtain pv where pv: "(if neg then negatePartialValidity ?pv else Some ?pv) = Some pv"
    "(if neg then negatePartialValidity pv else Some pv) = Some ?pv"
    by (cases neg; cases b) auto
  have "st' = st\<lparr>solver_state := s', cache := (cache st)((constraints q, e) \<mapsto> pv)\<rparr>"
    using assms e ask r pv
    by (simp add: caching_computeTruth_def and_then_def cacheLookup_def on_solver_def insert_and_return_def
        cacheInsert_def Let_def return_def)
  then show ?thesis
    using pv(2) e by (cases neg; cases b)
      (simp_all add: caching_computeTruth_def and_then_def cacheLookup_def return_def split: option.splits)
qed

theorem repeated_query_hits_witness:
  "caching_computeTruth reference_solver (sample_query (sample_bound 9)) (empty_cache ()) =
     (Success (valid (sample_query (sample_bound 9))),
      snd (caching_computeTruth reference_solver (sample_query (sample_bound 9)) (empty_cache ()))) \<and>
   caching_computeTruth reference_solver (sample_query (sample_bound 9))
       (snd (caching_computeTruth reference_solver (sample_query (sample_bound 9)) (empty_cache ()))) =
     (Success (valid (sample_query (sample_bound 9))),
      snd (caching_computeTruth reference_solver (sample_query (sample_bound 9)) (empty_cache ())))"
proof -
  let ?q = "sample_query (sample_bound 9)"
  have "fst (caching_computeTruth reference_solver ?q (empty_cache ())) = Success (valid ?q)"
    by (cases "canonicalizeQuery (qexpr ?q)")
      (auto simp: caching_computeTruth_def and_then_def cacheLookup_def on_solver_def insert_and_return_def
        cacheInsert_def Let_def return_def empty_cache_def reference_solver_def)
  then have first: "caching_computeTruth reference_solver ?q (empty_cache ()) =
      (Success (valid ?q), snd (caching_computeTruth reference_solver ?q (empty_cache ())))"
    by (cases "caching_computeTruth reference_solver ?q (empty_cache ())") simp
  moreover have "cache (empty_cache ()) (constraints ?q, fst (canonicalizeQuery (qexpr ?q))) = None"
    by (simp add: empty_cache_def)
  ultimately show ?thesis using repeated_query_hits by blast
qed

text \<open>
  C22: A refined answer is never stored. When the cache holds only \<open>MayBeTrue\<close> for a query, \<open>computeTruth\<close> asks the solver
  and inserts the sharper result, but the insertion leaves the old entry: the cache is the same before and after, so the
  solver is asked again every time.
\<close>

theorem refinement_not_cached:
  assumes "cacheLookup q st = (Success (Some MayBeTrue), st)"
    and "computeTruth impl q (solver_state st) = (Success b, s')"
  shows "caching_computeTruth impl q st = (Success b, st\<lparr>solver_state := s'\<rparr>)"
proof -
  obtain e neg where e: "canonicalizeQuery (qexpr q) = (e, neg)" by (cases "canonicalizeQuery (qexpr q)")
  from assms(1) e have "cache st (constraints q, e) \<noteq> None"
    by (auto simp: cacheLookup_def split: if_splits option.splits)
  then show ?thesis
    using assms e by (cases neg; cases b)
      (auto simp: caching_computeTruth_def and_then_def on_solver_def insert_and_return_def cacheInsert_def Let_def return_def)
qed

theorem refinement_not_cached_witness:
  "\<exists>st :: unit caching_state. cacheLookup (sample_query (sample_bound 9)) st = (Success (Some MayBeTrue), st) \<and>
     snd (caching_computeTruth reference_solver (sample_query (sample_bound 9)) st) = st"
proof -
  let ?q = "sample_query (sample_bound 9)"
  obtain e neg where e: "canonicalizeQuery (qexpr ?q) = (e, neg)" by (cases "canonicalizeQuery (qexpr ?q)")
  define st where "st = \<lparr>cache = [(constraints ?q, e) \<mapsto> if neg then MayBeFalse else MayBeTrue], solver_state = ()\<rparr>"
  have "cacheLookup ?q st = (Success (Some MayBeTrue), st)" by (simp add: cacheLookup_def e st_def)
  moreover from refinement_not_cached [OF this, of reference_solver "valid ?q" "()"]
  have "snd (caching_computeTruth reference_solver ?q st) = st" by (simp add: reference_solver_def return_def)
  ultimately show ?thesis by blast
qed

end
