(* ===== verification/MapOfSets.thy ===== *)
theory MapOfSets
  imports Prelude
begin

text \<open>
  The set-trie of \<open>klee/include/klee/Internal/ADT/MapOfSets.h\<close> (a UBTree), with which the
  counterexample cache finds entries for subsets and supersets of a set of constraints. A
  \<open>std::set\<close> is its strictly increasing list of elements; the children of a node, a
  \<open>std::map\<close>, are an association list with increasing keys, in iteration order. A node holds
  its value exactly when it is the end of a stored set (\<open>isEndOfSet\<close>).
\<close>

subsection \<open>Nodes, insertion and lookup\<close>

datatype ('k, 'v) ubnode = UB (endOfSet: "'v option") (children: "('k \<times> ('k, 'v) ubnode) list")

abbreviation emptyNode :: "('k, 'v) ubnode" where
  "emptyNode \<equiv> UB None []"

fun update_child :: "'k::linorder \<Rightarrow> (('k, 'v) ubnode \<Rightarrow> ('k, 'v) ubnode) \<Rightarrow>
    ('k \<times> ('k, 'v) ubnode) list \<Rightarrow> ('k \<times> ('k, 'v) ubnode) list" where
  "update_child k f [] = [(k, f emptyNode)]"
| "update_child k f ((k', c) # cs) =
     (if k < k' then (k, f emptyNode) # (k', c) # cs
      else if k = k' then (k', f c) # cs
      else (k', c) # update_child k f cs)"

fun ub_insert :: "'k::linorder list \<Rightarrow> 'v \<Rightarrow> ('k, 'v) ubnode \<Rightarrow> ('k, 'v) ubnode" where
  "ub_insert [] v (UB e cs) = UB (Some v) cs"
| "ub_insert (x # xs) v (UB e cs) = UB e (update_child x (ub_insert xs v) cs)"

fun ub_lookup :: "'k list \<Rightarrow> ('k, 'v) ubnode \<Rightarrow> 'v option" where
  "ub_lookup [] n = endOfSet n"
| "ub_lookup (x # xs) n = (case map_of (children n) x of None \<Rightarrow> None | Some c \<Rightarrow> ub_lookup xs c)"

definition ub_clear :: "('k, 'v) ubnode \<Rightarrow> ('k, 'v) ubnode" where
  "ub_clear root = UB None []"

lemma child_size: "(k, c) \<in> set cs \<Longrightarrow> size c < Suc (size_list (size_prod (\<lambda>_. 0) size) cs)"
  by (induction cs) auto

lemma map_of_child_size: "map_of cs k = Some c \<Longrightarrow> size c < Suc (size_list (size_prod (\<lambda>_. 0) size) cs)"
  by (drule map_of_SomeD) (rule child_size)

subsection \<open>All subsets and supersets\<close>

text \<open>The accumulated set grows by the element of each edge; the elements come in increasing order.\<close>

function findSubsets :: "('k::linorder, 'v) ubnode \<Rightarrow> 'k list \<Rightarrow> 'k list \<Rightarrow> ('k list \<times> 'v) list"
  and findSubsets_loop :: "('k, 'v) ubnode \<Rightarrow> 'k list \<Rightarrow> 'k list \<Rightarrow> ('k list \<times> 'v) list" where
  "findSubsets n accum its =
     (case endOfSet n of Some v \<Rightarrow> [(accum, v)] | None \<Rightarrow> []) @ findSubsets_loop n accum its"
| "findSubsets_loop n accum [] = []"
| "findSubsets_loop n accum (elt # its) =
     (case map_of (children n) elt of
        None \<Rightarrow> []
      | Some c \<Rightarrow> findSubsets c (accum @ [elt]) its) @ findSubsets_loop n accum its"
  by pat_completeness auto
termination
  by (relation "measures [case_sum (\<lambda>(n, a, its). length its) (\<lambda>(n, a, its). length its),
      case_sum (\<lambda>(n, a, its). 1) (\<lambda>(n, a, its). 0)]") auto

definition subsets :: "('k::linorder, 'v) ubnode \<Rightarrow> 'k list \<Rightarrow> ('k list \<times> 'v) list" where
  "subsets root s = findSubsets root [] s"

function findSupersets :: "('k::linorder, 'v) ubnode \<Rightarrow> 'k list \<Rightarrow> 'k list \<Rightarrow> ('k list \<times> 'v) list"
  and findSupersets_loop :: "('k \<times> ('k, 'v) ubnode) list \<Rightarrow> 'k list \<Rightarrow> 'k list \<Rightarrow> ('k list \<times> 'v) list" where
  "findSupersets n accum its =
     (if its = [] then (case endOfSet n of Some v \<Rightarrow> [(accum, v)] | None \<Rightarrow> []) else []) @
     findSupersets_loop (children n) accum its"
| "findSupersets_loop [] accum its = []"
| "findSupersets_loop ((k, c) # cs) accum its =
     (case its of
        [] \<Rightarrow> findSupersets c (accum @ [k]) [] @ findSupersets_loop cs accum []
      | elt # rest \<Rightarrow>
          if elt = k then findSupersets c (accum @ [k]) rest @ findSupersets_loop cs accum its
          else if k < elt then findSupersets c (accum @ [k]) its @ findSupersets_loop cs accum its
          else [])"
  by pat_completeness auto
termination
proof (relation "measure (case_sum (\<lambda>(n, a, its). 2 * size n)
      (\<lambda>(cs, a, its). 2 * size_list (size_prod (\<lambda>_. 0) size) cs + 1))", goal_cases)
  case (2 n a its)
  then show ?case by (cases n) auto
qed auto

definition supersets :: "('k::linorder, 'v) ubnode \<Rightarrow> 'k list \<Rightarrow> ('k list \<times> 'v) list" where
  "supersets root s = findSupersets root [] s"

subsection \<open>One subset or superset that satisfies a predicate\<close>

function findSubset :: "('v \<Rightarrow> bool) \<Rightarrow> ('k::linorder, 'v) ubnode \<Rightarrow> 'k list \<Rightarrow> 'v option"
  and findSubset_loop :: "('v \<Rightarrow> bool) \<Rightarrow> ('k \<times> ('k, 'v) ubnode) list \<Rightarrow> 'k list \<Rightarrow> 'v option" where
  "findSubset p n its =
     (case endOfSet n of
        Some v \<Rightarrow> if p v then Some v
                   else if its = [] then None
                   else findSubset_loop p (dropWhile (\<lambda>(k, c). k < hd its) (children n)) its
      | None \<Rightarrow> if its = [] then None
                 else findSubset_loop p (dropWhile (\<lambda>(k, c). k < hd its) (children n)) its)"
| "findSubset_loop p [] its = None"
| "findSubset_loop p ((k, c) # cs) its =
     (case dropWhile (\<lambda>x. x < k) its of
        [] \<Rightarrow> None
      | x # rest \<Rightarrow>
          if x = k then
            (case findSubset p c rest of
               Some v \<Rightarrow> Some v
             | None \<Rightarrow> if rest = [] then None
                        else findSubset_loop p (dropWhile (\<lambda>(k, c). k < hd rest) ((k, c) # cs)) rest)
          else findSubset_loop p (dropWhile (\<lambda>(k, c). k < x) ((k, c) # cs)) (x # rest))"
  by pat_completeness auto

abbreviation kids_size :: "('k \<times> ('k, 'v) ubnode) list \<Rightarrow> nat" where
  "kids_size cs \<equiv> size_list (size_prod (\<lambda>_. 0) size) cs"

lemma kids_size_dropWhile: "kids_size (dropWhile P cs) \<le> kids_size cs"
  by (induction cs) auto

lemma kids_size_children: "kids_size (children n) < size n"
  by (cases n) simp

lemma dropWhile_ConsD: "dropWhile P xs = y # ys \<Longrightarrow> length ys < length xs \<and> \<not> P y"
  by (induction xs) (auto split: if_splits)

termination findSubset
proof (relation "measures [case_sum (\<lambda>(p, n, its). size n) (\<lambda>(p, cs, its). kids_size cs),
      case_sum (\<lambda>(p, n, its). 0) (\<lambda>(p, cs, its). length its + length cs)]", goal_cases)
  case (2 p n its)
  then show ?case using kids_size_children [of n] kids_size_dropWhile [of "\<lambda>(k, c). k < hd its" "children n"] by simp
next
  case (3 p n its v)
  then show ?case using kids_size_children [of n] kids_size_dropWhile [of "\<lambda>(k, c). k < hd its" "children n"] by simp
next
  case (5 p k c cs its x rest)
  have "kids_size (dropWhile (\<lambda>(k, c). k < hd rest) ((k, c) # cs)) \<le> kids_size ((k, c) # cs)"
    "length (dropWhile (\<lambda>(k, c). k < hd rest) ((k, c) # cs)) \<le> length ((k, c) # cs)"
    by (rule kids_size_dropWhile, rule length_dropWhile_le)
  moreover have "length rest < length its" using 5 dropWhile_ConsD by metis
  ultimately show ?case by (auto simp: less_le)
next
  case (6 p k c cs its x rest)
  then have "k < x" "length (x # rest) \<le> length its"
    using dropWhile_ConsD [of "\<lambda>x. x < k" its x rest] by auto
  then show ?case
    using kids_size_dropWhile [of "\<lambda>(k, c). k < x" cs] length_dropWhile_le [of "\<lambda>(k, c). k < x" cs] by auto
qed auto

text \<open>\<open>findSuperset\<close> tries every child with the whole rest of the set, then the child of the next element.\<close>

function findSuperset :: "('v \<Rightarrow> bool) \<Rightarrow> ('k::linorder, 'v) ubnode \<Rightarrow> 'k list \<Rightarrow> 'v option"
  and findSuperset_loop :: "('v \<Rightarrow> bool) \<Rightarrow> ('k \<times> ('k, 'v) ubnode) list \<Rightarrow> 'k list \<Rightarrow> 'v option" where
  "findSuperset p n its =
     (case its of
        [] \<Rightarrow> (case endOfSet n of
                  Some v \<Rightarrow> if p v then Some v else findSuperset_loop p (children n) its
                | None \<Rightarrow> findSuperset_loop p (children n) its)
      | x # rest \<Rightarrow>
          (case findSuperset_loop p (children n) its of
             Some v \<Rightarrow> Some v
           | None \<Rightarrow> (case map_of (children n) x of
               None \<Rightarrow> None
             | Some c \<Rightarrow> findSuperset p c rest)))"
| "findSuperset_loop p [] its = None"
| "findSuperset_loop p ((k, c) # cs) its =
     (case findSuperset p c its of Some v \<Rightarrow> Some v | None \<Rightarrow> findSuperset_loop p cs its)"
  by pat_completeness auto
termination
proof -
  have kids: "2 * kids_size (children n) + 1 < 2 * size n" for n :: "('k, 'v) ubnode"
    using kids_size_children [of n] by simp
  have child: "size c < size n" if "map_of (children n) x = Some c" for n c :: "('k, 'v) ubnode" and x
    using map_of_child_size [OF that] by (cases n) simp
  show ?thesis
    by (relation "measure (case_sum (\<lambda>(p, n, its). 2 * size n) (\<lambda>(p, cs, its). 2 * kids_size cs + 1))")
      (simp_all add: kids child kids [simplified])
qed

declare findSubset_loop.simps [simp del]
  findSubsets.simps [simp del] findSupersets.simps [simp del] findSubset.simps [simp del] findSuperset.simps [simp del]

subsection \<open>Well-formed tries\<close>

abbreviation increasing :: "'k::linorder list \<Rightarrow> bool" where
  "increasing xs \<equiv> sorted_wrt (<) xs"

text \<open>The keys of siblings increase, and so do the keys along every path.\<close>

function ub_ok :: "('k::linorder, 'v) ubnode \<Rightarrow> bool" where
  "ub_ok (UB e cs) \<longleftrightarrow> increasing (map fst cs) \<and>
     (\<forall>(k, c)\<in>set cs. ub_ok c \<and> (\<forall>k'\<in>fst ` set (children c). k < k'))"
  by pat_completeness auto
termination
  by (relation "measure size") (auto dest: child_size)

definition kids_ok :: "('k::linorder \<times> ('k, 'v) ubnode) list \<Rightarrow> bool" where
  "kids_ok cs \<longleftrightarrow> increasing (map fst cs) \<and>
     (\<forall>(k, c)\<in>set cs. ub_ok c \<and> (\<forall>k'\<in>fst ` set (children c). k < k'))"

declare ub_ok.simps [simp del]

lemma ub_ok_kids: "ub_ok n \<longleftrightarrow> kids_ok (children n)"
  by (cases n) (simp add: ub_ok.simps kids_ok_def)

lemma ub_ok_increasing: "ub_ok n \<Longrightarrow> increasing (map fst (children n))"
  by (cases n) (simp add: ub_ok.simps)

lemma kids_ok_simps [simp]:
  "kids_ok []"
  "kids_ok ((k, c) # cs) \<longleftrightarrow> (\<forall>k'\<in>fst ` set cs. k < k') \<and> ub_ok c \<and> (\<forall>k'\<in>fst ` set (children c). k < k') \<and> kids_ok cs"
  by (auto simp: kids_ok_def)

lemma kids_ok_distinct: "kids_ok cs \<Longrightarrow> distinct (map fst cs)"
  unfolding kids_ok_def by (simp add: strict_sorted_iff)

lemma kids_ok_dropWhile: "kids_ok cs \<Longrightarrow> kids_ok (dropWhile P cs)"
  by (induction cs) auto

lemma kids_ok_child: "kids_ok cs \<Longrightarrow> map_of cs k = Some c \<Longrightarrow> ub_ok c \<and> (\<forall>k'\<in>fst ` set (children c). k < k')"
  by (auto simp: kids_ok_def dest!: map_of_SomeD)

subsection \<open>Insertion and lookup\<close>

lemma update_child_map:
  "increasing (map fst cs) \<Longrightarrow> map_of (update_child k f cs) k' =
    (if k' = k then Some (f (case map_of cs k of None \<Rightarrow> emptyNode | Some c \<Rightarrow> c)) else map_of cs k')"
proof (induction k f cs rule: update_child.induct)
  case (2 k f k1 c cs)
  have "k < k1 \<Longrightarrow> map_of cs k = None" using "2.prems" by (force simp: map_of_eq_None_iff)
  with 2 show ?case by auto
qed simp

lemma ub_lookup_empty [simp]: "ub_lookup xs emptyNode = None"
  by (cases xs) auto

lemma update_child_keys: "fst ` set (update_child k f cs) = insert k (fst ` set cs)"
  by (induction k f cs rule: update_child.induct) auto

lemma ub_insert_children: "children (ub_insert (x # xs) v n) = update_child x (ub_insert xs v) (children n)"
  "children (ub_insert [] v n) = children n" "endOfSet (ub_insert (x # xs) v n) = endOfSet n"
  "endOfSet (ub_insert [] v n) = Some v"
  by (cases n; simp)+

definition child_or_new :: "'k \<Rightarrow> ('k, 'v) ubnode \<Rightarrow> ('k, 'v) ubnode" where
  "child_or_new k n = (case map_of (children n) k of None \<Rightarrow> emptyNode | Some c \<Rightarrow> c)"

lemma empty_ok [simp]: "ub_ok emptyNode"
  by (simp add: ub_ok_kids)

lemma child_or_new_ok:
  assumes "ub_ok n"
  shows "ub_ok (child_or_new k n)"
proof (cases "map_of (children n) k")
  case (Some c)
  have "kids_ok (children n)" using assms ub_ok_kids by blast
  with Some have "ub_ok c" using kids_ok_child by blast
  with Some show ?thesis by (simp add: child_or_new_def)
qed (simp add: child_or_new_def)

lemma ub_lookup_child: "ub_lookup (x # xs) n = ub_lookup xs (child_or_new x n)"
  by (simp add: child_or_new_def split: option.split)

lemma child_or_new_insert: "ub_ok n \<Longrightarrow>
   child_or_new y (ub_insert (x # xs) v n) = (if y = x then ub_insert xs v (child_or_new x n) else child_or_new y n)"
  by (simp add: child_or_new_def ub_insert_children update_child_map ub_ok_increasing)

lemma ub_lookup_insert:
  "ub_ok n \<Longrightarrow> ub_lookup ys (ub_insert xs v n) = (if ys = xs then Some v else ub_lookup ys n)"
proof (induction xs arbitrary: n ys)
  case Nil
  then show ?case by (cases ys) (simp_all add: ub_insert_children)
next
  case outer: (Cons x xs)
  show ?case
  proof (cases ys)
    case (Cons y ys')
    then show ?thesis
      using outer.IH [OF child_or_new_ok [OF outer.prems, of x], of ys'] outer.prems
      by (cases "ys' = xs") (simp_all add: ub_lookup_child child_or_new_insert del: ub_lookup.simps)
  qed (simp add: ub_insert_children)
qed

lemma update_child_ok:
  assumes "kids_ok cs" "\<And>c. ub_ok c \<Longrightarrow> (\<forall>k'\<in>fst ` set (children c). k < k') \<Longrightarrow> ub_ok (f c) \<and> (\<forall>k'\<in>fst ` set (children (f c)). k < k')"
  shows "kids_ok (update_child k f cs)"
  using assms
proof (induction k f cs rule: update_child.induct)
  case (1 k f)
  have "ub_ok (f emptyNode) \<and> (\<forall>k'\<in>fst ` set (children (f emptyNode)). k < k')"
    by (rule "1.prems"(2)) simp_all
  then show ?case by simp
next
  case (2 k f k1 c cs)
  have new: "ub_ok (f emptyNode) \<and> (\<forall>k'\<in>fst ` set (children (f emptyNode)). k < k')"
    by (rule "2.prems"(2)) simp_all
  consider "k < k1" | "k = k1" | "k1 < k" by (rule linorder_cases)
  then show ?case
  proof cases
    case 1
    with new "2.prems"(1) show ?thesis by (auto dest: less_trans)
  next
    case 2
    moreover have "ub_ok (f c) \<and> (\<forall>k'\<in>fst ` set (children (f c)). k < k')"
      by (rule "2.prems"(2)) (use 2 "2.prems"(1) in simp_all)
    ultimately show ?thesis using "2.prems"(1) by simp
  next
    case 3
    moreover have "kids_ok (update_child k f cs)"
      by (rule "2.IH" [OF _ _ _ "2.prems"(2)]) (use 3 "2.prems"(1) in simp_all)
    ultimately show ?thesis using "2.prems"(1) by (auto simp: update_child_keys)
  qed
qed

lemma ub_insert_ok:
  assumes "ub_ok n" "increasing (k # xs)" "\<forall>k'\<in>fst ` set (children n). k < k'"
  shows "ub_ok (ub_insert xs v n) \<and> (\<forall>k'\<in>fst ` set (children (ub_insert xs v n)). k < k')"
  using assms
proof (induction xs arbitrary: n k)
  case Nil
  then show ?case by (simp add: ub_ok_kids ub_insert_children)
next
  case (Cons x xs)
  have "kids_ok (update_child x (ub_insert xs v) (children n))"
  proof (rule update_child_ok)
    show "kids_ok (children n)" using Cons.prems by (simp add: ub_ok_kids)
  qed (rule Cons.IH, use Cons.prems in auto)
  then show ?case using Cons.prems by (simp add: ub_ok_kids ub_insert_children update_child_keys)
qed

lemma ub_insert_root_ok: "ub_ok n \<Longrightarrow> increasing xs \<Longrightarrow> ub_ok (ub_insert xs v n)"
proof (cases xs)
  case (Cons x xs')
  assume n: "ub_ok n" "increasing xs"
  have "kids_ok (update_child x (ub_insert xs' v) (children n))"
    using n Cons by (intro update_child_ok ub_insert_ok) (auto simp: ub_ok_kids)
  then show ?thesis using Cons by (simp add: ub_ok_kids ub_insert_children)
qed (simp add: ub_ok_kids ub_insert_children)

subsection \<open>Paths and hits\<close>

lemma ub_ok_child: "ub_ok n \<Longrightarrow> map_of (children n) k = Some c \<Longrightarrow> ub_ok c"
  using ub_ok_kids kids_ok_child by blast

lemma lookup_Cons_iff:
  "ub_lookup (k # ks) n = Some v \<longleftrightarrow> (\<exists>c. map_of (children n) k = Some c \<and> ub_lookup ks c = Some v)"
  by (simp split: option.split)

lemma lookup_ConsE:
  assumes "ub_lookup (k # ks) n = Some v"
  obtains c where "map_of (children n) k = Some c" "ub_lookup ks c = Some v"
  using assms unfolding lookup_Cons_iff by blast

text \<open>Every stored set is reached along an increasing path.\<close>

lemma path_increasing: "ub_ok n \<Longrightarrow> ub_lookup ks n = Some v \<Longrightarrow> increasing ks"
proof (induction ks arbitrary: n)
  case (Cons k ks)
  obtain c where c: "map_of (children n) k = Some c" "ub_lookup ks c = Some v"
    using Cons.prems(2) by (rule lookup_ConsE)
  have kids: "ub_ok c \<and> (\<forall>k'\<in>fst ` set (children c). k < k')"
    using Cons.prems(1) c(1) ub_ok_kids kids_ok_child by blast
  have inc: "increasing ks" using Cons.IH kids c(2) by blast
  have "k < hd ks" if ne: "ks \<noteq> []"
  proof -
    obtain y ys where y: "ks = y # ys" using ne by (cases ks) auto
    then obtain c' where "map_of (children c) y = Some c'"
      using c(2) lookup_ConsE [of y ys c v] by metis
    with y show ?thesis using kids map_of_SomeD by fastforce
  qed
  with inc show ?case by (cases ks) auto
qed simp

definition sub_hits :: "('v \<Rightarrow> bool) \<Rightarrow> ('k::linorder, 'v) ubnode \<Rightarrow> 'k set \<Rightarrow> 'v set" where
  "sub_hits p n S = {v. p v \<and> (\<exists>ks. set ks \<subseteq> S \<and> ub_lookup ks n = Some v)}"

definition kid_sub_hits :: "('v \<Rightarrow> bool) \<Rightarrow> ('k::linorder \<times> ('k, 'v) ubnode) list \<Rightarrow> 'k set \<Rightarrow> 'v set" where
  "kid_sub_hits p cs S = {v. \<exists>(k, c)\<in>set cs. k \<in> S \<and> v \<in> sub_hits p c (S \<inter> {k<..})}"

definition super_hits :: "('v \<Rightarrow> bool) \<Rightarrow> ('k::linorder, 'v) ubnode \<Rightarrow> 'k set \<Rightarrow> 'v set" where
  "super_hits p n S = {v. p v \<and> (\<exists>ks. S \<subseteq> set ks \<and> ub_lookup ks n = Some v)}"

definition finds :: "'v option \<Rightarrow> 'v set \<Rightarrow> bool" where
  "finds r H \<longleftrightarrow> (case r of Some v \<Rightarrow> v \<in> H | None \<Rightarrow> H = {})"

lemma finds_simps [simp]: "finds (Some v) H \<longleftrightarrow> v \<in> H" "finds None H \<longleftrightarrow> H = {}"
  by (simp_all add: finds_def)

lemma finds_Un: "finds r H \<Longrightarrow> finds r' H' \<Longrightarrow> finds (case r of Some v \<Rightarrow> Some v | None \<Rightarrow> r') (H \<union> H')"
  by (auto simp: finds_def split: option.splits)

lemma child_of: "ub_ok n \<Longrightarrow> (k, c) \<in> set (children n) \<longleftrightarrow> map_of (children n) k = Some c"
  by (simp add: kids_ok_distinct ub_ok_kids)

lemma sub_hits_kids:
  assumes "ub_ok n"
  shows "sub_hits p n S = {v. p v \<and> endOfSet n = Some v} \<union> kid_sub_hits p (children n) S"
proof (intro equalityI subsetI)
  fix v assume "v \<in> sub_hits p n S"
  then obtain ks where ks: "p v" "set ks \<subseteq> S" "ub_lookup ks n = Some v" by (auto simp: sub_hits_def)
  show "v \<in> {v. p v \<and> endOfSet n = Some v} \<union> kid_sub_hits p (children n) S"
  proof (cases ks)
    case (Cons k ks')
    then obtain c where "map_of (children n) k = Some c" "ub_lookup ks' c = Some v"
      using ks(3) lookup_ConsE [of k ks' n v] by metis
    moreover have "set ks' \<subseteq> {k<..}" using path_increasing [OF assms ks(3)] Cons by auto
    ultimately have "(k, c) \<in> set (children n)" "k \<in> S" "v \<in> sub_hits p c (S \<inter> {k<..})"
      using ks(1,2) Cons map_of_SomeD unfolding sub_hits_def by fastforce+
    then show ?thesis unfolding kid_sub_hits_def by blast
  qed (use ks in auto)
next
  fix v assume "v \<in> {v. p v \<and> endOfSet n = Some v} \<union> kid_sub_hits p (children n) S"
  then show "v \<in> sub_hits p n S"
  proof
    assume "v \<in> kid_sub_hits p (children n) S"
    then obtain k c ks where "(k, c) \<in> set (children n)" "k \<in> S" "p v" "set ks \<subseteq> S" "ub_lookup ks c = Some v"
      by (auto simp: kid_sub_hits_def sub_hits_def)
    then have "ub_lookup (k # ks) n = Some v" "set (k # ks) \<subseteq> S" using child_of [OF assms] by auto
    with \<open>p v\<close> show ?thesis unfolding sub_hits_def by blast
  qed (auto simp: sub_hits_def intro: exI [of _ "[]"])
qed

lemma kid_sub_hits_simps [simp]:
  "kid_sub_hits p [] S = {}" "kid_sub_hits p cs {} = {}"
  "kid_sub_hits p ((k, c) # cs) S = (if k \<in> S then sub_hits p c (S \<inter> {k<..}) else {}) \<union> kid_sub_hits p cs S"
  by (auto simp: kid_sub_hits_def)

lemma kid_sub_hits_drop: "kid_sub_hits p (dropWhile (\<lambda>(k, c). k < x) cs) S = kid_sub_hits p cs S"
  if "\<forall>y\<in>S. x \<le> y"
  using that
proof (induction cs)
  case (Cons kc cs)
  then show ?case by (cases kc; cases "fst kc \<in> S") (use leD in auto)
qed simp

lemma kid_sub_hits_Int:
  assumes "\<forall>k\<in>fst ` set cs. \<forall>y\<in>S - S'. y < k" "S' \<subseteq> S"
  shows "kid_sub_hits p cs S = kid_sub_hits p cs S'"
  using assms
proof (induction cs)
  case (Cons kc cs)
  obtain k c where kc: "kc = (k, c)" by (cases kc)
  have "S \<inter> {k<..} = S' \<inter> {k<..}" "k \<in> S \<longleftrightarrow> k \<in> S'"
    using Cons.prems kc less_asym by fastforce+
  moreover have "kid_sub_hits p cs S = kid_sub_hits p cs S'" using Cons by simp
  ultimately show ?case by (simp add: kc)
qed simp

lemma increasing_dropWhile:
  "increasing xs \<Longrightarrow> set (dropWhile (\<lambda>x. x < k) xs) = {x\<in>set xs. k \<le> x} \<and> increasing (dropWhile (\<lambda>x. x < k) xs)"
  by (induction xs) auto

subsection \<open>The subset search\<close>

lemma findSubset_loop_step:
  assumes cs: "kids_ok ((k, c) # cs)" and its: "increasing its"
  defines "its' \<equiv> dropWhile (\<lambda>x. x < k) its"
  shows "kid_sub_hits p ((k, c) # cs) (set its) = kid_sub_hits p ((k, c) # cs) (set its')"
    and "its' = k # rest \<Longrightarrow>
      kid_sub_hits p ((k, c) # cs) (set its) = sub_hits p c (set rest) \<union> kid_sub_hits p ((k, c) # cs) (set rest)"
proof -
  have set_its': "set its' = {x \<in> set its. k \<le> x}" and inc: "increasing its'"
    using increasing_dropWhile [OF its, of k] by (simp_all add: its'_def)
  show eq: "kid_sub_hits p ((k, c) # cs) (set its) = kid_sub_hits p ((k, c) # cs) (set its')"
    by (rule kid_sub_hits_Int) (use cs set_its' less_trans in force)+
  assume "its' = k # rest"
  with inc have rest: "set its' = insert k (set rest)" "set rest \<subseteq> {k<..}" by auto
  have "kid_sub_hits p cs (set its') = kid_sub_hits p cs (set rest)"
    by (rule kid_sub_hits_Int) (use cs rest in auto)
  moreover have "set its' \<inter> {k<..} = set rest" "k \<notin> set rest" using rest by auto
  ultimately show "kid_sub_hits p ((k, c) # cs) (set its) = sub_hits p c (set rest) \<union> kid_sub_hits p ((k, c) # cs) (set rest)"
    using rest eq by simp
qed

lemma increasing_hd: "increasing xs \<Longrightarrow> xs \<noteq> [] \<Longrightarrow> \<forall>y\<in>set xs. hd xs \<le> y"
  by (cases xs) auto

lemma findSubset_finds:
  "ub_ok n \<Longrightarrow> increasing its \<Longrightarrow> finds (findSubset p n its) (sub_hits p n (set its))"
  "kids_ok cs \<Longrightarrow> increasing its \<Longrightarrow> finds (findSubset_loop p cs its) (kid_sub_hits p cs (set its))"
proof (induction p n its and p cs its rule: findSubset_findSubset_loop.induct)
  case (1 p n its)
  let ?cs = "dropWhile (\<lambda>(k, c). k < hd its) (children n)"
  show ?case
  proof (cases "\<exists>v. endOfSet n = Some v \<and> p v")
    case True
    then show ?thesis unfolding findSubset.simps(1) [of p n its] sub_hits_kids [OF "1.prems"(1)] by auto
  next
    case no_end: False
    have "finds (if its = [] then None else findSubset_loop p ?cs its) (kid_sub_hits p (children n) (set its))"
    proof (cases "its = []")
      case False
      have "kids_ok ?cs" using "1.prems"(1) ub_ok_kids kids_ok_dropWhile by blast
      then have "finds (findSubset_loop p ?cs its) (kid_sub_hits p ?cs (set its))"
        using "1.IH" "1.prems"(2) False no_end by (cases "endOfSet n") auto
      then show ?thesis
        using kid_sub_hits_drop [OF increasing_hd [OF "1.prems"(2) False], of p "children n"] False by simp
    qed simp
    moreover have "sub_hits p n (set its) = kid_sub_hits p (children n) (set its)"
      using no_end sub_hits_kids [OF "1.prems"(1), of p "set its"] by blast
    ultimately show ?thesis
      using no_end unfolding findSubset.simps(1) [of p n its] by (cases "endOfSet n") auto
  qed
next
  case (3 p k c cs its)
  let ?its = "dropWhile (\<lambda>x. x < k) its"
  note step = findSubset_loop_step [OF "3.prems", where p = p]
  show ?case
  proof (cases ?its)
    case Nil
    show ?thesis unfolding step(1) findSubset_loop.simps(2) Nil by simp
  next
    case (Cons x rest)
    have inc: "increasing (x # rest)" using increasing_dropWhile "3.prems"(2) Cons by metis
    have kids_drop: "kids_ok (dropWhile (\<lambda>(k, c). k < y) ((k, c) # cs))" for y
      using "3.prems"(1) by (rule kids_ok_dropWhile)
    show ?thesis
    proof (cases "x = k")
      case True
      let ?cs = "dropWhile (\<lambda>(k, c). k < hd rest) ((k, c) # cs)"
      have "finds (findSubset p c rest) (sub_hits p c (set rest))"
        using "3.IH"(1) [OF Cons True] "3.prems"(1) inc by simp
      moreover have "finds (if rest = [] then None else findSubset_loop p ?cs rest)
          (kid_sub_hits p ((k, c) # cs) (set rest))" if none: "findSubset p c rest = None"
      proof (cases "rest = []")
        case False
        have "finds (findSubset_loop p ?cs rest) (kid_sub_hits p ?cs (set rest))"
          using "3.IH"(2) [OF Cons True none False kids_drop] inc by simp
        then show ?thesis
          using False inc kid_sub_hits_drop [OF increasing_hd [OF _ False], of p "(k, c) # cs"]
          by (simp del: dropWhile.simps kid_sub_hits_simps)
      qed simp
      ultimately have "finds (case findSubset p c rest of Some v \<Rightarrow> Some v
          | None \<Rightarrow> if rest = [] then None else findSubset_loop p ?cs rest)
          (sub_hits p c (set rest) \<union> kid_sub_hits p ((k, c) # cs) (set rest))"
        by (cases "findSubset p c rest") (simp_all del: dropWhile.simps kid_sub_hits_simps)
      then show ?thesis
        using step(2) [of rest] Cons True unfolding findSubset_loop.simps(2)
        by (simp del: dropWhile.simps kid_sub_hits_simps)
    next
      case False
      let ?cs = "dropWhile (\<lambda>(k, c). k < x) ((k, c) # cs)"
      have "finds (findSubset_loop p ?cs (x # rest)) (kid_sub_hits p ?cs (set (x # rest)))"
        by (rule "3.IH"(3) [OF Cons False kids_drop inc])
      moreover have "kid_sub_hits p ?cs (set (x # rest)) = kid_sub_hits p ((k, c) # cs) (set (x # rest))"
        by (rule kid_sub_hits_drop) (use inc in auto)
      ultimately show ?thesis using step(1) Cons False
        by (simp add: findSubset_loop.simps(2) del: dropWhile.simps kid_sub_hits_simps)
    qed
  qed
qed (simp add: findSubset_loop.simps)

subsection \<open>The superset search\<close>

definition kid_super_hits :: "('v \<Rightarrow> bool) \<Rightarrow> ('k::linorder \<times> ('k, 'v) ubnode) list \<Rightarrow> 'k set \<Rightarrow> 'v set" where
  "kid_super_hits p cs S = (\<Union>(k, c)\<in>set cs. super_hits p c S)"

lemma super_hits_Nil:
  assumes "ub_ok n"
  shows "super_hits p n {} = {v. p v \<and> endOfSet n = Some v} \<union> kid_super_hits p (children n) {}"
proof (intro equalityI subsetI)
  fix v assume "v \<in> super_hits p n {}"
  then obtain ks where ks: "p v" "ub_lookup ks n = Some v" by (auto simp: super_hits_def)
  show "v \<in> {v. p v \<and> endOfSet n = Some v} \<union> kid_super_hits p (children n) {}"
  proof (cases ks)
    case (Cons k ks')
    then obtain c where c: "map_of (children n) k = Some c" "ub_lookup ks' c = Some v"
      using ks(2) lookup_ConsE [of k ks' n v] by metis
    then show ?thesis using ks(1) map_of_SomeD [OF c(1)] unfolding kid_super_hits_def super_hits_def by blast
  qed (use ks in simp)
next
  fix v assume "v \<in> {v. p v \<and> endOfSet n = Some v} \<union> kid_super_hits p (children n) {}"
  then show "v \<in> super_hits p n {}"
  proof
    assume "v \<in> kid_super_hits p (children n) {}"
    then obtain k c ks where c: "p v" "(k, c) \<in> set (children n)" "ub_lookup ks c = Some v"
      by (auto simp: kid_super_hits_def super_hits_def)
    then have "ub_lookup (k # ks) n = Some v" using child_of [OF assms] by simp
    with c(1) show ?thesis unfolding super_hits_def by blast
  qed (auto simp: super_hits_def intro: exI [of _ "[]"])
qed

lemma super_hits_Cons:
  assumes n: "ub_ok n" and its: "increasing (x # rest)"
  shows "super_hits p n (set (x # rest)) = kid_super_hits p (children n) (set (x # rest)) \<union>
    (case map_of (children n) x of None \<Rightarrow> {} | Some c \<Rightarrow> super_hits p c (set rest))"
proof (intro equalityI subsetI)
  fix v assume "v \<in> super_hits p n (set (x # rest))"
  then obtain ks where ks: "p v" "set (x # rest) \<subseteq> set ks" "ub_lookup ks n = Some v" by (auto simp: super_hits_def)
  obtain k ks' where k: "ks = k # ks'" using ks(2) by (cases ks) auto
  with ks(3) obtain c where c: "map_of (children n) k = Some c" "ub_lookup ks' c = Some v"
    using lookup_ConsE [of k ks' n v] by metis
  have inc: "\<forall>y\<in>set ks'. k < y" using path_increasing [OF n ks(3)] k by simp
  show "v \<in> kid_super_hits p (children n) (set (x # rest)) \<union>
    (case map_of (children n) x of None \<Rightarrow> {} | Some c \<Rightarrow> super_hits p c (set rest))"
  proof (cases "k = x")
    case True
    have "set rest \<subseteq> set ks'" using ks(2) k True its by auto
    then show ?thesis using c True ks(1) by (auto simp: super_hits_def)
  next
    case False
    then have x: "x \<in> set ks'" using ks(2) k by auto
    then have "k \<notin> set (x # rest)" using inc its less_asym by fastforce
    then have "set (x # rest) \<subseteq> set ks'" using ks(2) k by auto
    then have "v \<in> super_hits p c (set (x # rest))" using ks(1) c(2) unfolding super_hits_def by blast
    moreover have "(k, c) \<in> set (children n)" using c(1) by (rule map_of_SomeD)
    ultimately show ?thesis unfolding kid_super_hits_def by blast
  qed
next
  fix v assume v: "v \<in> kid_super_hits p (children n) (set (x # rest)) \<union>
    (case map_of (children n) x of None \<Rightarrow> {} | Some c \<Rightarrow> super_hits p c (set rest))"
  obtain k c ks where k: "p v" "map_of (children n) k = Some c" "ub_lookup ks c = Some v" "set (x # rest) \<subseteq> set (k # ks)"
  proof (cases "v \<in> kid_super_hits p (children n) (set (x # rest))")
    case True
    then obtain k c where kc: "(k, c) \<in> set (children n)" "v \<in> super_hits p c (set (x # rest))"
      unfolding kid_super_hits_def by blast
    then obtain ks where "p v" "set (x # rest) \<subseteq> set ks" "ub_lookup ks c = Some v" by (auto simp: super_hits_def)
    with kc(1) show thesis using that [of k c ks] child_of [OF n] by auto
  next
    case False
    with v obtain c where c: "map_of (children n) x = Some c" "v \<in> super_hits p c (set rest)"
      by (auto split: option.splits)
    then obtain ks where "p v" "set rest \<subseteq> set ks" "ub_lookup ks c = Some v" by (auto simp: super_hits_def)
    with c(1) show thesis using that [of x c ks] by auto
  qed
  then have "ub_lookup (k # ks) n = Some v" by simp
  with k(1,4) show "v \<in> super_hits p n (set (x # rest))" unfolding super_hits_def by blast
qed

lemma findSuperset_finds:
  "ub_ok n \<Longrightarrow> increasing its \<Longrightarrow> finds (findSuperset p n its) (super_hits p n (set its))"
  "kids_ok cs \<Longrightarrow> increasing its \<Longrightarrow> finds (findSuperset_loop p cs its) (kid_super_hits p cs (set its))"
proof (induction p n its and p cs its rule: findSuperset_findSuperset_loop.induct)
  case (1 p n its)
  have kids: "kids_ok (children n)" using "1.prems"(1) ub_ok_kids by blast
  show ?case
  proof (cases its)
    case Nil
    show ?thesis
    proof (cases "\<exists>v. endOfSet n = Some v \<and> p v")
      case True
      then show ?thesis using Nil super_hits_Nil [OF "1.prems"(1), of p] by (auto simp: findSuperset.simps)
    next
      case no_end: False
      then have "super_hits p n {} = kid_super_hits p (children n) {}"
        using super_hits_Nil [OF "1.prems"(1), of p] by blast
      moreover have "finds (findSuperset_loop p (children n) its) (kid_super_hits p (children n) {})"
        using "1.IH"(1,2) Nil no_end kids by (cases "endOfSet n") auto
      ultimately show ?thesis
        using no_end Nil by (cases "endOfSet n") (auto simp: findSuperset.simps(1) [of p n])
    qed
  next
    case (Cons x rest)
    have loop: "finds (findSuperset_loop p (children n) (x # rest)) (kid_super_hits p (children n) (set (x # rest)))"
      using "1.IH"(3) [OF Cons kids] "1.prems"(2) Cons by simp
    have "finds (case map_of (children n) x of None \<Rightarrow> None | Some c \<Rightarrow> findSuperset p c rest)
        (case map_of (children n) x of None \<Rightarrow> {} | Some c \<Rightarrow> super_hits p c (set rest))"
      if none: "findSuperset_loop p (children n) (x # rest) = None"
    proof (cases "map_of (children n) x")
      case (Some c)
      then show ?thesis
        using "1.IH"(4) [OF Cons _ Some] none Cons ub_ok_child [OF "1.prems"(1) Some] "1.prems"(2) by simp
    qed simp
    with loop show ?thesis
      using super_hits_Cons [OF "1.prems"(1), of x rest p] "1.prems"(2) Cons
      by (cases "findSuperset_loop p (children n) (x # rest)") (auto simp: findSuperset.simps(1) [of p n])
  qed
next
  case (3 p k c cs its)
  then show ?case
    by (cases "findSuperset p c its") (auto simp: findSuperset.simps kid_super_hits_def)
qed (simp add: findSuperset.simps kid_super_hits_def)

subsection \<open>Enumerating subsets and supersets\<close>

lemma findSubsets_loop_set:
  assumes n: "ub_ok n" and its: "increasing (elt # its)"
  shows "(ks \<noteq> [] \<and> set ks \<subseteq> set (elt # its) \<and> ub_lookup ks n = Some v) \<longleftrightarrow>
    (\<exists>c ks'. ks = elt # ks' \<and> map_of (children n) elt = Some c \<and> set ks' \<subseteq> set its \<and> ub_lookup ks' c = Some v) \<or>
    (ks \<noteq> [] \<and> set ks \<subseteq> set its \<and> ub_lookup ks n = Some v)" (is "?l \<longleftrightarrow> ?r")
proof
  assume l: ?l
  then obtain k ks' where k: "ks = k # ks'" by (cases ks) auto
  with l obtain c where c: "map_of (children n) k = Some c" "ub_lookup ks' c = Some v"
    using lookup_ConsE [of k ks' n v] by metis
  have inc: "\<forall>y\<in>set ks'. k < y" using path_increasing [of n ks v] n l k by simp
  then have "elt \<notin> set ks'" using l k its less_asym by fastforce
  then show ?r using l k c by auto
qed auto

lemma findSubsets_set:
  "ub_ok n \<Longrightarrow> increasing its \<Longrightarrow>
     set (findSubsets n accum its) = {(accum @ ks, v) | ks v. set ks \<subseteq> set its \<and> ub_lookup ks n = Some v}"
  "ub_ok n \<Longrightarrow> increasing its \<Longrightarrow>
     set (findSubsets_loop n accum its) =
       {(accum @ ks, v) | ks v. ks \<noteq> [] \<and> set ks \<subseteq> set its \<and> ub_lookup ks n = Some v}"
proof (induction n accum its and n accum its rule: findSubsets_findSubsets_loop.induct)
  case (1 n accum its)
  have "(\<exists>ks. a = accum @ ks \<and> set ks \<subseteq> set its \<and> ub_lookup ks n = Some v) \<longleftrightarrow> (a = accum \<and> endOfSet n = Some v) \<or>
    (\<exists>ks. a = accum @ ks \<and> ks \<noteq> [] \<and> set ks \<subseteq> set its \<and> ub_lookup ks n = Some v)" for a v
    by (rule iffI; elim exE conjE disjE) (use ub_lookup.simps(1) in fastforce)+
  with 1 show ?case by (auto simp: findSubsets.simps(1) [of n] split: option.split)
next
  case (3 n accum elt its)
  note rec = "3.IH"(2) [OF "3.prems"(1)]
  have inc: "increasing its" using "3.prems"(2) by simp
  have child: "set (case map_of (children n) elt of None \<Rightarrow> [] | Some c \<Rightarrow> findSubsets c (accum @ [elt]) its) =
    {(accum @ ks, v) | ks v. \<exists>c ks'. ks = elt # ks' \<and> map_of (children n) elt = Some c \<and> set ks' \<subseteq> set its \<and> ub_lookup ks' c = Some v}"
  proof (cases "map_of (children n) elt")
    case (Some c)
    then show ?thesis using "3.IH"(1) [OF Some ub_ok_child [OF "3.prems"(1) Some] inc] by auto
  qed simp
  show ?case
    unfolding findSubsets_loop.simps(2) set_append child rec [OF inc] findSubsets_loop_set [OF "3.prems"] by blast
qed (simp add: findSubsets.simps)

lemma kids_path:
  assumes "kids_ok ((k, c) # cs)" "(k', c') \<in> set ((k, c) # cs)" "ub_lookup ks c' = Some v"
  shows "k \<le> k' \<and> (\<forall>y\<in>set ks. k' < y)"
proof -
  have "ub_ok (UB None ((k, c) # cs))" using assms(1) by (simp add: ub_ok_kids [of "UB _ _"])
  moreover from this have "ub_lookup (k' # ks) (UB None ((k, c) # cs)) = Some v"
    using child_of [of "UB None ((k, c) # cs)" k' c'] assms(2,3) unfolding lookup_Cons_iff by auto
  ultimately have "increasing (k' # ks)" by (rule path_increasing)
  then show ?thesis using assms(1,2) by (auto intro: less_imp_le)
qed

lemma findSupersets_set:
  fixes n :: "('k::linorder, 'v) ubnode" and cs :: "('k \<times> ('k, 'v) ubnode) list"
  shows "ub_ok n \<Longrightarrow> increasing its \<Longrightarrow>
     set (findSupersets n accum its) = {(accum @ ks, v) | ks v. set its \<subseteq> set ks \<and> ub_lookup ks n = Some v}"
  "kids_ok cs \<Longrightarrow> increasing its \<Longrightarrow>
     set (findSupersets_loop cs accum its) =
       {(accum @ k # ks, v) | k c ks v. (k, c) \<in> set cs \<and> set its \<subseteq> set (k # ks) \<and> ub_lookup ks c = Some v}"
proof (induction n accum its and cs accum its rule: findSupersets_findSupersets_loop.induct)
  case (1 n accum its)
  have split: "ub_lookup ks n = Some v \<longleftrightarrow> (ks = [] \<and> endOfSet n = Some v) \<or>
    (\<exists>k c ks'. ks = k # ks' \<and> (k, c) \<in> set (children n) \<and> ub_lookup ks' c = Some v)" for ks v
    unfolding child_of [OF "1.prems"(1)]
    by (cases ks) (simp_all add: lookup_Cons_iff del: ub_lookup.simps(2))
  have "kids_ok (children n)" using "1.prems"(1) ub_ok_kids by blast
  then have loop: "set (findSupersets_loop (children n) accum its) =
    {(accum @ k # ks, v) | k c ks v. (k, c) \<in> set (children n) \<and> set its \<subseteq> set (k # ks) \<and> ub_lookup ks c = Some v}"
    using "1.IH" "1.prems"(2) by blast
  have ending: "x \<in> set (if its = [] then (case endOfSet n of Some v \<Rightarrow> [(accum, v)] | None \<Rightarrow> []) else []) \<longleftrightarrow>
    its = [] \<and> (\<exists>v. x = (accum, v) \<and> endOfSet n = Some v)" for x
    by (cases "endOfSet n"; cases "its = []"; simp only: option.case if_True if_False simp_thms; simp)
  show ?case
    unfolding findSupersets.simps(1) [of n accum its] set_append loop split
    by (rule set_eqI, simp only: Un_iff ending mem_Collect_eq) (fastforce simp del: ub_lookup.simps)
next
  case (3 k c cs accum its)
  then have c: "ub_ok c" and cs: "kids_ok cs" by auto
  show ?case
  proof (cases its)
    case Nil
    then show ?thesis using "3.IH"(1,2) [OF Nil] c cs by auto
  next
    case (Cons elt rest)
    have inc: "increasing rest" "increasing its" "\<forall>y\<in>set rest. elt < y" using "3.prems"(2) Cons by auto
    consider "elt = k" | "k < elt" | "elt < k" by (rule linorder_cases)
    then show ?thesis
    proof cases
      case 1
      have "set its \<subseteq> set (k # ks) \<longleftrightarrow> set rest \<subseteq> set ks" for ks using 1 inc Cons by auto
      with 1 show ?thesis using "3.IH"(3,4) [OF Cons 1] c cs inc Cons by auto
    next
      case 2
      then have ne: "elt \<noteq> k" by simp
      have "k \<notin> set its" using 2 inc Cons by auto
      then have "set its \<subseteq> set (k # ks) \<longleftrightarrow> set its \<subseteq> set ks" for ks by auto
      with 2 ne show ?thesis using "3.IH"(5,6) [OF Cons ne 2] c cs inc Cons by auto blast
    next
      case 3
      have "elt \<notin> set (k' # ks)" if "(k', c') \<in> set ((k, c) # cs)" "ub_lookup ks c' = Some v" for k' c' ks v
        using kids_path [OF "3.prems"(1) that] 3 by auto
      then have "{(accum @ k' # ks, v) | k' c' ks v. (k', c') \<in> set ((k, c) # cs) \<and> set its \<subseteq> set (k' # ks) \<and>
          ub_lookup ks c' = Some v} = {}"
        using Cons by fastforce
      moreover have "findSupersets_loop ((k, c) # cs) accum its = []" using 3 Cons by auto
      ultimately show ?thesis by (simp del: findSupersets_loop.simps)
    qed
  qed
qed simp

subsection \<open>What the container promises\<close>

text \<open>The sets the counterexample cache may store: reached from the empty container by insertions.\<close>

definition ub_of :: "('k::linorder list \<times> 'v) list \<Rightarrow> ('k, 'v) ubnode" where
  "ub_of entries = fold (\<lambda>(xs, v). ub_insert xs v) entries emptyNode"

lemma ub_fold_ok:
  "ub_ok n \<Longrightarrow> \<forall>(xs, v)\<in>set entries. increasing xs \<Longrightarrow> ub_ok (fold (\<lambda>(xs, v). ub_insert xs v) entries n)"
  by (induction entries arbitrary: n) (auto simp: ub_insert_root_ok)

lemma ub_of_ok: "\<forall>(xs, v)\<in>set entries. increasing xs \<Longrightarrow> ub_ok (ub_of entries)"
  unfolding ub_of_def by (rule ub_fold_ok) simp_all

lemma ub_fold_lookup:
  "ub_ok n \<Longrightarrow> \<forall>(xs, v)\<in>set entries. increasing xs \<Longrightarrow>
     ub_lookup ys (fold (\<lambda>(xs, v). ub_insert xs v) entries n) =
       (case map_of (rev entries) ys of Some v \<Rightarrow> Some v | None \<Rightarrow> ub_lookup ys n)"
proof (induction entries arbitrary: n)
  case (Cons e entries)
  obtain xs v where e: "e = (xs, v)" by (cases e)
  have "ub_ok (ub_insert xs v n)" using Cons.prems e ub_insert_root_ok by auto
  then show ?case using Cons.IH [of "ub_insert xs v n"] Cons.prems
    by (simp add: e ub_lookup_insert map_add_def split: option.split)
qed simp

lemma ub_of_lookup: "\<forall>(xs, v)\<in>set entries. increasing xs \<Longrightarrow> ub_lookup ys (ub_of entries) = map_of (rev entries) ys"
  unfolding ub_of_def by (simp add: ub_fold_lookup split: option.split)

text \<open>
  The contract the counterexample cache relies on: a container \<open>t\<close> of values indexed by sets,
  with a search for a value under a subset and under a superset of a query.
\<close>

locale set_index =
  fixes empty :: "'t"
    and ins :: "'k::linorder list \<Rightarrow> 'v \<Rightarrow> 't \<Rightarrow> 't"
    and find :: "'k list \<Rightarrow> 't \<Rightarrow> 'v option"
    and find_sub :: "('v \<Rightarrow> bool) \<Rightarrow> 't \<Rightarrow> 'k list \<Rightarrow> 'v option"
    and find_super :: "('v \<Rightarrow> bool) \<Rightarrow> 't \<Rightarrow> 'k list \<Rightarrow> 'v option"
    and valid :: "'t \<Rightarrow> bool"
  assumes valid_empty: "valid empty"
    and valid_ins: "valid t \<Longrightarrow> increasing q \<Longrightarrow> valid (ins q v t)"
    and find_empty: "find q empty = None"
    and find_ins: "valid t \<Longrightarrow> find q (ins q' v t) = (if q = q' then Some v else find q t)"
    and find_sub_Some: "valid t \<Longrightarrow> increasing q \<Longrightarrow> find_sub p t q = Some v \<Longrightarrow>
      p v \<and> (\<exists>q'. set q' \<subseteq> set q \<and> find q' t = Some v)"
    and find_sub_None: "valid t \<Longrightarrow> increasing q \<Longrightarrow> find_sub p t q = None \<Longrightarrow>
      set q' \<subseteq> set q \<Longrightarrow> find q' t = Some v \<Longrightarrow> \<not> p v"
    and find_super_Some: "valid t \<Longrightarrow> increasing q \<Longrightarrow> find_super p t q = Some v \<Longrightarrow>
      p v \<and> (\<exists>q'. set q \<subseteq> set q' \<and> find q' t = Some v)"
    and find_super_None: "valid t \<Longrightarrow> increasing q \<Longrightarrow> find_super p t q = None \<Longrightarrow>
      set q \<subseteq> set q' \<Longrightarrow> find q' t = Some v \<Longrightarrow> \<not> p v"
begin

text \<open>A property of all entries that each insertion keeps: what the clients prove of their caches.\<close>

definition entries_sat :: "('k set \<Rightarrow> 'v \<Rightarrow> bool) \<Rightarrow> 't \<Rightarrow> bool" where
  "entries_sat P t \<longleftrightarrow> (\<forall>q v. find q t = Some v \<longrightarrow> P (set q) v)"

lemma entries_sat_empty: "entries_sat P empty"
  by (simp add: entries_sat_def find_empty)

lemma entries_sat_ins: "valid t \<Longrightarrow> entries_sat P t \<Longrightarrow> P (set q) v \<Longrightarrow> entries_sat P (ins q v t)"
  by (simp add: entries_sat_def find_ins)

lemma find_sub_sat:
  assumes "valid t" "entries_sat P t" "increasing q" "find_sub p t q = Some v"
  obtains S where "p v" "S \<subseteq> set q" "P S v"
  using find_sub_Some [OF assms(1,3,4)] assms(2) unfolding entries_sat_def by blast

lemma find_super_sat:
  assumes "valid t" "entries_sat P t" "increasing q" "find_super p t q = Some v"
  obtains S where "p v" "set q \<subseteq> S" "P S v"
  using find_super_Some [OF assms(1,3,4)] assms(2) unfolding entries_sat_def by blast

end

lemma findSubset_result:
  assumes "ub_ok t" "increasing q"
  shows "findSubset p t q = Some v \<Longrightarrow> p v \<and> (\<exists>q'. set q' \<subseteq> set q \<and> ub_lookup q' t = Some v)"
    and "findSubset p t q = None \<Longrightarrow> set q' \<subseteq> set q \<Longrightarrow> ub_lookup q' t = Some v \<Longrightarrow> \<not> p v"
  using findSubset_finds(1) [OF assms, of p] by (auto simp: sub_hits_def)

lemma findSuperset_result:
  assumes "ub_ok t" "increasing q"
  shows "findSuperset p t q = Some v \<Longrightarrow> p v \<and> (\<exists>q'. set q \<subseteq> set q' \<and> ub_lookup q' t = Some v)"
    and "findSuperset p t q = None \<Longrightarrow> set q \<subseteq> set q' \<Longrightarrow> ub_lookup q' t = Some v \<Longrightarrow> \<not> p v"
  using findSuperset_finds(1) [OF assms, of p] by (auto simp: super_hits_def)

interpretation ub: set_index emptyNode ub_insert ub_lookup findSubset findSuperset ub_ok
  by unfold_locales
    (simp, erule (1) ub_insert_root_ok, simp, erule ub_lookup_insert, erule (2) findSubset_result(1),
     erule (4) findSubset_result(2), erule (2) findSuperset_result(1), erule (4) findSuperset_result(2))

text \<open>
  C12: Round trip of insertion and lookup. After any sequence of insertions into an empty
  container, \<open>lookup\<close> returns the value inserted last under exactly that set, and nothing for
  a set never inserted.
\<close>

theorem insert_lookup_roundtrip:
  "\<forall>(xs, v)\<in>set entries. increasing xs \<Longrightarrow>
     ub_lookup ys (fold (\<lambda>(xs, v). ub_insert xs v) entries emptyNode) = map_of (rev entries) ys"
  by (rule ub_of_lookup [unfolded ub_of_def])

theorem insert_lookup_roundtrip_witness:
  "ub_lookup [1, 3::nat] (fold (\<lambda>(xs, v). ub_insert xs v) [([1, 3], ''a''), ([1], ''b''), ([1, 3], ''c'')] emptyNode)
     = Some ''c''"
  by (subst insert_lookup_roundtrip) simp_all

text \<open>
  C13: The subset search finds an entry exactly when there is one. Over the contents built by a
  sequence of insertions, \<open>findSubset\<close> returns the value of some stored subset of the query that
  satisfies the predicate; when it returns null, no stored subset satisfies it.
\<close>

theorem findSubset_correct:
  assumes "\<forall>(xs, v)\<in>set entries. increasing xs" "increasing q"
  shows "case findSubset p (ub_of entries) q of
      Some v \<Rightarrow> p v \<and> (\<exists>xs. set xs \<subseteq> set q \<and> map_of (rev entries) xs = Some v)
    | None \<Rightarrow> \<forall>xs v. set xs \<subseteq> set q \<and> map_of (rev entries) xs = Some v \<longrightarrow> \<not> p v"
  using ub.find_sub_Some [OF ub_of_ok [OF assms(1)] assms(2), of p]
    ub.find_sub_None [OF ub_of_ok [OF assms(1)] assms(2), of p]
  unfolding ub_of_lookup [OF assms(1)] by (cases "findSubset p (ub_of entries) q") auto

theorem findSubset_correct_witness:
  "case findSubset (\<lambda>v. 5 < v) (ub_of [([1, 3::nat], 4::int), ([3], 7), ([2, 3], 9)]) [1, 3] of
      Some v \<Rightarrow> 5 < v \<and> (\<exists>xs. set xs \<subseteq> set [1, 3] \<and> map_of (rev [([1, 3::nat], 4::int), ([3], 7), ([2, 3], 9)]) xs = Some v)
    | None \<Rightarrow> \<forall>xs v. set xs \<subseteq> set [1, 3] \<and> map_of (rev [([1, 3::nat], 4::int), ([3], 7), ([2, 3], 9)]) xs = Some v \<longrightarrow> \<not> 5 < v"
  by (rule findSubset_correct) simp_all

text \<open>
  C14: The superset search finds an entry exactly when there is one, although it visits children
  that cannot lead to one.
\<close>

theorem findSuperset_correct:
  assumes "\<forall>(xs, v)\<in>set entries. increasing xs" "increasing q"
  shows "case findSuperset p (ub_of entries) q of
      Some v \<Rightarrow> p v \<and> (\<exists>xs. set q \<subseteq> set xs \<and> map_of (rev entries) xs = Some v)
    | None \<Rightarrow> \<forall>xs v. set q \<subseteq> set xs \<and> map_of (rev entries) xs = Some v \<longrightarrow> \<not> p v"
  using ub.find_super_Some [OF ub_of_ok [OF assms(1)] assms(2), of p]
    ub.find_super_None [OF ub_of_ok [OF assms(1)] assms(2), of p]
  unfolding ub_of_lookup [OF assms(1)] by (cases "findSuperset p (ub_of entries) q") auto

theorem findSuperset_correct_witness:
  "case findSuperset (\<lambda>v. 5 < v) (ub_of [([1, 3::nat], 4::int), ([3], 7), ([2, 3], 9)]) [2] of
      Some v \<Rightarrow> 5 < v \<and> (\<exists>xs. set [2] \<subseteq> set xs \<and> map_of (rev [([1, 3::nat], 4::int), ([3], 7), ([2, 3], 9)]) xs = Some v)
    | None \<Rightarrow> \<forall>xs v. set [2] \<subseteq> set xs \<and> map_of (rev [([1, 3::nat], 4::int), ([3], 7), ([2, 3], 9)]) xs = Some v \<longrightarrow> \<not> 5 < v"
  by (rule findSuperset_correct) simp_all

text \<open>
  \<open>subsets\<close> and \<open>supersets\<close> enumerate exactly the stored sets below and above the query.
\<close>

theorem subsets_supersets_exact:
  assumes "\<forall>(xs, v)\<in>set entries. increasing xs" "increasing q"
  shows "set (subsets (ub_of entries) q) = {(xs, v). set xs \<subseteq> set q \<and> map_of (rev entries) xs = Some v} \<and>
    set (supersets (ub_of entries) q) = {(xs, v). set q \<subseteq> set xs \<and> map_of (rev entries) xs = Some v}"
  unfolding subsets_def supersets_def
    findSubsets_set(1) [OF ub_of_ok [OF assms(1)] assms(2)] findSupersets_set(1) [OF ub_of_ok [OF assms(1)] assms(2)]
    ub_of_lookup [OF assms(1)]
  by auto

theorem subsets_supersets_exact_witness:
  "set (subsets (ub_of [([1::nat], ''a''), ([2], ''b'')]) [1]) =
     {(xs, v). set xs \<subseteq> set [1] \<and> map_of (rev [([1::nat], ''a''), ([2], ''b'')]) xs = Some v}"
  using subsets_supersets_exact [of "[([1::nat], ''a''), ([2], ''b'')]" "[1]"] by simp

end
