(* ===== verification/CexCachingSolver.thy ===== *)
theory CexCachingSolver
  imports Solver MapOfSets ExprUtil
begin

text \<open>
  The counterexample cache of \<open>klee/lib/Solver/CexCachingSolver.cpp\<close>: a set-indexed map from sets of
  constraints to a satisfying assignment, or to null when the set has none, with the table of all assignments found.
  The command line options are a record. An assignment object is the list of its bindings in the order of
  the \<open>std::map\<close> (by the address of the array).
\<close>

declare One_nat_def [simp del]

subsection \<open>Keys and assignments\<close>

definition set_insert :: "expr \<Rightarrow> expr list \<Rightarrow> expr list" where
  "set_insert x xs = (if x \<in> set xs then xs else insort x xs)"

definition KeyType :: "expr list \<Rightarrow> expr list" where
  "KeyType cs = fold set_insert cs []"

type_synonym binding_list = "(array \<times> 8 word list) list"

definition new_Assignment :: "array list \<Rightarrow> 8 word list list \<Rightarrow> binding_list" where
  "new_Assignment objects values = sort_key (\<lambda>(a, bytes). array_key a) (zip objects values)"

definition as_assignment :: "binding_list \<Rightarrow> assignment" where
  "as_assignment bs = Assignment bs False"

definition assignment_key :: "binding_list \<Rightarrow> int list list" where
  "assignment_key bs = concat (map (\<lambda>(a, bytes). array_key a @ [map uint bytes]) bs)"

definition AssignmentLessThan :: "binding_list \<Rightarrow> binding_list \<Rightarrow> bool" where
  "AssignmentLessThan a b \<longleftrightarrow> assignment_key a < assignment_key b"

text \<open>\<open>std::set::insert\<close>: the element of the set equivalent to the given one, and the set with it.\<close>

fun table_insert :: "binding_list \<Rightarrow> binding_list list \<Rightarrow> binding_list \<times> binding_list list" where
  "table_insert b [] = (b, [b])"
| "table_insert b (x # xs) =
     (if AssignmentLessThan b x then (b, b # x # xs)
      else if AssignmentLessThan x b then (case table_insert b xs of (r, xs') \<Rightarrow> (r, x # xs'))
      else (x, x # xs))"

subsection \<open>The solver\<close>

record cex_options =
  CexCacheTryAll :: bool
  CexCacheSuperSet :: bool
  CexCacheExperimental :: bool
  DebugCexCacheCheckBinding :: bool

record 's cex_state =
  cex_cache :: "(expr, binding_list option) ubnode"
  assignmentsTable :: "binding_list list"
  cex_solver :: 's

definition cex_call :: "('s, 'a) call \<Rightarrow> ('s cex_state, 'a) call" where
  "cex_call m st = (case m (cex_solver st) of (r, s') \<Rightarrow> (r, st\<lparr>cex_solver := s'\<rparr>))"

definition NullAssignment :: "binding_list option \<Rightarrow> bool" where
  "NullAssignment a \<longleftrightarrow> a = None"

definition NonNullAssignment :: "binding_list option \<Rightarrow> bool" where
  "NonNullAssignment a \<longleftrightarrow> a \<noteq> None"

definition NullOrSatisfyingAssignment :: "expr list \<Rightarrow> binding_list option \<Rightarrow> bool" where
  "NullOrSatisfyingAssignment key a = (case a of None \<Rightarrow> True | Some bs \<Rightarrow> satisfies (as_assignment bs) key)"

text \<open>The cached result for a key, if there is one; the result itself is null for an unsatisfiable key.\<close>

definition searchForAssignment ::
  "cex_options \<Rightarrow> (expr, binding_list option) ubnode \<Rightarrow> binding_list list \<Rightarrow> expr list \<Rightarrow> binding_list option option" where
  "searchForAssignment opts cache table key =
     (case ub_lookup key cache of
        Some result \<Rightarrow> Some result
      | None \<Rightarrow>
          let superset = (if CexCacheSuperSet opts then findSuperset NonNullAssignment cache key else None)
          in if CexCacheTryAll opts then
               (case (case superset of Some r \<Rightarrow> Some r | None \<Rightarrow> findSubset NullAssignment cache key) of
                  Some result \<Rightarrow> Some result
                | None \<Rightarrow> map_option Some (find (\<lambda>a. satisfies (as_assignment a) key) table))
             else
               (case superset of Some r \<Rightarrow> Some r | None \<Rightarrow> findSubset (NullOrSatisfyingAssignment key) cache key))"

text \<open>The key built for the query and the cached result.\<close>

definition lookupAssignment ::
  "cex_options \<Rightarrow> (expr, binding_list option) ubnode \<Rightarrow> binding_list list \<Rightarrow> query \<Rightarrow> expr list \<times> binding_list option option" where
  "lookupAssignment opts cache table query =
     (let key = KeyType (constraints query); neg = createIsZero (qexpr query)
      in case asConst neg of
           Some CE \<Rightarrow> if isFalse CE then (key, Some None)
                      else (key, searchForAssignment opts cache table key)
         | None \<Rightarrow> let key = set_insert neg key in (key, searchForAssignment opts cache table key))"

definition getAssignment :: "'s solver_impl \<Rightarrow> cex_options \<Rightarrow> query \<Rightarrow> ('s cex_state, binding_list option) call" where
  "getAssignment solver opts query st =
     (case lookupAssignment opts (cex_cache st) (assignmentsTable st) query of
        (key, Some result) \<Rightarrow> (Success result, st)
      | (key, None) \<Rightarrow>
          let objects = findSymbolicObjects key
          in and_then (cex_call (computeInitialValues solver query objects)) (\<lambda>r st'.
               case r of
                 Some values \<Rightarrow>
                   (let (binding, table) = table_insert (new_Assignment objects values) (assignmentsTable st');
                        st'' = st'\<lparr>assignmentsTable := table\<rparr>
                    in if DebugCexCacheCheckBinding opts \<and> \<not> satisfies (as_assignment binding) key then (Aborted, st'')
                       else (Success (Some binding), st''\<lparr>cex_cache := ub_insert key (Some binding) (cex_cache st'')\<rparr>))
               | None \<Rightarrow> (Success None, st'\<lparr>cex_cache := ub_insert key None (cex_cache st')\<rparr>)) st)"

definition cex_computeValidity :: "'s solver_impl \<Rightarrow> cex_options \<Rightarrow> query \<Rightarrow> ('s cex_state, Validity) call" where
  "cex_computeValidity solver opts query =
     and_then (getAssignment solver opts (withFalse query)) (\<lambda>a.
       case a of
         None \<Rightarrow> aborted
       | Some bs \<Rightarrow>
           (case asConst (evaluate (as_assignment bs) (qexpr query)) of
              None \<Rightarrow> aborted
            | Some q \<Rightarrow>
                if isTrue q then
                  and_then (getAssignment solver opts query) (\<lambda>a. return (if a = None then VTrue else VUnknown))
                else
                  and_then (getAssignment solver opts (negateExpr query)) (\<lambda>a. return (if a = None then VFalse else VUnknown))))"

definition cex_computeTruth :: "'s solver_impl \<Rightarrow> cex_options \<Rightarrow> query \<Rightarrow> ('s cex_state, bool) call" where
  "cex_computeTruth solver opts query st =
     (if CexCacheExperimental opts \<and>
         snd (lookupAssignment opts (cex_cache st) (assignmentsTable st) (negateExpr query)) = Some None then (Failure, st)
      else and_then (getAssignment solver opts query) (\<lambda>a. return (a = None)) st)"

definition cex_computeValue :: "'s solver_impl \<Rightarrow> cex_options \<Rightarrow> query \<Rightarrow> ('s cex_state, expr) call" where
  "cex_computeValue solver opts query =
     and_then (getAssignment solver opts (withFalse query)) (\<lambda>a.
       case a of
         None \<Rightarrow> aborted
       | Some bs \<Rightarrow>
           (let result = evaluate (as_assignment bs) (qexpr query)
            in if isConst result then return result else aborted))"

definition values_for :: "binding_list \<Rightarrow> array list \<Rightarrow> 8 word list list" where
  "values_for bs objects =
     map (\<lambda>os. case bindings (as_assignment bs) os of None \<Rightarrow> replicate (arr_size os) 0 | Some bytes \<Rightarrow> bytes) objects"

definition cex_computeInitialValues ::
  "'s solver_impl \<Rightarrow> cex_options \<Rightarrow> query \<Rightarrow> array list \<Rightarrow> ('s cex_state, 8 word list list option) call" where
  "cex_computeInitialValues solver opts query objects =
     and_then (getAssignment solver opts query) (\<lambda>a. return (map_option (\<lambda>bs. values_for bs objects) a))"

definition CexCachingSolver :: "cex_options \<Rightarrow> 's solver_impl \<Rightarrow> 's cex_state solver_impl" where
  "CexCachingSolver opts solver =
     \<lparr>computeTruth = cex_computeTruth solver opts, computeValidity = cex_computeValidity solver opts,
      computeValue = cex_computeValue solver opts, computeInitialValues = cex_computeInitialValues solver opts\<rparr>"

subsection \<open>Keys\<close>

lemma set_insert_set [simp]: "set (set_insert x xs) = insert x (set xs)"
  by (auto simp: set_insert_def set_insort_key)

lemma set_insert_increasing: "increasing xs \<Longrightarrow> increasing (set_insert x xs)"
  unfolding strict_sorted_iff by (auto simp: set_insert_def sorted_insort distinct_insort)

lemma KeyType_facts [simp]: "set (KeyType cs) = set cs" "increasing (KeyType cs)"
proof -
  have "set (fold set_insert cs xs) = set cs \<union> set xs \<and> (increasing xs \<longrightarrow> increasing (fold set_insert cs xs))" for xs
    by (induction cs arbitrary: xs) (auto simp: set_insert_increasing)
  from this [of "[]"] show "set (KeyType cs) = set cs" "increasing (KeyType cs)" by (simp_all add: KeyType_def)
qed

text \<open>The key of a query holds its constraints and, unless it is constant, the negated expression.\<close>

definition key_of :: "query \<Rightarrow> expr list" where
  "key_of q = (case asConst (createIsZero (qexpr q)) of
     Some CE \<Rightarrow> KeyType (constraints q) | None \<Rightarrow> set_insert (createIsZero (qexpr q)) (KeyType (constraints q)))"

lemma lookupAssignment_key:
  "lookupAssignment opts c t q =
     (key_of q, case asConst (createIsZero (qexpr q)) of
        Some CE \<Rightarrow> if isFalse CE then Some None else searchForAssignment opts c t (key_of q)
      | None \<Rightarrow> searchForAssignment opts c t (key_of q))"
  by (simp add: lookupAssignment_def key_of_def Let_def split: option.split)

lemma key_increasing: "increasing (key_of q)"
  by (simp add: key_of_def set_insert_increasing split: option.split)

lemma const_IsZero:
  assumes "bool_query q" "createIsZero (qexpr q) = ConstantExpr CE"
  shows "isFalse CE \<longleftrightarrow> (\<forall>\<rho>. eval \<rho> (qexpr q) = 1)" "\<not> isFalse CE \<longleftrightarrow> (\<forall>\<rho>. eval \<rho> (qexpr q) = 0)"
proof -
  note e = bool_queryD(1) [OF assms(1)]
  have "uval CE = of_bool (eval \<rho> (qexpr q) = 0)" for \<rho>
    using createIsZero_facts(3) [OF e, of \<rho>] assms(2) by simp
  then have v: "uval CE = 0 \<longleftrightarrow> eval \<rho> (qexpr q) \<noteq> 0" for \<rho> by (metis of_bool_eq_0_iff)
  have w: "getBitWidth CE = Bool" using createIsZero_facts(2) [OF e] assms(2) by simp
  show "isFalse CE \<longleftrightarrow> (\<forall>\<rho>. eval \<rho> (qexpr q) = 1)" "\<not> isFalse CE \<longleftrightarrow> (\<forall>\<rho>. eval \<rho> (qexpr q) = 0)"
    using v w bool_queryD(4) [OF assms(1)] unfolding isFalse_def by (metis zero_neq_one)+
qed

text \<open>A key is true exactly where the constraints hold and the expression is false.\<close>

lemma sat_key:
  assumes "bool_query q"
    and "\<And>CE. createIsZero (qexpr q) = ConstantExpr CE \<Longrightarrow> \<not> isFalse CE"
  shows "sat \<rho> (key_of q) \<longleftrightarrow> sat \<rho> (constraints q) \<and> eval \<rho> (qexpr q) = 0"
proof (cases "asConst (createIsZero (qexpr q))")
  case None
  then have "key_of q = set_insert (createIsZero (qexpr q)) (KeyType (constraints q))"
    by (simp only: key_of_def option.case)
  then show ?thesis
    using createIsZero_facts(3) [OF bool_queryD(1) [OF assms(1)], of \<rho>] by (auto simp: sat_def)
next
  case (Some CE)
  then have "eval \<rho> (qexpr q) = 0" using const_IsZero(2) [OF assms(1)] assms(2) by auto
  then show ?thesis using Some by (simp add: key_of_def sat_def)
qed

definition key_ok :: "expr list \<Rightarrow> bool" where
  "key_ok key \<longleftrightarrow> increasing key \<and> (\<forall>c\<in>set key. wf_expr c \<and> getWidth c = Bool)"

lemma key_of_ok: "bool_query q \<Longrightarrow> key_ok (key_of q)"
proof -
  assume q: "bool_query q"
  have "wf_expr (createIsZero (qexpr q))" "getWidth (createIsZero (qexpr q)) = Bool"
    using bool_query_negate [OF q] by (simp_all add: bool_query_def wf_query_def)
  moreover have "\<forall>c\<in>set (constraints q). wf_expr c \<and> getWidth c = Bool"
    using bool_queryD(3) [OF q] by (simp add: wf_query_def)
  ultimately show ?thesis
    by (auto simp: key_ok_def key_increasing, auto simp: key_of_def split: option.splits)
qed

subsection \<open>Assignments as environments\<close>

lemma Assignment_free: "allowFreeValues (as_assignment bs) = False"
  by (simp add: as_assignment_def Assignment_def)

lemma env_of_binding:
  "env_of (as_assignment bs) a j =
     (case map_of bs a of Some bytes \<Rightarrow> if j < length bytes then uint (bytes ! j) else 0 | None \<Rightarrow> 0)"
  unfolding env_of_def bound_byte_def Assignment_free
  by (simp add: as_assignment_def Assignment_bindings split: option.split)

definition bs_ok :: "binding_list \<Rightarrow> bool" where
  "bs_ok bs \<longleftrightarrow> (\<forall>(a, bytes)\<in>set bs. length bytes = arr_size a)"

abbreviation env_bs :: "binding_list \<Rightarrow> env" where
  "env_bs bs \<equiv> env_of (as_assignment bs)"

lemma satisfies_sat:
  assumes "satisfies (as_assignment bs) key" "\<forall>c\<in>set key. wf_expr c \<and> getWidth c = Bool"
  shows "sat (env_bs bs) key"
  using assms
proof (induction key)
  case (Cons c cs)
  have "refines_at (env_bs bs) (evaluate (as_assignment bs) c) c"
    using Cons.prems(2) by (intro evaluate_refines) (auto simp: wf_expr_def)
  moreover have "expr_isTrue (evaluate (as_assignment bs) c)" using Cons.prems(1) by (simp split: if_splits)
  ultimately have "eval (env_bs bs) c = 1"
    using eval_bool_cases [of "evaluate (as_assignment bs) c" "env_bs bs"] Cons.prems(2)
    by (cases "evaluate (as_assignment bs) c") (auto simp: refines_at_def isTrue_def)
  with Cons show ?case by (simp split: if_splits)
qed simp

lemma sat_bool_div:
  assumes "\<forall>c\<in>set key. wf_expr c \<and> getWidth c = Bool \<and> div_safe (env_bs bs) c" "sat (env_bs bs) key"
  shows "satisfies (as_assignment bs) key"
  using assms
proof (induction key)
  case (Cons c cs)
  then have "evaluate (as_assignment bs) c = ConstantExpr (mkAPInt Bool 1)"
    using evaluate_constant_value [of "as_assignment bs" c] Assignment_free [of bs] by (auto simp: wf_expr_def)
  with Cons show ?case by (simp add: isTrue_def)
qed simp

text \<open>The assignment built from the values of a solution, sorted by array.\<close>

lemma new_Assignment_facts:
  assumes "distinct objects" "length values = length objects"
  shows "map_of (new_Assignment objects values) a = map_of (zip objects values) a"
    "set (new_Assignment objects values) = set (zip objects values)"
proof -
  let ?bs = "new_Assignment objects values"
  have perm: "mset ?bs = mset (zip objects values)" by (simp add: new_Assignment_def)
  then show s: "set ?bs = set (zip objects values)" by (rule mset_eq_setD)
  have "mset (map fst ?bs) = mset (map fst (zip objects values))" using perm by (simp add: mset_map)
  moreover have z: "distinct (map fst (zip objects values))" using assms by simp
  ultimately have "distinct (map fst ?bs)" by (metis mset_eq_imp_distinct_iff)
  from map_of_eq_Some_iff [OF this, of a] map_of_eq_Some_iff [OF z, of a]
  have "map_of ?bs a = Some v \<longleftrightarrow> map_of (zip objects values) a = Some v" for v unfolding s by blast
  then show "map_of ?bs a = map_of (zip objects values) a" by (metis option.exhaust)
qed

lemma assignment_key_inj: "assignment_key bs = assignment_key bs' \<Longrightarrow> bs = bs'"
proof (induction bs arbitrary: bs')
  case Nil
  then show ?case by (cases bs') (auto simp: assignment_key_def array_key_def)
next
  case (Cons b bs)
  obtain a bytes where b: "b = (a, bytes)" by (cases b)
  from Cons.prems obtain a' bytes' rest where bs': "bs' = (a', bytes') # rest"
    by (cases bs') (auto simp: assignment_key_def array_key_def b)
  with Cons.prems b have "address_key a = address_key a'" "name_key (arr_name a) = name_key (arr_name a')"
    "map uint bytes = map uint bytes'" "assignment_key bs = assignment_key rest"
    by (auto simp: assignment_key_def array_key_def)
  moreover from this(3) have "bytes = bytes'" by (rule map_injective) (simp add: inj_def word_uint_eq_iff)
  ultimately show ?case using Cons.IH b bs' address_key_inj name_key_inj by blast
qed

lemma table_insert_facts:
  "fst (table_insert b table) = b \<and> set (snd (table_insert b table)) = insert b (set table)"
proof (induction table)
  case (Cons x xs)
  obtain r xs' where rec: "table_insert b xs = (r, xs')" by (cases "table_insert b xs")
  consider "AssignmentLessThan b x" | "\<not> AssignmentLessThan b x" "AssignmentLessThan x b"
    | "\<not> AssignmentLessThan b x" "\<not> AssignmentLessThan x b" by blast
  then show ?case
  proof cases
    case 1
    then show ?thesis by simp
  next
    case 2
    then show ?thesis using Cons.IH rec by auto
  next
    case 3
    then have "assignment_key b = assignment_key x" by (auto simp: AssignmentLessThan_def)
    from assignment_key_inj [OF this] show ?thesis by (simp add: AssignmentLessThan_def)
  qed
qed simp

subsection \<open>The invariant of the cache\<close>

text \<open>
  The entry of a set of constraints: null when no environment satisfies them, otherwise an assignment whose
  environment does.
\<close>

definition entry_ok :: "expr set \<Rightarrow> binding_list option \<Rightarrow> bool" where
  "entry_ok S r \<longleftrightarrow> (case r of
     None \<Rightarrow> \<forall>\<rho>. \<exists>c\<in>S. eval \<rho> c \<noteq> 1
   | Some bs \<Rightarrow> bs_ok bs \<and> (\<forall>c\<in>S. eval (env_bs bs) c = 1))"

definition cex_inv :: "('s \<Rightarrow> bool) \<Rightarrow> 's cex_state \<Rightarrow> bool" where
  "cex_inv Inv st \<longleftrightarrow> ub_ok (cex_cache st) \<and> ub.entries_sat entry_ok (cex_cache st) \<and>
     (\<forall>bs\<in>set (assignmentsTable st). bs_ok bs) \<and> Inv (cex_solver st)"

lemma search_sound:
  assumes inv: "cex_inv Inv st" and key: "key_ok key"
    and hit: "searchForAssignment opts (cex_cache st) (assignmentsTable st) key = Some r"
  shows "entry_ok (set key) r"
proof -
  let ?c = "cex_cache st"
  have c: "ub_ok ?c" "ub.entries_sat entry_ok ?c" and t: "\<forall>bs\<in>set (assignmentsTable st). bs_ok bs"
    using inv by (auto simp: cex_inv_def)
  have k: "increasing key" "\<forall>c\<in>set key. wf_expr c \<and> getWidth c = Bool" using key by (auto simp: key_ok_def)
  have exact: "entry_ok (set key) v" if "ub_lookup key ?c = Some v" for v
    using c(2) that unfolding ub.entries_sat_def by blast
  have super: "entry_ok (set key) v" if "findSuperset NonNullAssignment ?c key = Some v" for v
    by (rule ub.find_super_sat [OF c k(1) that]) (auto simp: entry_ok_def NonNullAssignment_def split: option.splits)
  have null: "entry_ok (set key) v" if "findSubset NullAssignment ?c key = Some v" for v
    by (rule ub.find_sub_sat [OF c k(1) that]) (simp add: entry_ok_def NullAssignment_def, blast)
  have satisfying: "entry_ok (set key) (Some bs)" if "satisfies (as_assignment bs) key" "bs_ok bs" for bs
    using satisfies_sat [OF that(1) k(2)] that(2) by (simp add: entry_ok_def sat_all)
  have sub: "entry_ok (set key) v" if "findSubset (NullOrSatisfyingAssignment key) ?c key = Some v" for v
  proof (rule ub.find_sub_sat [OF c k(1) that])
    fix S assume "NullOrSatisfyingAssignment key v" "S \<subseteq> set key" "entry_ok S v"
    then show "entry_ok (set key) v"
      using satisfying by (cases v) (simp_all add: NullOrSatisfyingAssignment_def entry_ok_def, blast)
  qed
  have table: "entry_ok (set key) (Some bs)"
    if "find (\<lambda>a. satisfies (as_assignment a) key) (assignmentsTable st) = Some bs" for bs
    using that t satisfying by (auto simp: find_Some_iff)
  show ?thesis
    using hit exact super null sub table
    by (auto simp: searchForAssignment_def Let_def split: option.splits if_splits)
qed

text \<open>What the answer for a query must be: null when it is valid, otherwise a counterexample.\<close>

definition result_ok :: "query \<Rightarrow> binding_list option \<Rightarrow> bool" where
  "result_ok q r \<longleftrightarrow> (case r of
     None \<Rightarrow> valid q
   | Some bs \<Rightarrow> bs_ok bs \<and> sat (env_bs bs) (constraints q) \<and> eval (env_bs bs) (qexpr q) = 0)"

lemma entry_result:
  assumes "bool_query q" "\<And>CE. createIsZero (qexpr q) = ConstantExpr CE \<Longrightarrow> \<not> isFalse CE"
  shows "entry_ok (set (key_of q)) r \<longleftrightarrow> result_ok q r"
proof -
  have "valid q \<longleftrightarrow> (\<forall>\<rho>. \<not> (sat \<rho> (constraints q) \<and> eval \<rho> (qexpr q) = 0))"
    unfolding valid_def using bool_queryD(4) [OF assms(1)] by (metis zero_neq_one)
  then show ?thesis
    using sat_key [OF assms] unfolding entry_ok_def result_ok_def sat_all by (cases r) (simp, metis, simp)
qed

lemma lookup_sound:
  assumes q: "bool_query q" and inv: "cex_inv Inv st"
    and hit: "lookupAssignment opts (cex_cache st) (assignmentsTable st) q = (key, Some r)"
  shows "result_ok q r"
proof (cases "\<exists>CE. createIsZero (qexpr q) = ConstantExpr CE \<and> isFalse CE")
  case True
  then have "valid q" "r = None"
    using const_IsZero(1) [OF q] hit by (auto simp: lookupAssignment_key valid_def)
  then show ?thesis by (simp add: result_ok_def)
next
  case False
  then have "searchForAssignment opts (cex_cache st) (assignmentsTable st) (key_of q) = Some r"
    using hit by (auto simp: lookupAssignment_key split: option.splits if_splits)
  from search_sound [OF inv key_of_ok [OF q] this] show ?thesis
    using entry_result [OF q] False by blast
qed

lemma lookup_miss:
  "lookupAssignment opts c t q = (key, None) \<Longrightarrow>
     key = key_of q \<and> (\<forall>CE. createIsZero (qexpr q) = ConstantExpr CE \<longrightarrow> \<not> isFalse CE)"
  by (auto simp: lookupAssignment_key split: option.splits if_splits)

lemma key_checked:
  assumes "bool_query q" "sat \<rho> (constraints q)" "c \<in> set (key_of q)"
  shows "checked \<rho> c"
proof -
  have "checked \<rho> (createIsZero (qexpr q))" "\<forall>c\<in>set (constraints q). checked \<rho> c"
    using bool_query_negate [OF assms(1)] assms(2) by (simp_all add: bool_query_def wf_query_def)
  then show ?thesis using assms(3) by (auto simp: key_of_def split: option.splits)
qed

text \<open>
  The bytes of a solution, read back as an environment, make the key true: its expressions read no other
  symbolic array and no byte outside their arrays.
\<close>

lemma solution_entry:
  assumes q: "bool_query q" "\<And>CE. createIsZero (qexpr q) = ConstantExpr CE \<Longrightarrow> \<not> isFalse CE"
    and objects: "objects = findSymbolicObjects (key_of q)"
    and sol: "is_solution q objects values"
  shows "entry_ok (set (key_of q)) (Some (new_Assignment objects values))"
proof -
  let ?bs = "new_Assignment objects values"
  obtain \<rho> where \<rho>: "sat \<rho> (constraints q)" "eval \<rho> (qexpr q) = 0"
    and cells: "\<And>i j. i < length objects \<Longrightarrow> j < arr_size (objects ! i) \<Longrightarrow>
      cell \<rho> (objects ! i) j = take_bit (arr_range (objects ! i)) (uint (values ! i ! j))"
    and len: "length values = length objects" "\<And>i. i < length objects \<Longrightarrow> length (values ! i) = arr_size (objects ! i)"
    using sol by (auto simp: is_solution_def)
  have d: "distinct objects" by (simp add: objects findSymbolicObjects_set)
  note bs = new_Assignment_facts [OF d len(1)]
  have ok: "bs_ok ?bs" using len by (auto simp: bs_ok_def bs(2) set_zip)
  have same: "cell \<rho> a j = cell (env_bs ?bs) a j" if a: "a \<in> set objects" and j: "j < arr_size a" for a j
  proof -
    from a obtain i where i: "i < length objects" "a = objects ! i" by (auto simp: in_set_conv_nth)
    have "map_of (zip objects values) a = Some (values ! i)" using i d len(1) by (simp add: map_of_zip_nth)
    then show ?thesis using cells i j len(2) by (simp add: cell_def env_of_binding bs(1))
  qed
  define \<rho>' where "\<rho>' a i = (if isSymbolicArray a \<and> a \<notin> set objects then \<rho> a i else env_bs ?bs a i)" for a i
  have agree: "cell \<rho> a i = cell \<rho>' a i" if "isSymbolicArray a" "i < arr_size a" for a i
    using same [of a i] that by (cases "a \<in> set objects") (simp_all add: cell_def \<rho>'_def)
  have "eval (env_bs ?bs) c = 1" if c: "c \<in> set (key_of q)" for c
  proof -
    have "eval (env_bs ?bs) c = eval \<rho>' c"
      by (rule eval_arrays(1)) (use c in \<open>auto simp: \<rho>'_def objects findSymbolicObjects_set\<close>)
    also have "\<dots> = eval \<rho> c"
    proof -
      have "in_bounds \<rho> c" using key_checked [OF q(1) \<rho>(1) c] by (simp add: checked_def)
      from same_reads_eval(1) [OF in_bounds_same_reads [OF this agree]] show ?thesis .
    qed
    also have "\<dots> = 1" using sat_key [OF q, of \<rho>] \<rho> c by (simp add: sat_all)
    finally show ?thesis .
  qed
  with ok show ?thesis by (simp add: entry_ok_def)
qed

lemma cex_inv_insert:
  assumes "cex_inv Inv st" "bool_query q" "entry_ok (set (key_of q)) r"
  shows "cex_inv Inv (st\<lparr>cex_cache := ub_insert (key_of q) r (cex_cache st)\<rparr>)"
  using assms ub_insert_root_ok [OF _ key_increasing] ub.entries_sat_ins by (auto simp: cex_inv_def)

lemma getAssignment_hit:
  "lookupAssignment opts (cex_cache st) (assignmentsTable st) q = (key, Some r) \<Longrightarrow>
     getAssignment impl opts q st = (Success r, st)"
  by (simp add: getAssignment_def)

lemma getAssignment_miss:
  assumes "lookupAssignment opts (cex_cache st) (assignmentsTable st) q = (key, None)"
    and "computeInitialValues impl q (findSymbolicObjects key) (cex_solver st) = (r, s')"
  shows "getAssignment impl opts q st =
    (case r of
       Failure \<Rightarrow> (Failure, st\<lparr>cex_solver := s'\<rparr>)
     | Aborted \<Rightarrow> (Aborted, st\<lparr>cex_solver := s'\<rparr>)
     | Success None \<Rightarrow> (Success None, st\<lparr>cex_solver := s', cex_cache := ub_insert key None (cex_cache st)\<rparr>)
     | Success (Some values) \<Rightarrow>
         (let bs = new_Assignment (findSymbolicObjects key) values;
              st' = st\<lparr>cex_solver := s', assignmentsTable := snd (table_insert bs (assignmentsTable st))\<rparr>
          in if DebugCexCacheCheckBinding opts \<and> \<not> satisfies (as_assignment bs) key then (Aborted, st')
             else (Success (Some bs), st'\<lparr>cex_cache := ub_insert key (Some bs) (cex_cache st)\<rparr>)))"
  using assms
  by (cases r) (auto simp: getAssignment_def and_then_def cex_call_def Let_def split_beta table_insert_facts split: option.split)

lemma getAssignment_sound:
  assumes impl: "solver_contract impl Inv fails init" and init: "init q"
  shows "sound_call fails (cex_inv Inv) (result_ok q) (getAssignment impl opts q)"
  unfolding sound_call_def
proof (intro allI impI)
  fix st assume inv: "cex_inv Inv st"
  note q = solver_contract.init_bool [OF impl init]
  let ?goal = "cex_inv Inv (snd (getAssignment impl opts q st)) \<and>
    (case fst (getAssignment impl opts q st) of Success r \<Rightarrow> result_ok q r | Failure \<Rightarrow> fails | Aborted \<Rightarrow> False)"
  obtain key found where look: "lookupAssignment opts (cex_cache st) (assignmentsTable st) q = (key, found)"
    by (cases "lookupAssignment opts (cex_cache st) (assignmentsTable st) q")
  show ?goal
  proof (cases found)
    case (Some r)
    then show ?thesis using look getAssignment_hit lookup_sound [OF q inv] inv by fastforce
  next
    case None
    with lookup_miss look have key: "key = key_of q"
      and nc: "\<And>CE. createIsZero (qexpr q) = ConstantExpr CE \<Longrightarrow> \<not> isFalse CE" by blast+
    obtain r s' where call: "computeInitialValues impl q (findSymbolicObjects key) (cex_solver st) = (r, s')"
      by (cases "computeInitialValues impl q (findSymbolicObjects key) (cex_solver st)")
    note miss = getAssignment_miss [OF look [unfolded None] call]
    have "list_all byte_object (findSymbolicObjects key)"
      using key_of_ok [OF q] arrays_all_sub(1) [of "\<lambda>a. arr_range a = 8"]
      by (auto simp: list_all_iff byte_object_def findSymbolicObjects_set key key_ok_def wf_expr_def byte_reads_def)
    from sound_callD [OF solver_contract.initial_values [OF impl init this] _ call] inv
    have answer: "Inv s'" "\<And>x. r = Success x \<Longrightarrow>
        (case x of None \<Rightarrow> valid q | Some values \<Rightarrow> is_solution q (findSymbolicObjects key) values)"
      "r \<noteq> Aborted" "r = Failure \<Longrightarrow> fails"
      by (auto simp: cex_inv_def)
    have inv': "cex_inv Inv (st\<lparr>cex_solver := s'\<rparr>)" using inv answer(1) by (simp add: cex_inv_def)
    consider "r = Failure" | "r = Success None" | vs where "r = Success (Some vs)"
      using answer(3) by (cases r) auto
    then show ?thesis
    proof cases
      case 1
      then show ?thesis using miss inv' answer(4) by simp
    next
      case 2
      then have ok: "result_ok q None" using answer(2) by (simp add: result_ok_def)
      then show ?thesis
        using cex_inv_insert [OF inv' q, of None] entry_result [OF q nc, of None] miss 2 by (simp add: key)
    next
      case 3
      let ?bs = "new_Assignment (findSymbolicObjects key) vs"
      have entry: "entry_ok (set key) (Some ?bs)"
        using solution_entry [OF q nc] answer(2) 3 by (simp add: key)
      then have res: "result_ok q (Some ?bs)" using entry_result [OF q nc] by (simp add: key)
      then have "satisfies (as_assignment ?bs) key"
        using key_of_ok [OF q] key_checked [OF q] entry
        by (intro sat_bool_div) (auto simp: checked_def key key_ok_def result_ok_def entry_ok_def sat_all)
      moreover have "cex_inv Inv (st\<lparr>cex_solver := s', assignmentsTable := snd (table_insert ?bs (assignmentsTable st))\<rparr>)"
        using inv' res table_insert_facts by (auto simp: cex_inv_def result_ok_def)
      from cex_inv_insert [OF this q entry [unfolded key]] have
        "cex_inv Inv (st\<lparr>cex_solver := s', assignmentsTable := snd (table_insert ?bs (assignmentsTable st)),
           cex_cache := ub_insert key (Some ?bs) (cex_cache st)\<rparr>)" by (simp add: key)
      ultimately show ?thesis using miss 3 res by (simp add: Let_def)
    qed
  qed
qed

subsection \<open>The cache keeps the contract\<close>

text \<open>The cache asks for initial values to answer every other computation.\<close>

lemma getAssignment_truth:
  "full_contract impl Inv fails init \<Longrightarrow> truth_query q \<Longrightarrow> sound_call fails (cex_inv Inv) (result_ok q) (getAssignment impl opts q)"
  by (metis full_contract.axioms(1) full_contract.init_truth getAssignment_sound)

lemma withFalse_ok: "value_query q \<Longrightarrow> truth_query (withFalse q) \<and> \<not> valid (withFalse q)"
  by (auto simp: truth_query_def value_query_def wf_query_def consistent_def valid_def wf_expr_def leaf_sub checked_def
      in_bounds_sub mkAPInt_def apint_ok_def)

text \<open>The expression of a query folds to its value under an assignment that meets the constraints.\<close>

lemma evaluate_query:
  assumes "wf_query q" "sat (env_bs bs) (constraints q)"
  shows "evaluate (as_assignment bs) (qexpr q) = ConstantExpr (mkAPInt (getWidth (qexpr q)) (eval (env_bs bs) (qexpr q)))"
  using assms Assignment_free [of bs] by (intro evaluate_constant_value) (auto simp: wf_query_def wf_expr_def checked_def)

lemma cex_assignment:
  assumes "full_contract impl Inv fails init" "value_query q"
  shows "sound_call fails (cex_inv Inv) (\<lambda>a. \<exists>bs. a = Some bs \<and> sat (env_bs bs) (constraints q)) (getAssignment impl opts (withFalse q))"
  using getAssignment_truth [OF assms(1), of "withFalse q" opts] withFalse_ok [OF assms(2)]
  by (auto simp: result_ok_def elim!: sound_weaken split: option.splits)

lemma cex_truth:
  assumes "full_contract impl Inv fails init" "truth_query q"
  shows "sound_call (fails \<or> CexCacheExperimental opts) (cex_inv Inv) (\<lambda>b. b = valid q) (cex_computeTruth impl opts q)"
proof -
  have "\<not> valid q" if "result_ok q (Some bs)" for bs
    using that by (auto simp: result_ok_def valid_def)
  then have "sound_call fails (cex_inv Inv) (\<lambda>b. b = valid q) (and_then (getAssignment impl opts q) (\<lambda>a. return (a = None)))"
    by (intro sound_and_then [OF getAssignment_truth [OF assms]] sound_return) (auto simp: result_ok_def split: option.splits)
  then show ?thesis
    unfolding sound_call_def cex_computeTruth_def by (auto split: answer.splits)
qed

lemma cex_validity:
  assumes impl: "full_contract impl Inv fails init" and q: "truth_query q"
  shows "sound_call fails (cex_inv Inv) (\<lambda>v. v = validity_of q) (cex_computeValidity impl opts q)"
proof -
  have vq: "value_query q" and wf: "wf_query q" using q by (auto simp: truth_query_def value_query_def)
  have vu: "(r = None) = valid q" if "result_ok q r" for r
    using that by (auto simp: result_ok_def valid_def split: option.splits)
  have vn: "(r = None) = valid_not q" if "result_ok (negateExpr q) r" for r
    using that valid_negate(1) [OF truth_bool [OF q]] by (auto simp: result_ok_def valid_def split: option.splits)
  show ?thesis
    unfolding cex_computeValidity_def
  proof (rule sound_and_then [OF cex_assignment [OF impl vq]])
    fix a assume "\<exists>bs. a = Some bs \<and> sat (env_bs bs) (constraints q)"
    then obtain bs where a: "a = Some bs" and sat: "sat (env_bs bs) (constraints q)" by blast
    let ?v = "eval (env_bs bs) (qexpr q)"
    have e: "evaluate (as_assignment bs) (qexpr q) = ConstantExpr (mkAPInt Bool ?v)"
      using evaluate_query [OF wf sat] truth_queryD(2) [OF q] by simp
    have t: "isTrue (mkAPInt Bool ?v) \<longleftrightarrow> ?v = 1" using truth_queryD(5) [OF q, of "env_bs bs"] by (auto simp: isTrue_def)
    have nv: "?v = 1 \<Longrightarrow> \<not> valid_not q" "?v \<noteq> 1 \<Longrightarrow> \<not> valid q" using sat by (auto simp: valid_def valid_not_def)
    show "sound_call fails (cex_inv Inv) (\<lambda>v. v = validity_of q) (case a of
         None \<Rightarrow> aborted
       | Some bs \<Rightarrow>
           (case asConst (evaluate (as_assignment bs) (qexpr q)) of
              None \<Rightarrow> aborted
            | Some c \<Rightarrow>
                if isTrue c then
                  and_then (getAssignment impl opts q) (\<lambda>a. return (if a = None then VTrue else VUnknown))
                else
                  and_then (getAssignment impl opts (negateExpr q)) (\<lambda>a. return (if a = None then VFalse else VUnknown))))"
      unfolding a e option.case asConst.simps t
      using nv vu vn
      by (auto simp: validity_of_def intro!: sound_and_then [OF getAssignment_truth [OF impl q]]
          sound_and_then [OF getAssignment_truth [OF impl truth_query_negate [OF q]]])
  qed
qed

lemma cex_value:
  assumes "full_contract impl Inv fails init" "value_query q"
  shows "sound_call fails (cex_inv Inv) (\<lambda>e. \<exists>c. e = ConstantExpr c \<and> possible_value q c) (cex_computeValue impl opts q)"
  unfolding cex_computeValue_def
proof (rule sound_and_then [OF cex_assignment [OF assms]])
  fix a assume "\<exists>bs. a = Some bs \<and> sat (env_bs bs) (constraints q)"
  then obtain bs where a: "a = Some bs" and sat: "sat (env_bs bs) (constraints q)" by blast
  have wf: "wf_query q" and wt: "wt (qexpr q)" using assms(2) by (auto simp: value_query_def wf_query_def wf_expr_def)
  have "possible_value q (mkAPInt (getWidth (qexpr q)) (eval (env_bs bs) (qexpr q)))"
    using sat eval_range [OF wt] wt_width_pos [OF wt] unfolding possible_value_def by (auto intro!: exI [of _ "env_bs bs"])
  then show "sound_call fails (cex_inv Inv) (\<lambda>e. \<exists>c. e = ConstantExpr c \<and> possible_value q c) (case a of
       None \<Rightarrow> aborted
     | Some bs \<Rightarrow> (let result = evaluate (as_assignment bs) (qexpr q) in if isConst result then return result else aborted))"
    by (auto simp: a evaluate_query [OF wf sat])
qed

lemma cex_initial_values:
  assumes "solver_contract impl Inv fails init" "init q"
  shows "sound_call fails (cex_inv Inv) (\<lambda>r. case r of None \<Rightarrow> valid q | Some vs \<Rightarrow> is_solution q objects vs)
    (cex_computeInitialValues impl opts q objects)"
proof -
  have "is_solution q objects (values_for bs objects)" if "result_ok q (Some bs)" for bs
  proof -
    have bs: "bs_ok bs" "sat (env_bs bs) (constraints q)" "eval (env_bs bs) (qexpr q) = 0"
      using that by (auto simp: result_ok_def)
    have len: "length bytes = arr_size a" if "map_of bs a = Some bytes" for a bytes
      using bs(1) map_of_SomeD [OF that] by (auto simp: bs_ok_def)
    have "length (values_for bs objects ! i) = arr_size (objects ! i)" if "i < length objects" for i
      using that len by (auto simp: values_for_def as_assignment_def Assignment_bindings split: option.split)
    moreover have "cell (env_bs bs) (objects ! i) j = take_bit (arr_range (objects ! i)) (uint (values_for bs objects ! i ! j))"
      if "i < length objects" "j < arr_size (objects ! i)" for i j
      using that len
      by (auto simp: values_for_def as_assignment_def Assignment_bindings cell_def env_of_binding [unfolded as_assignment_def]
          split: option.split)
    ultimately show ?thesis using bs unfolding is_solution_def by (auto simp: values_for_def)
  qed
  then show ?thesis
    unfolding cex_computeInitialValues_def
    by (intro sound_and_then [OF getAssignment_sound [OF assms]] sound_return) (auto simp: result_ok_def split: option.splits)
qed

lemma sound_may_fail: "sound_call fails Inv P m \<Longrightarrow> sound_call (fails \<or> b) Inv P m"
  unfolding sound_call_def by (auto split: answer.splits)

lemma cex_contract:
  assumes "full_contract impl Inv fails init"
  shows "full_contract (CexCachingSolver opts impl) (cex_inv Inv) (fails \<or> CexCacheExperimental opts) init"
proof -
  have c: "solver_contract impl Inv fails init" using assms by (rule full_contract.axioms(1))
  show ?thesis
    by unfold_locales
      (simp_all add: CexCachingSolver_def cex_truth [OF assms] sound_may_fail cex_validity [OF assms] cex_value [OF assms]
        cex_initial_values [OF c] solver_contract.init_bool [OF c] full_contract.init_truth [OF assms])
qed

text \<open>What a query has once been answered is found again.\<close>

lemma getAssignment_found:
  assumes "ub_ok (cex_cache st)" "getAssignment impl opts q st = (Success r, st')"
  shows "snd (lookupAssignment opts (cex_cache st') (assignmentsTable st') q) = Some r"
proof -
  obtain key found where look: "lookupAssignment opts (cex_cache st) (assignmentsTable st) q = (key, found)"
    by (cases "lookupAssignment opts (cex_cache st) (assignmentsTable st) q")
  show ?thesis
  proof (cases found)
    case (Some x)
    then show ?thesis using getAssignment_hit look assms(2) by fastforce
  next
    case None
    with lookup_miss look have key: "key = key_of q"
      and nc: "\<And>CE. createIsZero (qexpr q) = ConstantExpr CE \<Longrightarrow> \<not> isFalse CE" by blast+
    obtain a s' where "computeInitialValues impl q (findSymbolicObjects key) (cex_solver st) = (a, s')"
      by (cases "computeInitialValues impl q (findSymbolicObjects key) (cex_solver st)")
    from getAssignment_miss [OF look [unfolded None] this] assms
    have "ub_lookup key (cex_cache st') = Some r"
      by (auto simp: Let_def ub_lookup_insert split: answer.splits option.splits if_splits)
    then show ?thesis
      using nc by (auto simp: lookupAssignment_key searchForAssignment_def key split: option.split)
  qed
qed

subsection \<open>Properties\<close>

definition empty_cex :: "'s \<Rightarrow> 's cex_state" where
  "empty_cex s = \<lparr>cex_cache = emptyNode, assignmentsTable = [], cex_solver = s\<rparr>"

lemma empty_cex_inv: "Inv s \<Longrightarrow> cex_inv Inv (empty_cex s)"
  by (simp add: cex_inv_def empty_cex_def ub.entries_sat_empty)

text \<open>
  C23: The counterexample cache keeps the contract of the solver it wraps, for every choice of its options: from an empty
  cache on, whatever it answers by an exact hit, a satisfiable superset, an unsatisfiable subset, an old assignment or
  the solver below is right for the query; no assertion fails, the check of
  \<open>DebugCexCacheCheckBinding\<close> included; and it fails only when the solver below does or under
  \<open>CexCacheExperimental\<close>.
\<close>

theorem cex_caching_solver_sound:
  assumes "full_contract impl Inv fails init" "Inv s"
  shows "cex_inv Inv (empty_cex s) \<and>
    full_contract (CexCachingSolver opts impl) (cex_inv Inv) (fails \<or> CexCacheExperimental opts) init"
  using cex_contract [OF assms(1)] assms(2) by (simp add: empty_cex_inv)

theorem cex_caching_solver_sound_witness:
  "full_contract (CexCachingSolver \<lparr>CexCacheTryAll = True, CexCacheSuperSet = True, CexCacheExperimental = False,
      DebugCexCacheCheckBinding = True\<rparr> reference_solver) (cex_inv (\<lambda>_. True)) False bool_query"
  using cex_caching_solver_sound [OF reference.full_contract_axioms, of "()"
      "\<lparr>CexCacheTryAll = True, CexCacheSuperSet = True, CexCacheExperimental = False, DebugCexCacheCheckBinding = True\<rparr>"]
  by simp

text \<open>
  A query that was answered is answered again from the cache: the same result, and neither the cache, the table nor
  the solver below changes, whatever the options.
\<close>

theorem getAssignment_repeated:
  assumes "ub_ok (cex_cache st)" "getAssignment impl opts q st = (Success r, st')"
  shows "getAssignment impl opts q st' = (Success r, st')"
  using getAssignment_found [OF assms]
  by (cases "lookupAssignment opts (cex_cache st') (assignmentsTable st') q") (auto intro: getAssignment_hit)

lemma sample_answer:
  assumes "truth_query q" "valid q"
  shows "\<exists>st'. getAssignment reference_solver opts q (empty_cex ()) = (Success None, st')"
proof -
  obtain r st' where call: "getAssignment reference_solver opts q (empty_cex ()) = (r, st')"
    by (cases "getAssignment reference_solver opts q (empty_cex ())")
  from sound_callD [OF getAssignment_truth [OF reference.full_contract_axioms assms(1)] empty_cex_inv call]
  have "r \<noteq> Aborted" "r \<noteq> Failure" "\<And>x. r = Success x \<Longrightarrow> result_ok q x" by auto
  moreover have "\<not> result_ok q (Some bs)" for bs using assms(2) by (auto simp: result_ok_def valid_def)
  ultimately have "r = Success None" by (cases r) (auto, metis option.exhaust)
  with call show ?thesis by blast
qed

lemma sample_empty: "truth_query (sample_query (sample_bound 0))" "valid (negateExpr (sample_query (sample_bound 0)))"
proof -
  show q: "truth_query (sample_query (sample_bound 0))"
    using sample_query_ok [OF sample_wf(2,5)] sample_wf(3) by (simp add: truth_query_def sample_query_def)
  have "eval \<rho> (sample_bound 0) = 0" for \<rho>
    by (simp add: sample_bound_def eval_sample cell_def const8_def mkAPInt_def take_bit_int_less_eq_self_iff)
  then show "valid (negateExpr (sample_query (sample_bound 0)))"
    unfolding valid_negate(1) [OF truth_bool [OF q]] valid_not_def by (simp add: sample_query_def)
qed

theorem getAssignment_repeated_witness:
  "\<exists>opts st'. getAssignment reference_solver opts (negateExpr (sample_query (sample_bound 0))) (empty_cex ()) = (Success None, st') \<and>
     getAssignment reference_solver opts (negateExpr (sample_query (sample_bound 0))) st' = (Success None, st')"
proof -
  have "ub_ok (cex_cache (empty_cex ()))" by (simp add: empty_cex_def)
  then show ?thesis
    using sample_answer [OF truth_query_negate [OF sample_empty(1)] sample_empty(2)] getAssignment_repeated by blast
qed

text \<open>
  C24: With \<open>CexCacheExperimental\<close> the cache fails on a query it can answer: once the negated query is known to be valid, so
  that the query is not, \<open>computeTruth\<close> reports failure instead of storing that answer, and without asking the solver
  below.
\<close>

theorem experimental_truth_fails:
  assumes "ub_ok (cex_cache st)" "CexCacheExperimental opts"
    and "getAssignment impl opts (negateExpr q) st = (Success None, st')"
  shows "cex_computeTruth impl opts q st' = (Failure, st')"
  using getAssignment_found [OF assms(1,3)] assms(2) by (simp add: cex_computeTruth_def)

theorem experimental_truth_fails_witness:
  "\<exists>opts st'. getAssignment reference_solver opts (negateExpr (sample_query (sample_bound 0))) (empty_cex ()) = (Success None, st') \<and>
     cex_computeTruth reference_solver opts (sample_query (sample_bound 0)) st' = (Failure, st')"
proof -
  let ?opts = "\<lparr>CexCacheTryAll = False, CexCacheSuperSet = True, CexCacheExperimental = True, DebugCexCacheCheckBinding = False\<rparr>"
  have "ub_ok (cex_cache (empty_cex ()))" "CexCacheExperimental ?opts" by (simp_all add: empty_cex_def)
  then show ?thesis
    using sample_answer [OF truth_query_negate [OF sample_empty(1)] sample_empty(2)] experimental_truth_fails by blast
qed

end
