(* ===== verification/IndependentSolver.thy ===== *)
theory IndependentSolver
  imports Solver "HOL-Library.AList"
begin

text \<open>
  The independent solver of \<open>klee/lib/Solver/IndependentSolver.cpp\<close>: the sets of array elements an expression
  reads, the constraints connected to a query through them, the partition of the constraints into factors that share
  no element, and the solver that hands each query only the constraints it depends on and solves for initial values
  factor by factor. A \<open>std::map\<close> from arrays is an association list, in the order of insertion; where the code
  iterates over one and the order can be seen, the list is sorted by the array.
\<close>

declare One_nat_def [simp del]

subsection \<open>Element sets\<close>

text \<open>Elements read at constant indices, arrays read at other indices, and the expressions.\<close>

record element_set =
  elements :: "(array \<times> nat set) list"
  wholeObjects :: "array list"
  ie_exprs :: "expr list"

definition elements_of :: "(array \<times> nat set) list \<Rightarrow> array \<Rightarrow> nat set" where
  "elements_of els a = (case map_of els a of None \<Rightarrow> {} | Some s \<Rightarrow> s)"

fun add_read :: "expr \<Rightarrow> element_set \<Rightarrow> element_set" where
  "add_read (ReadExpr root us index) ies =
     (if isConstantArray root \<and> us = NullNode then ies
      else if root \<in> set (wholeObjects ies) then ies
      else case asConst index of
        Some CE \<Rightarrow>
          ies\<lparr>elements := AList.update root
            (insert (nat (take_bit 32 (getZExtValue CE))) (elements_of (elements ies) root)) (elements ies)\<rparr>
      | None \<Rightarrow> ies\<lparr>elements := AList.delete root (elements ies), wholeObjects := root # wholeObjects ies\<rparr>)"
| "add_read e ies = ies"

definition IndependentElementSet :: "expr \<Rightarrow> element_set" where
  "IndependentElementSet e =
     fold add_read (findReads e True) \<lparr>elements = [], wholeObjects = [], ie_exprs = [e]\<rparr>"

definition intersects :: "element_set \<Rightarrow> element_set \<Rightarrow> bool" where
  "intersects a b \<longleftrightarrow>
     list_ex (\<lambda>arr. arr \<in> set (wholeObjects b) \<or> map_of (elements b) arr \<noteq> None) (wholeObjects a) \<or>
     list_ex (\<lambda>(arr, s). arr \<in> set (wholeObjects b) \<or>
       (case map_of (elements b) arr of None \<Rightarrow> False | Some t \<Rightarrow> s \<inter> t \<noteq> {})) (elements a)"

text \<open>Addition of one whole array and of the elements of one array; the flag says whether the set has changed.\<close>

definition add_whole :: "array \<Rightarrow> element_set \<times> bool \<Rightarrow> element_set \<times> bool" where
  "add_whole arr w =
     (case w of (ies, modified) \<Rightarrow>
        if map_of (elements ies) arr \<noteq> None then
          (ies\<lparr>elements := AList.delete arr (elements ies), wholeObjects := List.insert arr (wholeObjects ies)\<rparr>, True)
        else if arr \<in> set (wholeObjects ies) then (ies, modified)
        else (ies\<lparr>wholeObjects := arr # wholeObjects ies\<rparr>, True))"

definition add_elements :: "array \<times> nat set \<Rightarrow> element_set \<times> bool \<Rightarrow> element_set \<times> bool" where
  "add_elements entry w =
     (case (entry, w) of ((arr, s), (ies, modified)) \<Rightarrow>
        if arr \<in> set (wholeObjects ies) then (ies, modified)
        else case map_of (elements ies) arr of
          None \<Rightarrow> (ies\<lparr>elements := AList.update arr s (elements ies)\<rparr>, True)
        | Some t \<Rightarrow> (ies\<lparr>elements := AList.update arr (t \<union> s) (elements ies)\<rparr>, modified \<or> \<not> s \<subseteq> t))"

definition add_set :: "element_set \<Rightarrow> element_set \<Rightarrow> element_set \<times> bool" where
  "add_set a b =
     fold add_elements (elements b) (fold add_whole (wholeObjects b) (a\<lparr>ie_exprs := ie_exprs a @ ie_exprs b\<rparr>, False))"

subsection \<open>The constraints connected to a query\<close>

text \<open>One pass over the worklist: the closure, whether it is unchanged, the constraints taken and those left.\<close>

primrec closure_pass :: "element_set \<Rightarrow> (expr \<times> element_set) list \<Rightarrow>
    element_set \<times> bool \<times> expr list \<times> (expr \<times> element_set) list" where
  "closure_pass eltsClosure [] = (eltsClosure, True, [], [])"
| "closure_pass eltsClosure (it # worklist) =
     (if intersects (snd it) eltsClosure then
        (case add_set eltsClosure (snd it) of (eltsClosure', modified) \<Rightarrow>
         case closure_pass eltsClosure' worklist of (c, fin, result, newWorklist) \<Rightarrow>
           (c, fin \<and> \<not> modified, fst it # result, newWorklist))
      else (case closure_pass eltsClosure worklist of (c, fin, result, newWorklist) \<Rightarrow>
           (c, fin, result, it # newWorklist)))"

lemma closure_pass_length:
  "closure_pass c ws = (c', fin, result, ws') \<Longrightarrow> length ws' \<le> length ws \<and> (\<not> fin \<longrightarrow> length ws' < length ws)"
  by (induction ws arbitrary: c c' fin result ws') (fastforce split: if_splits prod.splits)+

function closure_loop :: "element_set \<Rightarrow> (expr \<times> element_set) list \<Rightarrow> element_set \<times> expr list" where
  "closure_loop eltsClosure worklist =
     (case closure_pass eltsClosure worklist of (eltsClosure', fin, result, newWorklist) \<Rightarrow>
        if fin then (eltsClosure', result)
        else (case closure_loop eltsClosure' newWorklist of (c, rest) \<Rightarrow> (c, result @ rest)))"
  by pat_completeness auto
termination
  by (relation "measure (\<lambda>(c, ws). length ws)") (auto dest!: closure_pass_length [OF sym])

declare closure_loop.simps [simp del]

definition getIndependentConstraints :: "query \<Rightarrow> element_set \<times> expr list" where
  "getIndependentConstraints query =
     closure_loop (IndependentElementSet (qexpr query)) (map (\<lambda>c. (c, IndependentElementSet c)) (constraints query))"

subsection \<open>The factors of the constraints\<close>

text \<open>The factors that meet the current one are added to it, the others are kept.\<close>

primrec absorb :: "element_set \<Rightarrow> element_set list \<Rightarrow> element_set \<times> element_set list \<times> bool" where
  "absorb current [] = (current, [], True)"
| "absorb current (compare # factors) =
     (if intersects current compare then
        (case add_set current compare of (current', modified) \<Rightarrow>
         case absorb current' factors of (c, keep, doneLoop) \<Rightarrow> (c, keep, doneLoop \<and> \<not> modified))
      else (case absorb current factors of (c, keep, doneLoop) \<Rightarrow> (c, compare # keep, doneLoop)))"

lemma absorb_length:
  "absorb c fs = (c', keep, fin) \<Longrightarrow> length keep \<le> length fs \<and> (\<not> fin \<longrightarrow> length keep < length fs)"
  by (induction fs arbitrary: c c' keep fin) (fastforce split: if_splits prod.splits)+

function factor_pass :: "element_set list \<Rightarrow> element_set list \<times> bool" where
  "factor_pass [] = ([], True)"
| "factor_pass (current # factors) =
     (case absorb current factors of (current', keep, ok) \<Rightarrow>
      case factor_pass keep of (fin, ok') \<Rightarrow> (current' # fin, ok \<and> ok'))"
  by pat_completeness auto
termination
  by (relation "measure length") (auto dest!: absorb_length [OF sym])

lemma factor_pass_length:
  "factor_pass fs = (fin, ok) \<Longrightarrow> length fin \<le> length fs \<and> (\<not> ok \<longrightarrow> length fin < length fs)"
proof (induction fs arbitrary: fin ok rule: factor_pass.induct)
  case (2 c fs)
  obtain c' keep ok1 where a: "absorb c fs = (c', keep, ok1)" by (cases "absorb c fs")
  obtain fin2 ok2 where b: "factor_pass keep = (fin2, ok2)" by (cases "factor_pass keep")
  from "2.IH" [OF a [symmetric] refl b] "2.prems" absorb_length [OF a] a b show ?case by auto
qed simp

function factor_loop :: "element_set list \<Rightarrow> element_set list" where
  "factor_loop factors = (case factor_pass factors of (fin, doneLoop) \<Rightarrow> if doneLoop then fin else factor_loop fin)"
  by pat_completeness auto
termination
  by (relation "measure length") (auto dest!: factor_pass_length [OF sym])

declare factor_loop.simps [simp del]

text \<open>A constant query expression must be false and gives no factor.\<close>

definition getAllIndependentConstraintsSets :: "query \<Rightarrow> element_set list option" where
  "getAllIndependentConstraintsSets query =
     (case asConst (qexpr query) of
        Some CE \<Rightarrow> if isFalse CE then Some (factor_loop (map IndependentElementSet (constraints query))) else None
      | None \<Rightarrow> Some (factor_loop (map IndependentElementSet (createIsZero (qexpr query) # constraints query))))"

definition calculateArrayReferences :: "element_set \<Rightarrow> array list" where
  "calculateArrayReferences ie = sort_key array_key (remdups (map fst (elements ie) @ wholeObjects ie))"

subsection \<open>The solver\<close>

definition required_query :: "query \<Rightarrow> query" where
  "required_query query = \<lparr>constraints = snd (getIndependentConstraints query), qexpr = qexpr query\<rparr>"

text \<open>
  The answers for one array of a factor: stored whole the first time, otherwise only the elements of the factor are
  copied. \<open>None\<close> is a failed assertion on the sizes or an access past the end of a vector.
\<close>

type_synonym ret_map = "array \<rightharpoonup> 8 word list"

definition merge_array :: "element_set \<Rightarrow> array \<times> 8 word list \<Rightarrow> ret_map \<Rightarrow> ret_map option" where
  "merge_array it answer retMap =
     (case answer of (arr, tempValues) \<Rightarrow>
        case retMap arr of
          None \<Rightarrow> Some (retMap(arr \<mapsto> tempValues))
        | Some tempPtr \<Rightarrow>
            let ds = elements_of (elements it) arr in
            if length tempPtr \<noteq> length tempValues \<or> \<not> ds \<subseteq> {..<length tempPtr} then None
            else Some (retMap(arr \<mapsto> map (\<lambda>i. if i \<in> ds then tempValues ! i else tempPtr ! i) [0..<length tempPtr])))"

primrec merge_answers :: "element_set \<Rightarrow> (array \<times> 8 word list) list \<Rightarrow> ret_map \<Rightarrow> ret_map option" where
  "merge_answers it [] retMap = Some retMap"
| "merge_answers it (answer # answers) retMap =
     (case merge_array it answer retMap of None \<Rightarrow> None | Some retMap' \<Rightarrow> merge_answers it answers retMap')"

definition factor_query :: "element_set \<Rightarrow> query" where
  "factor_query it = \<lparr>constraints = ie_exprs it, qexpr = ConstantExpr (mkAPInt Bool 0)\<rparr>"

text \<open>Factor by factor; the result is null when some factor has no solution.\<close>

primrec solve_factors :: "'s solver_impl \<Rightarrow> element_set list \<Rightarrow> ret_map \<Rightarrow> ('s, ret_map option) call" where
  "solve_factors solver [] retMap = return (Some retMap)"
| "solve_factors solver (it # factors) retMap =
     (let arraysInFactor = calculateArrayReferences it in
      if ie_exprs it = [] then aborted
      else if arraysInFactor = [] then solve_factors solver factors retMap
      else and_then (computeInitialValues solver (factor_query it) arraysInFactor) (\<lambda>r.
        case r of
          None \<Rightarrow> return None
        | Some tempValues \<Rightarrow>
            if length tempValues \<noteq> length arraysInFactor then aborted
            else (case merge_answers it (zip arraysInFactor tempValues) retMap of
                    None \<Rightarrow> aborted
                  | Some retMap' \<Rightarrow> solve_factors solver factors retMap')))"

text \<open>The assertion on the point created.\<close>

definition assertCreatedPointEvaluatesToTrue :: "query \<Rightarrow> array list \<Rightarrow> 8 word list list \<Rightarrow> ret_map \<Rightarrow> bool" where
  "assertCreatedPointEvaluatesToTrue query objects vals retMap =
     (let assign = Assignment (zip objects vals) True; assign = assign\<lparr>bindings := retMap ++ bindings assign\<rparr>
      in constraints_hold assign (constraints query) \<and>
         (case asConst (evaluate assign (createIsZero (qexpr query))) of None \<Rightarrow> False | Some q \<Rightarrow> isTrue q))"

definition requested :: "ret_map \<Rightarrow> array list \<Rightarrow> 8 word list list" where
  "requested retMap objects = map (\<lambda>arr. case retMap arr of None \<Rightarrow> replicate (arr_size arr) 0 | Some bytes \<Rightarrow> bytes) objects"

definition independent_computeInitialValues ::
  "'s solver_impl \<Rightarrow> query \<Rightarrow> array list \<Rightarrow> ('s, 8 word list list option) call" where
  "independent_computeInitialValues solver query objects =
     (case getAllIndependentConstraintsSets query of
        None \<Rightarrow> aborted
      | Some factors \<Rightarrow>
          and_then (solve_factors solver factors Map.empty) (\<lambda>r.
            case r of
              None \<Rightarrow> return None
            | Some retMap \<Rightarrow>
                let vals = requested retMap objects
                in if assertCreatedPointEvaluatesToTrue query objects vals retMap then return (Some vals) else aborted))"

definition IndependentSolver :: "'s solver_impl \<Rightarrow> 's solver_impl" where
  "IndependentSolver solver =
     \<lparr>computeTruth = \<lambda>query. computeTruth solver (required_query query),
      computeValidity = \<lambda>query. computeValidity solver (required_query query),
      computeValue = \<lambda>query. computeValue solver (required_query query),
      computeInitialValues = independent_computeInitialValues solver\<rparr>"

subsection \<open>What an element set covers\<close>

definition covered :: "element_set \<Rightarrow> array \<Rightarrow> nat \<Rightarrow> bool" where
  "covered ies a i \<longleftrightarrow> a \<in> set (wholeObjects ies) \<or> i \<in> elements_of (elements ies) a"

lemma covered_known: "covered x arr i \<Longrightarrow> arr \<notin> set (wholeObjects x) \<Longrightarrow> \<exists>s. map_of (elements x) arr = Some s \<and> i \<in> s"
  unfolding covered_def elements_of_def by (cases "map_of (elements x) arr") auto

lemma not_intersects:
  assumes no: "\<not> intersects a b" and a: "covered a arr i"
  shows "\<not> covered b arr i"
proof
  assume b: "covered b arr i"
  have w: "\<And>x. x \<in> set (wholeObjects a) \<Longrightarrow> x \<notin> set (wholeObjects b) \<and> map_of (elements b) x = None"
    using no unfolding intersects_def list_ex_iff by blast
  have e: "x \<notin> set (wholeObjects b) \<and> (\<forall>t. map_of (elements b) x = Some t \<longrightarrow> s \<inter> t = {})"
    if "(x, s) \<in> set (elements a)" for x s
  proof -
    note bspec [OF conjunct2 [OF no [unfolded intersects_def list_ex_iff de_Morgan_disj bex_simps(8)]] that]
    then show ?thesis by (cases "map_of (elements b) x") auto
  qed
  show False
  proof (cases "arr \<in> set (wholeObjects a)")
    case True
    then show ?thesis using w [OF True] covered_known [OF b] by auto
  next
    case False
    then obtain s where s: "map_of (elements a) arr = Some s" "i \<in> s" using covered_known [OF a] by blast
    obtain t where "map_of (elements b) arr = Some t" "i \<in> t"
      using covered_known [OF b] e [OF map_of_SomeD [OF s(1)]] by blast
    with e [OF map_of_SomeD [OF s(1)]] s(2) show ?thesis by blast
  qed
qed

text \<open>A step of an addition: nothing is lost, and nothing is gained while the flag stays down.\<close>

definition grows :: "element_set \<times> bool \<Rightarrow> element_set \<times> bool \<Rightarrow> bool" where
  "grows w w' \<longleftrightarrow> ie_exprs (fst w') = ie_exprs (fst w) \<and> (\<forall>a i. covered (fst w) a i \<longrightarrow> covered (fst w') a i) \<and>
     (\<not> snd w' \<longrightarrow> \<not> snd w \<and> (\<forall>a i. covered (fst w') a i \<longrightarrow> covered (fst w) a i))"

lemma grows_refl: "grows w w"
  by (simp add: grows_def)

lemma grows_trans: "grows w w' \<Longrightarrow> grows w' w'' \<Longrightarrow> grows w w''"
  unfolding grows_def by (elim conjE) (intro conjI, simp, blast, blast)

lemma elements_of_update: "elements_of (AList.update a s els) = (elements_of els)(a := s)"
  by (auto simp: elements_of_def update_conv' fun_eq_iff)

lemma elements_of_delete: "elements_of (AList.delete a els) = (elements_of els)(a := {})"
  by (auto simp: elements_of_def delete_conv' fun_eq_iff)

lemma add_whole_grows: "grows w (add_whole arr w)" "covered (fst (add_whole arr w)) arr i"
  by (cases w; auto simp: grows_def add_whole_def covered_def elements_of_delete split: if_splits)+

lemma add_elements_grows: "grows w (add_elements entry w)" "j \<in> snd entry \<Longrightarrow> covered (fst (add_elements entry w)) (fst entry) j"
proof -
  obtain ies m arr s where w: "w = (ies, m)" "entry = (arr, s)" by (cases w; cases entry)
  have "elements_of (elements ies) arr = {}" if "map_of (elements ies) arr = None"
    using that by (simp add: elements_of_def)
  moreover have "elements_of (elements ies) arr = t" if "map_of (elements ies) arr = Some t" for t
    using that by (simp add: elements_of_def)
  ultimately show "grows w (add_elements entry w)" "j \<in> snd entry \<Longrightarrow> covered (fst (add_elements entry w)) (fst entry) j"
    by (auto simp: w grows_def add_elements_def covered_def elements_of_update split: option.splits if_splits)
qed

lemma fold_grows:
  assumes "\<And>x w. grows w (f x w)" "\<And>x w a i. P x a i \<Longrightarrow> covered (fst (f x w)) a i"
  shows "grows w (fold f xs w) \<and> (\<forall>x\<in>set xs. \<forall>a i. P x a i \<longrightarrow> covered (fst (fold f xs w)) a i)"
proof (induction xs arbitrary: w)
  case (Cons x xs)
  have "covered (fst (fold f xs (f x w))) a i" if "P x a i" for a i
    using Cons.IH [of "f x w"] assms(2) [OF that, of w] by (auto simp: grows_def)
  with Cons.IH [of "f x w"] assms(1) [of w x] show ?case by (auto intro: grows_trans)
qed (simp add: grows_refl)

lemma add_set_facts:
  assumes "add_set a b = (c, modified)"
  shows "ie_exprs c = ie_exprs a @ ie_exprs b" "covered a arr i \<Longrightarrow> covered c arr i" "covered b arr i \<Longrightarrow> covered c arr i"
    "\<not> modified \<Longrightarrow> covered c arr i \<Longrightarrow> covered a arr i"
proof -
  let ?w0 = "(a\<lparr>ie_exprs := ie_exprs a @ ie_exprs b\<rparr>, False)"
  let ?w1 = "fold add_whole (wholeObjects b) ?w0"
  have c: "fold add_elements (elements b) ?w1 = (c, modified)" using assms by (simp add: add_set_def)
  have 1: "grows ?w0 ?w1" "\<And>x i. x \<in> set (wholeObjects b) \<Longrightarrow> covered (fst ?w1) x i"
    using fold_grows [of add_whole "\<lambda>x a i. a = x" ?w0 "wholeObjects b"] add_whole_grows by auto
  have 2: "grows ?w1 (c, modified)" "\<And>x s i. (x, s) \<in> set (elements b) \<Longrightarrow> i \<in> s \<Longrightarrow> covered c x i"
    using fold_grows [of add_elements "\<lambda>e a i. a = fst e \<and> i \<in> snd e" ?w1 "elements b"] add_elements_grows
    by (force simp: c)+
  have eq: "covered (a\<lparr>ie_exprs := es\<rparr>) = covered a" for es by (simp add: covered_def fun_eq_iff)
  from grows_trans [OF 1(1) 2(1)] show "ie_exprs c = ie_exprs a @ ie_exprs b" "covered a arr i \<Longrightarrow> covered c arr i"
    "\<not> modified \<Longrightarrow> covered c arr i \<Longrightarrow> covered a arr i"
    by (auto simp: grows_def eq)
  show "covered c arr i" if cov: "covered b arr i"
  proof (cases "arr \<in> set (wholeObjects b)")
    case True
    then show ?thesis using 1(2) [OF True, of i] 2(1) unfolding grows_def by simp
  next
    case False
    then obtain s where "map_of (elements b) arr = Some s" "i \<in> s"
      using covered_known [OF cov] by blast
    then show ?thesis using 2(2) map_of_SomeD by fast
  qed
qed

text \<open>An expression depends only on covered cells, whatever the environment.\<close>

definition depends_on :: "element_set \<Rightarrow> expr \<Rightarrow> bool" where
  "depends_on ies e \<longleftrightarrow> (\<forall>\<rho>. all_sub (\<lambda>x. case asRead x of
     Some (a, us, i) \<Rightarrow> isSymbolicArray a \<longrightarrow> covered ies a (nat (eval \<rho> i)) | None \<Rightarrow> True) e)"

lemma depends_on_mono: "depends_on ies e \<Longrightarrow> (\<And>a i. covered ies a i \<Longrightarrow> covered ies' a i) \<Longrightarrow> depends_on ies' e"
  unfolding depends_on_def by (intro allI, drule spec, erule all_sub_mono) (auto split: option.splits)

lemma depends_same_reads:
  assumes "depends_on ies e" "\<And>a i. \<not> isSymbolicArray a \<or> covered ies a i \<Longrightarrow> cell \<rho> a i = cell \<rho>' a i"
  shows "same_reads \<rho> \<rho>' e"
  using assms(1) unfolding depends_on_def same_reads_def
  by (elim allE [of _ \<rho>] all_sub_mono) (use assms(2) in \<open>auto simp: initial_value_def cell_def split: option.splits\<close>)

lemma depends_same_reads_bounded:
  assumes "depends_on ies e" "in_bounds \<rho> e"
    and "\<And>a i. isSymbolicArray a \<Longrightarrow> covered ies a i \<Longrightarrow> i < arr_size a \<Longrightarrow> cell \<rho> a i = cell \<rho>' a i"
  shows "same_reads \<rho> \<rho>' e"
proof -
  have "all_sub (\<lambda>x. (case asRead x of Some (a, us, i) \<Rightarrow> isSymbolicArray a \<longrightarrow> covered ies a (nat (eval \<rho> i)) | None \<Rightarrow> True) \<and>
      (case asRead x of Some (a, us, i) \<Rightarrow> nat (eval \<rho> i) < arr_size a | None \<Rightarrow> True)) e"
    using assms(1,2) unfolding depends_on_def in_bounds_def by (intro all_sub_conj) blast+
  then show ?thesis unfolding same_reads_def
    by (rule all_sub_mono) (use assms(3) in \<open>auto simp: initial_value_def isConstantArray_def cell_def split: option.splits\<close>)
qed

text \<open>The set built for an expression covers what it depends on.\<close>

lemma add_read_covered: "covered ies a i \<Longrightarrow> covered (add_read e ies) a i" "ie_exprs (add_read e ies) = ie_exprs ies"
proof -
  have "(covered ies a i \<longrightarrow> covered (add_read e ies) a i) \<and> ie_exprs (add_read e ies) = ie_exprs ies"
  proof (cases e)
    case (ReadExpr root us index)
    then show ?thesis
      by (auto simp: covered_def elements_of_update elements_of_delete split: option.split)
  qed simp_all
  then show "covered ies a i \<Longrightarrow> covered (add_read e ies) a i" "ie_exprs (add_read e ies) = ie_exprs ies" by simp_all
qed

definition recorded :: "element_set \<Rightarrow> expr \<Rightarrow> bool" where
  "recorded ies r \<longleftrightarrow> (\<forall>a us i j. r = ReadExpr a us i \<and> \<not> (isConstantArray a \<and> us = NullNode) \<and>
     (\<forall>c. i = ConstantExpr c \<longrightarrow> j = nat (take_bit 32 (uval c))) \<longrightarrow> covered ies a j)"

lemma add_read_recorded: "recorded (add_read r ies) r"
proof (cases r)
  case (ReadExpr a us i)
  show ?thesis
  proof (cases "isConst i")
    case True
    then obtain c where "i = ConstantExpr c" by (auto simp: isConst_asConst)
    then show ?thesis by (auto simp: ReadExpr recorded_def covered_def elements_of_update getZExtValue_def)
  next
    case False
    then have "asConst i = None" by (cases i) auto
    then have "add_read r ies = (if isConstantArray a \<and> us = NullNode \<or> a \<in> set (wholeObjects ies) then ies
        else ies\<lparr>elements := AList.delete a (elements ies), wholeObjects := a # wholeObjects ies\<rparr>)"
      by (simp only: ReadExpr add_read.simps option.case) simp
    then show ?thesis by (auto simp: ReadExpr recorded_def covered_def)
  qed
qed (simp_all add: recorded_def)

lemma fold_add_read:
  "ie_exprs (fold add_read rs ies) = ie_exprs ies \<and> (\<forall>a i. covered ies a i \<longrightarrow> covered (fold add_read rs ies) a i) \<and>
     (\<forall>r\<in>set rs. recorded (fold add_read rs ies) r)"
proof (induction rs arbitrary: ies)
  case (Cons r rs)
  have "recorded (fold add_read rs (add_read r ies)) r"
    using Cons.IH [of "add_read r ies"] add_read_recorded [of r ies] unfolding recorded_def by blast
  then show ?case using Cons.IH [of "add_read r ies"] add_read_covered by simp
qed simp

lemma reach_all_sub:
  assumes "\<And>c. P (ConstantExpr c)" "\<And>x. x \<in> reach True e \<Longrightarrow> P x"
  shows "all_sub P e"
proof -
  have "x \<in> reach True e \<or> isConst x \<Longrightarrow> all_sub P x" for x
  proof (induction x rule: expr_size_induct)
    case (smaller x)
    have "all_sub P y" if y: "y \<in> set (inner x)" for y
    proof (rule smaller.IH)
      show "size y < size x" using inner_size [OF y] .
      have "x \<in> reach True e" using smaller.prems y by (auto simp: isConst_asConst)
      from reach.step [OF this, of y] y show "y \<in> reach True e \<or> isConst y" by (auto simp: next_of_def)
    qed
    moreover have "P x" using smaller.prems assms by (auto simp: isConst_asConst)
    ultimately show ?case by (subst all_sub.simps) blast
  qed
  then show ?thesis using reach.start [of e True] by blast
qed

lemma reach_wt: "x \<in> reach True e \<Longrightarrow> wt e \<and> narrow e \<Longrightarrow> wt x \<and> narrow x"
  by (induction rule: reach.induct) (use wt_inner narrow_inner in \<open>auto simp: next_of_def\<close>)

lemma element_set_covers:
  assumes "wt e" "narrow e"
  shows "depends_on (IndependentElementSet e) e" "ie_exprs (IndependentElementSet e) = [e]"
proof -
  show "ie_exprs (IndependentElementSet e) = [e]" by (simp add: IndependentElementSet_def fold_add_read)
  show "depends_on (IndependentElementSet e) e"
    unfolding depends_on_def
  proof (intro allI reach_all_sub)
    fix \<rho> x assume x: "x \<in> reach True e"
    have w: "wt x \<and> narrow x" using reach_wt [OF x] assms by simp
    show "case asRead x of Some (a, us, i) \<Rightarrow> isSymbolicArray a \<longrightarrow> covered (IndependentElementSet e) a (nat (eval \<rho> i)) | None \<Rightarrow> True"
    proof (cases x)
      case (ReadExpr a us i)
      then have "x \<in> set (findReads e True)" using x by (simp add: findReads_set)
      moreover have "nat (eval \<rho> i) = nat (take_bit 32 (uval c))" if "i = ConstantExpr c" for c
      proof -
        have "take_bit 32 (uval c) = uval c"
        proof (rule take_bit_wider)
          show "take_bit (arr_domain a) (uval c) = uval c" using w ReadExpr that apint_okD(4) [of c] by simp
          show "arr_domain a \<le> 32" using w ReadExpr narrow_Read by blast
        qed
        then show ?thesis using that by simp
      qed
      ultimately show ?thesis
        using ReadExpr fold_add_read [of "findReads e True" "\<lparr>elements = [], wholeObjects = [], ie_exprs = [e]\<rparr>"]
        by (auto simp: IndependentElementSet_def recorded_def isConstantArray_def)
    qed auto
  qed simp
qed

subsection \<open>Where the elements come from\<close>

text \<open>Every array of an element set is read by one of its expressions, every element at a constant index.\<close>

definition mentions :: "element_set \<Rightarrow> array \<Rightarrow> bool" where
  "mentions ies a \<longleftrightarrow> a \<in> set (wholeObjects ies) \<or> map_of (elements ies) a \<noteq> None"

definition reads_of :: "expr list \<Rightarrow> expr set" where
  "reads_of es = (\<Union>e\<in>set es. reach True e)"

definition sourced :: "expr set \<Rightarrow> element_set \<Rightarrow> bool" where
  "sourced R ies \<longleftrightarrow>
     (\<forall>a. mentions ies a \<longrightarrow> (\<exists>us i. ReadExpr a us i \<in> R)) \<and>
     (\<forall>a j. j \<in> elements_of (elements ies) a \<longrightarrow> (\<exists>us c. ReadExpr a us (ConstantExpr c) \<in> R \<and> j = nat (take_bit 32 (uval c)))) \<and>
     (\<forall>a. map_of (elements ies) a \<noteq> Some {}) \<and> distinct (map fst (elements ies))"

lemma map_of_updates: "map_of (AList.update k v al) a = (if a = k then Some v else map_of al a)"
  "map_of (AList.delete k al) a = (if a = k then None else map_of al a)"
  by (simp_all add: update_conv' delete_conv')

lemma sourced_mono: "sourced R ies \<Longrightarrow> R \<subseteq> R' \<Longrightarrow> sourced R' ies"
  unfolding sourced_def by blast

lemma sourced_exprs [simp]: "sourced R (ies\<lparr>ie_exprs := es\<rparr>) = sourced R ies"
  by (simp add: sourced_def mentions_def)

lemma sourced_whole:
  assumes "sourced R ies" "ReadExpr a us i \<in> R"
  shows "sourced R (ies\<lparr>elements := AList.delete a (elements ies), wholeObjects := List.insert a (wholeObjects ies)\<rparr>)"
    "sourced R (ies\<lparr>elements := AList.delete a (elements ies), wholeObjects := a # wholeObjects ies\<rparr>)"
    "sourced R (ies\<lparr>wholeObjects := a # wholeObjects ies\<rparr>)"
  using assms unfolding sourced_def mentions_def by (auto simp: map_of_updates elements_of_delete distinct_delete)

lemma sourced_elements:
  assumes "sourced R ies" "\<And>j. j \<in> s \<Longrightarrow> \<exists>us c. ReadExpr a us (ConstantExpr c) \<in> R \<and> j = nat (take_bit 32 (uval c))" "s \<noteq> {}"
  shows "sourced R (ies\<lparr>elements := AList.update a s (elements ies)\<rparr>)"
  using assms unfolding sourced_def mentions_def by (auto simp: map_of_updates elements_of_update distinct_update) blast

lemma add_read_sourced:
  assumes "sourced R ies" "r \<in> R"
  shows "sourced R (add_read r ies)"
proof (cases r)
  case (ReadExpr a us i)
  show ?thesis
  proof (cases "isConst i")
    case True
    then obtain c where c: "i = ConstantExpr c" by (auto simp: isConst_asConst)
    have "sourced R (ies\<lparr>elements := AList.update a (insert (nat (take_bit 32 (getZExtValue c))) (elements_of (elements ies) a)) (elements ies)\<rparr>)"
      using assms ReadExpr c by (intro sourced_elements) (auto simp: sourced_def getZExtValue_def)
    then show ?thesis using assms(1) by (simp add: ReadExpr c)
  next
    case False
    then have "asConst i = None" by (cases i) auto
    then have "add_read r ies = (if isConstantArray a \<and> us = NullNode \<or> a \<in> set (wholeObjects ies) then ies
        else ies\<lparr>elements := AList.delete a (elements ies), wholeObjects := a # wholeObjects ies\<rparr>)"
      by (simp only: ReadExpr add_read.simps option.case) simp
    then show ?thesis using assms ReadExpr sourced_whole(2) [OF assms(1)] by simp
  qed
qed (use assms in simp_all)

lemma element_set_sourced: "sourced (reach True e) (IndependentElementSet e)"
proof -
  have "sourced R ies \<Longrightarrow> set rs \<subseteq> R \<Longrightarrow> sourced R (fold add_read rs ies)" for R rs ies
    by (induction rs arbitrary: ies) (auto simp: add_read_sourced)
  moreover have "sourced (reach True e) \<lparr>elements = [], wholeObjects = [], ie_exprs = [e]\<rparr>"
    by (simp add: sourced_def mentions_def elements_of_def)
  ultimately show ?thesis by (simp add: IndependentElementSet_def findReads_set)
qed

lemma add_whole_sourced:
  assumes "sourced R (fst w)" "ReadExpr a us i \<in> R"
  shows "sourced R (fst (add_whole a w))"
proof -
  obtain ies m where w: "w = (ies, m)" by (cases w)
  then show ?thesis using assms sourced_whole [of R ies a us i] by (simp add: add_whole_def)
qed

lemma add_elements_sourced:
  assumes "sourced R (fst w)" "\<And>j. j \<in> s \<Longrightarrow> \<exists>us c. ReadExpr a us (ConstantExpr c) \<in> R \<and> j = nat (take_bit 32 (uval c))" "s \<noteq> {}"
  shows "sourced R (fst (add_elements (a, s) w))"
proof -
  obtain ies m where w: "w = (ies, m)" by (cases w)
  have "sourced R (ies\<lparr>elements := AList.update a (t \<union> s) (elements ies)\<rparr>)" if "map_of (elements ies) a = Some t" for t
    using assms that by (intro sourced_elements) (auto simp: w sourced_def elements_of_def)
  then show ?thesis
    using assms sourced_elements [OF _ assms(2,3), of ies] by (auto simp: w add_elements_def split: option.split)
qed

lemma add_set_sourced:
  assumes "add_set a b = (c, modified)" "sourced R a" "sourced R b"
  shows "sourced R c"
proof -
  have 1: "sourced R (fst (fold add_whole ws w))" if "sourced R (fst w)" "set ws \<subseteq> set (wholeObjects b)" for ws w
    using that
  proof (induction ws arbitrary: w)
    case (Cons x ws)
    have "mentions b x" using Cons.prems(2) by (simp add: mentions_def)
    then obtain us i where "ReadExpr x us i \<in> R" using assms(3) unfolding sourced_def by blast
    from add_whole_sourced [OF Cons.prems(1) this] show ?case using Cons by simp
  qed simp
  have 2: "sourced R (fst (fold add_elements els w))" if "sourced R (fst w)" "set els \<subseteq> set (elements b)" for els w
    using that
  proof (induction els arbitrary: w)
    case (Cons x els)
    obtain arr s where x: "x = (arr, s)" by (cases x)
    have m: "map_of (elements b) arr = Some s" using Cons.prems(2) assms(3) x by (simp add: sourced_def)
    then have e: "elements_of (elements b) arr = s" by (simp add: elements_of_def)
    have "s \<noteq> {}" using m assms(3) unfolding sourced_def by metis
    moreover have "\<exists>us c. ReadExpr arr us (ConstantExpr c) \<in> R \<and> j = nat (take_bit 32 (uval c))" if "j \<in> s" for j
      using assms(3) that unfolding sourced_def e [symmetric] by blast
    ultimately have "sourced R (fst (add_elements (arr, s) w))" using Cons.prems(1) by (intro add_elements_sourced) auto
    then show ?case using Cons x by simp
  qed simp
  have "c = fst (add_set a b)" using assms(1) by simp
  then show ?thesis unfolding add_set_def using 2 [OF 1] assms(2) by simp
qed

subsection \<open>The closure and the factors\<close>

definition within :: "element_set \<Rightarrow> element_set \<Rightarrow> bool" where
  "within a b \<longleftrightarrow> (\<forall>arr i. covered a arr i \<longrightarrow> covered b arr i)"

definition apart :: "element_set \<Rightarrow> element_set \<Rightarrow> bool" where
  "apart a b \<longleftrightarrow> (\<forall>arr i. covered a arr i \<longrightarrow> \<not> covered b arr i)"

lemma within_refl [simp]: "within a a"
  and within_trans [trans]: "within a b \<Longrightarrow> within b c \<Longrightarrow> within a c"
  by (simp_all add: within_def)

lemma apart_within: "apart a b \<Longrightarrow> within a' a \<Longrightarrow> within b' b \<Longrightarrow> apart a' b'"
  by (simp add: apart_def within_def) blast

lemma not_intersects_apart: "\<not> intersects a b \<Longrightarrow> apart a b"
  using not_intersects by (simp add: apart_def)

lemma add_set_within: "add_set a b = (c, modified) \<Longrightarrow> within a c \<and> within b c \<and> (\<not> modified \<longrightarrow> within c a)"
  by (auto simp: within_def dest: add_set_facts)

lemma closure_pass_facts:
  "closure_pass c ws = (c', fin, result, ws') \<Longrightarrow> within c c' \<and>
     (\<exists>taken. set ws = taken \<union> set ws' \<and> set result = fst ` taken \<and> (\<forall>it\<in>taken. within (snd it) c')) \<and>
     (fin \<longrightarrow> within c' c \<and> (\<forall>it\<in>set ws'. apart (snd it) c))"
proof (induction ws arbitrary: c c' fin result ws')
  case Nil
  then show ?case by simp
next
  case (Cons it ws)
  show ?case
  proof (cases "intersects (snd it) c")
    case True
    obtain d modified where add: "add_set c (snd it) = (d, modified)" by (cases "add_set c (snd it)")
    obtain e fin1 res1 ws1 where rec: "closure_pass d ws = (e, fin1, res1, ws1)" by (cases "closure_pass d ws")
    from Cons.prems True add rec have eq: "c' = e" "fin = (fin1 \<and> \<not> modified)" "result = fst it # res1" "ws' = ws1" by auto
    from Cons.IH [OF rec] obtain taken where t: "set ws = taken \<union> set ws1" "set res1 = fst ` taken" "\<forall>it\<in>taken. within (snd it) e"
      and w: "within d e" and f: "fin1 \<longrightarrow> within e d \<and> (\<forall>it\<in>set ws1. apart (snd it) d)" by blast
    note a = add_set_within [OF add]
    have "within c e" "within (snd it) e" using a w within_trans by blast+
    moreover have "within e c \<and> (\<forall>it\<in>set ws1. apart (snd it) c)" if "fin1 \<and> \<not> modified"
      using that a f within_trans apart_within within_refl by blast
    ultimately show ?thesis
      unfolding eq using t by (intro conjI exI [of _ "insert it taken"]) auto
  next
    case False
    obtain e fin1 res1 ws1 where rec: "closure_pass c ws = (e, fin1, res1, ws1)" by (cases "closure_pass c ws")
    from Cons.prems False rec have eq: "c' = e" "fin = fin1" "result = res1" "ws' = it # ws1" by auto
    from Cons.IH [OF rec] obtain taken where t: "set ws = taken \<union> set ws1" "set res1 = fst ` taken" "\<forall>it\<in>taken. within (snd it) e"
      and w: "within c e" and f: "fin1 \<longrightarrow> within e c \<and> (\<forall>it\<in>set ws1. apart (snd it) c)" by blast
    with not_intersects_apart [OF False] show ?thesis
      unfolding eq by (intro conjI exI [of _ taken]) auto
  qed
qed

text \<open>The constraints taken lie in the closure; those left do not meet it.\<close>

lemma closure_loop_facts:
  "closure_loop c ws = (c', result) \<Longrightarrow> within c c' \<and>
     (\<exists>taken left. set ws = taken \<union> left \<and> set result = fst ` taken \<and> (\<forall>it\<in>taken. within (snd it) c') \<and>
        (\<forall>it\<in>left. apart (snd it) c'))"
proof (induction c ws arbitrary: c' result rule: closure_loop.induct)
  case (1 c ws)
  obtain d fin res1 ws1 where pass: "closure_pass c ws = (d, fin, res1, ws1)" by (cases "closure_pass c ws")
  from closure_pass_facts [OF pass] obtain taken where t: "set ws = taken \<union> set ws1" "set res1 = fst ` taken"
    "\<forall>it\<in>taken. within (snd it) d" and w: "within c d" and f: "fin \<longrightarrow> within d c \<and> (\<forall>it\<in>set ws1. apart (snd it) c)" by blast
  show ?case
  proof (cases fin)
    case True
    with "1.prems" pass have eq: "c' = d" "result = res1" by (simp_all add: closure_loop.simps [of c ws])
    have "\<forall>it\<in>set ws1. apart (snd it) d" using f True apart_within within_refl by blast
    with t w show ?thesis unfolding eq by blast
  next
    case False
    obtain e rest where rec: "closure_loop d ws1 = (e, rest)" by (cases "closure_loop d ws1")
    with "1.prems" pass False have eq: "c' = e" "result = res1 @ rest" by (simp_all add: closure_loop.simps [of c ws])
    from "1.IH" [OF pass [symmetric] refl refl False rec] obtain taken' left where
      t': "set ws1 = taken' \<union> left" "set rest = fst ` taken'" "\<forall>it\<in>taken'. within (snd it) e" "\<forall>it\<in>left. apart (snd it) e"
      and w': "within d e" by blast
    have "\<forall>it\<in>taken. within (snd it) e" using t(3) w' within_trans by blast
    with t t' within_trans [OF w w'] show ?thesis
      unfolding eq by (intro conjI exI [of _ "taken \<union> taken'"] exI [of _ left]) auto
  qed
qed

text \<open>A factor covers what each of its expressions reads.\<close>

definition factor_ok :: "element_set \<Rightarrow> bool" where
  "factor_ok f \<longleftrightarrow> ie_exprs f \<noteq> [] \<and> (\<forall>e\<in>set (ie_exprs f). within (IndependentElementSet e) f) \<and>
     sourced (reads_of (ie_exprs f)) f"

definition exprs_of :: "element_set list \<Rightarrow> expr set" where
  "exprs_of fs = (\<Union>f\<in>set fs. set (ie_exprs f))"

lemma exprs_of_simps [simp]: "exprs_of [] = {}" "exprs_of (f # fs) = set (ie_exprs f) \<union> exprs_of fs"
  by (simp_all add: exprs_of_def)

lemma add_set_ok:
  assumes "add_set a b = (c, modified)" "factor_ok a" "factor_ok b"
  shows "factor_ok c"
  unfolding factor_ok_def add_set_facts(1) [OF assms(1)]
proof (intro conjI ballI)
  show "ie_exprs a @ ie_exprs b \<noteq> []" using assms(2) by (simp add: factor_ok_def)
  fix e assume "e \<in> set (ie_exprs a @ ie_exprs b)"
  then have "within (IndependentElementSet e) a \<or> within (IndependentElementSet e) b"
    using assms(2,3) by (auto simp: factor_ok_def)
  then show "within (IndependentElementSet e) c" using add_set_within [OF assms(1)] within_trans by blast
next
  have "reads_of (ie_exprs a) \<subseteq> reads_of (ie_exprs a @ ie_exprs b)" "reads_of (ie_exprs b) \<subseteq> reads_of (ie_exprs a @ ie_exprs b)"
    by (auto simp: reads_of_def)
  then show "sourced (reads_of (ie_exprs a @ ie_exprs b)) c"
    using assms(2,3) sourced_mono unfolding factor_ok_def by (intro add_set_sourced [OF assms(1)]) blast+
qed

lemma element_set_ok: "wt e \<Longrightarrow> narrow e \<Longrightarrow> factor_ok (IndependentElementSet e)"
  using element_set_sourced [of e] by (simp add: factor_ok_def element_set_covers reads_of_def)

lemma absorb_facts:
  "absorb c fs = (c', keep, fin) \<Longrightarrow> factor_ok c \<Longrightarrow> list_all factor_ok fs \<Longrightarrow>
     factor_ok c' \<and> within c c' \<and> set keep \<subseteq> set fs \<and> set (ie_exprs c') \<union> exprs_of keep = set (ie_exprs c) \<union> exprs_of fs \<and>
     (fin \<longrightarrow> within c' c \<and> (\<forall>k\<in>set keep. apart c k))"
proof (induction fs arbitrary: c c' keep fin)
  case Nil
  then show ?case by simp
next
  case (Cons f fs)
  show ?case
  proof (cases "intersects c f")
    case True
    obtain d modified where add: "add_set c f = (d, modified)" by (cases "add_set c f")
    obtain e keep1 fin1 where rec: "absorb d fs = (e, keep1, fin1)" by (cases "absorb d fs")
    from Cons.prems(1) True add rec have eq: "c' = e" "keep = keep1" "fin = (fin1 \<and> \<not> modified)" by auto
    have "factor_ok d" using add_set_ok [OF add] Cons.prems by simp
    from Cons.IH [OF rec this] Cons.prems(3) have IH: "factor_ok e" "within d e" "set keep1 \<subseteq> set fs"
      "set (ie_exprs e) \<union> exprs_of keep1 = set (ie_exprs d) \<union> exprs_of fs"
      "fin1 \<longrightarrow> within e d \<and> (\<forall>k\<in>set keep1. apart d k)" by simp_all
    have "within e c \<and> (\<forall>k\<in>set keep1. apart c k)" if "fin1 \<and> \<not> modified"
      using that add_set_within [OF add] IH(5) within_trans apart_within within_refl by blast
    moreover have "within c e" using add_set_within [OF add] IH(2) within_trans by blast
    ultimately show ?thesis
      unfolding eq using IH add_set_facts(1) [OF add] by auto
  next
    case False
    obtain e keep1 fin1 where rec: "absorb c fs = (e, keep1, fin1)" by (cases "absorb c fs")
    from Cons.prems(1) False rec have eq: "c' = e" "keep = f # keep1" "fin = fin1" by auto
    from Cons.IH [OF rec Cons.prems(2)] Cons.prems(3) not_intersects_apart [OF False] show ?thesis
      unfolding eq by auto
  qed
qed

lemma factor_pass_facts:
  "factor_pass fs = (fs', ok) \<Longrightarrow> list_all factor_ok fs \<Longrightarrow>
     list_all factor_ok fs' \<and> exprs_of fs' = exprs_of fs \<and>
     (ok \<longrightarrow> sorted_wrt apart fs' \<and> (\<forall>d\<in>set fs'. \<exists>f\<in>set fs. within d f))"
proof (induction fs arbitrary: fs' ok rule: factor_pass.induct)
  case 1
  then show ?case by simp
next
  case (2 c fs)
  obtain d keep ok1 where a: "absorb c fs = (d, keep, ok1)" by (cases "absorb c fs")
  obtain fs2 ok2 where b: "factor_pass keep = (fs2, ok2)" by (cases "factor_pass keep")
  from "2.prems" a b have eq: "fs' = d # fs2" "ok = (ok1 \<and> ok2)" by auto
  from absorb_facts [OF a] "2.prems"(2) have A: "factor_ok d" "set keep \<subseteq> set fs"
    "set (ie_exprs d) \<union> exprs_of keep = set (ie_exprs c) \<union> exprs_of fs"
    "ok1 \<longrightarrow> within d c \<and> (\<forall>k\<in>set keep. apart c k)" by simp_all
  have "list_all factor_ok keep" using A(2) "2.prems"(2) by (auto simp: list_all_iff)
  from "2.IH" [OF a [symmetric] refl b this] have B: "list_all factor_ok fs2" "exprs_of fs2 = exprs_of keep"
    "ok2 \<longrightarrow> sorted_wrt apart fs2 \<and> (\<forall>d\<in>set fs2. \<exists>f\<in>set keep. within d f)" by simp_all
  have "apart d x" if "ok1 \<and> ok2" "x \<in> set fs2" for x
    using that A(4) B(3) apart_within by blast
  moreover have "\<forall>x\<in>set fs2. \<exists>f\<in>set fs. within x f" if ok2 using that A(2) B(3) by blast
  ultimately show ?case unfolding eq using A B by auto
qed

lemma factor_loop_facts:
  "list_all factor_ok fs \<Longrightarrow>
     list_all factor_ok (factor_loop fs) \<and> exprs_of (factor_loop fs) = exprs_of fs \<and> sorted_wrt apart (factor_loop fs)"
proof (induction fs rule: factor_loop.induct)
  case (1 fs)
  obtain fs' ok where p: "factor_pass fs = (fs', ok)" by (cases "factor_pass fs")
  from factor_pass_facts [OF p "1.prems"] "1.IH" [OF p [symmetric]] p show ?case
    by (cases ok) (simp_all add: factor_loop.simps [of fs])
qed

subsection \<open>Independent parts of a query\<close>

text \<open>An environment that follows \<open>\<rho>\<close> on the cells of an element set and \<open>\<rho>0\<close> on all others.\<close>

definition combine :: "element_set \<Rightarrow> env \<Rightarrow> env \<Rightarrow> env" where
  "combine ies \<rho> \<rho>0 a i = (if isSymbolicArray a \<and> \<not> covered ies a i then \<rho>0 a i else \<rho> a i)"

lemma combine_inside: "depends_on ies e \<Longrightarrow> same_reads \<rho> (combine ies \<rho> \<rho>0) e"
  by (erule depends_same_reads) (auto simp: combine_def cell_def)

lemma combine_outside: "depends_on b e \<Longrightarrow> in_bounds \<rho>0 e \<Longrightarrow> apart b ies \<Longrightarrow> same_reads \<rho>0 (combine ies \<rho> \<rho>0) e"
  by (erule (1) depends_same_reads_bounded) (auto simp: combine_def cell_def apart_def)

lemma checked_same_reads: "same_reads \<rho> \<rho>' e \<Longrightarrow> checked \<rho>' e \<longleftrightarrow> checked \<rho> e"
  using same_reads_checks(1) by (auto simp: checked_def)

text \<open>Part of the constraints of a query, when the others depend on other cells.\<close>

definition separate :: "query \<Rightarrow> element_set \<Rightarrow> expr list \<Rightarrow> bool" where
  "separate q ies part \<longleftrightarrow> (\<forall>c\<in>set (constraints q). c \<in> set part \<and> depends_on ies c \<or> (\<exists>b. depends_on b c \<and> apart b ies))"

lemma separate_sat:
  assumes "wf_query q" "separate q ies part" "sat \<rho>0 (constraints q)" "sat \<rho> part"
  shows "sat (combine ies \<rho> \<rho>0) (constraints q)"
  unfolding sat_all
proof
  fix c assume c: "c \<in> set (constraints q)"
  have b: "in_bounds \<rho>0 c" using assms(1,3) c by (auto simp: wf_query_def checked_def)
  from assms(2) c consider "c \<in> set part" "depends_on ies c" | b where "depends_on b c" "apart b ies"
    unfolding separate_def by blast
  then show "eval (combine ies \<rho> \<rho>0) c = 1"
  proof cases
    case 1
    then show ?thesis using same_reads_eval(1) [OF combine_inside [OF 1(2)]] assms(4) by (simp add: sat_all)
  next
    case 2
    then show ?thesis using same_reads_eval(1) [OF combine_outside [OF 2(1) b 2(2)]] assms(3) c by (simp add: sat_all)
  qed
qed

text \<open>Where the part holds, an expression over its cells is checked and has a value it can have under all constraints.\<close>

lemma separate_part:
  assumes "wf_query q" "separate q ies part" "sat \<rho>0 (constraints q)" "sat \<rho> part" "depends_on ies e"
  shows "\<exists>\<rho>'. sat \<rho>' (constraints q) \<and> eval \<rho>' e = eval \<rho> e \<and> (checked \<rho>' e \<longleftrightarrow> checked \<rho> e)"
  using separate_sat [OF assms(1-4)] same_reads_eval(1) [OF combine_inside [OF assms(5)]]
    checked_same_reads [OF combine_inside [OF assms(5)]] by blast

lemma element_set_depends: "wf_expr e \<Longrightarrow> within (IndependentElementSet e) f \<Longrightarrow> depends_on f e"
  using element_set_covers(1) [of e] by (auto simp: wf_expr_def within_def intro: depends_on_mono)

lemma required_separate:
  assumes "wf_query q"
  obtains ies where "separate q ies (constraints (required_query q))" "set (constraints (required_query q)) \<subseteq> set (constraints q)"
    "depends_on ies (qexpr q)" "\<forall>c\<in>set (constraints (required_query q)). depends_on ies c"
proof -
  obtain ies result where g: "getIndependentConstraints q = (ies, result)" by (cases "getIndependentConstraints q")
  let ?ws = "map (\<lambda>c. (c, IndependentElementSet c)) (constraints q)"
  from closure_loop_facts [OF g [unfolded getIndependentConstraints_def]] obtain taken left where
    start: "within (IndependentElementSet (qexpr q)) ies" and split: "set ?ws = taken \<union> left" and
    res: "set result = fst ` taken" and
    ins: "\<forall>it\<in>taken. within (snd it) ies" and out: "\<forall>it\<in>left. apart (snd it) ies" by blast
  have wf: "wf_expr (qexpr q)" "\<And>c. c \<in> set (constraints q) \<Longrightarrow> wf_expr c" using assms by (auto simp: wf_query_def)
  have pair: "snd it = IndependentElementSet (fst it) \<and> fst it \<in> set (constraints q)" if "it \<in> taken \<union> left" for it
    using that unfolding split [symmetric] by auto
  have R: "set (constraints (required_query q)) = fst ` taken" by (simp add: required_query_def g res)
  have t: "depends_on ies (fst it)" if "it \<in> taken" for it
    using that pair ins wf(2) by (metis UnI1 element_set_depends)
  have "c \<in> fst ` taken \<and> depends_on ies c \<or> (\<exists>b. depends_on b c \<and> apart b ies)" if c: "c \<in> set (constraints q)" for c
  proof -
    have "(c, IndependentElementSet c) \<in> taken \<union> left" using c unfolding split [symmetric] by auto
    then show ?thesis using t out element_set_depends [OF wf(2) [OF c] within_refl] by force
  qed
  then have "separate q ies (constraints (required_query q))" by (simp add: separate_def R)
  moreover have "set (constraints (required_query q)) \<subseteq> set (constraints q)" using pair by (auto simp: R)
  ultimately show ?thesis
    using that start wf(1) element_set_depends t by (auto simp: R)
qed

lemma required_values:
  assumes "value_query q"
  shows "(\<exists>\<rho>. sat \<rho> (constraints (required_query q)) \<and> eval \<rho> (qexpr q) = v) \<longleftrightarrow> (\<exists>\<rho>. sat \<rho> (constraints q) \<and> eval \<rho> (qexpr q) = v)"
    and "value_query (required_query q)"
proof -
  have wf: "wf_query q" using assms by (simp add: value_query_def)
  obtain \<rho>0 where \<rho>0: "sat \<rho>0 (constraints q)" using assms by (auto simp: value_query_def consistent_def)
  obtain ies where sep: "separate q ies (constraints (required_query q))"
    and sub: "set (constraints (required_query q)) \<subseteq> set (constraints q)"
    and dep: "depends_on ies (qexpr q)" "\<forall>c\<in>set (constraints (required_query q)). depends_on ies c"
    using required_separate [OF wf] by blast
  have le: "sat \<rho> (constraints q) \<Longrightarrow> sat \<rho> (constraints (required_query q))" for \<rho> using sub by (auto simp: sat_all)
  note part = separate_part [OF wf sep \<rho>0]
  show "(\<exists>\<rho>. sat \<rho> (constraints (required_query q)) \<and> eval \<rho> (qexpr q) = v) \<longleftrightarrow> (\<exists>\<rho>. sat \<rho> (constraints q) \<and> eval \<rho> (qexpr q) = v)"
    using part [OF _ dep(1)] le by metis
  have "checked \<rho> e" if "sat \<rho> (constraints (required_query q))" "e = qexpr q \<or> e \<in> set (constraints (required_query q))" for \<rho> e
    using part [OF that(1), of e] dep that(2) wf sub unfolding wf_query_def by blast
  then show "value_query (required_query q)"
    using wf sub le [OF \<rho>0] by (auto simp: value_query_def wf_query_def consistent_def) (simp_all add: required_query_def)
qed

lemma required_query_facts:
  assumes "truth_query q"
  shows "truth_query (required_query q)" "valid (required_query q) = valid q" "validity_of (required_query q) = validity_of q"
proof -
  have vq: "value_query q" using assms by (simp add: truth_query_def)
  note r = required_values [OF vq]
  show "truth_query (required_query q)" using r(2) assms by (simp add: truth_query_def) (simp add: required_query_def)
  have e: "qexpr (required_query q) = qexpr q" by (simp add: required_query_def)
  have "valid p \<longleftrightarrow> \<not> (\<exists>\<rho>. sat \<rho> (constraints p) \<and> eval \<rho> (qexpr p) = 0)"
    "valid_not p \<longleftrightarrow> \<not> (\<exists>\<rho>. sat \<rho> (constraints p) \<and> eval \<rho> (qexpr p) = 1)" if "truth_query p" for p
    using truth_queryD(5) [OF that] unfolding valid_def valid_not_def by (metis zero_neq_one)+
  note iff = this [OF assms] this [OF \<open>truth_query (required_query q)\<close>]
  show "valid (required_query q) = valid q" "validity_of (required_query q) = validity_of q"
    unfolding validity_of_def iff e r(1) by simp_all
qed

subsection \<open>The partition of a query\<close>

definition partition :: "query \<Rightarrow> element_set list \<Rightarrow> bool" where
  "partition q fs \<longleftrightarrow> list_all factor_ok fs \<and> sorted_wrt apart fs \<and> set (constraints q) \<subseteq> exprs_of fs \<and>
     exprs_of fs \<subseteq> insert (createIsZero (qexpr q)) (set (constraints q))"

lemma apart_sym: "apart a b \<Longrightarrow> apart b a"
  by (auto simp: apart_def)

lemma sorted_wrt_pairs: "sorted_wrt apart fs \<Longrightarrow> f \<in> set fs \<Longrightarrow> g \<in> set fs \<Longrightarrow> f = g \<or> apart f g"
  by (induction fs) (auto dest: apart_sym)

lemma partition_of:
  assumes "bool_query q" "getAllIndependentConstraintsSets q = Some fs"
  shows "partition q fs"
    "exprs_of fs = (if isConst (qexpr q) then set (constraints q) else insert (createIsZero (qexpr q)) (set (constraints q)))"
    "qexpr q = ConstantExpr c \<Longrightarrow> isFalse c"
proof -
  have "wf_expr c" if "c = createIsZero (qexpr q) \<or> c \<in> set (constraints q)" for c
    using that bool_query_negate [OF assms(1)] assms(1) by (auto simp: bool_query_def wf_query_def)
  then have ok: "list_all factor_ok (map IndependentElementSet cs)"
    if "set cs \<subseteq> insert (createIsZero (qexpr q)) (set (constraints q))" for cs
    using that by (auto simp: list_all_iff wf_expr_def intro!: element_set_ok)
  have es: "exprs_of (map IndependentElementSet cs) = set cs"
    if "set cs \<subseteq> insert (createIsZero (qexpr q)) (set (constraints q))" for cs
    using that \<open>\<And>c. _ \<Longrightarrow> wf_expr c\<close> element_set_covers(2) by (auto simp: exprs_of_def wf_expr_def subset_iff)
  define cs where "cs = (if isConst (qexpr q) then constraints q else createIsZero (qexpr q) # constraints q)"
  have cs: "fs = factor_loop (map IndependentElementSet cs)"
    using assms(2) by (cases "qexpr q") (auto simp: getAllIndependentConstraintsSets_def cs_def split: if_splits)
  have sub: "set cs \<subseteq> insert (createIsZero (qexpr q)) (set (constraints q))" "set (constraints q) \<subseteq> set cs"
    by (auto simp: cs_def)
  from factor_loop_facts [OF ok [OF sub(1)]] es [OF sub(1)] cs sub
  show "partition q fs"
    "exprs_of fs = (if isConst (qexpr q) then set (constraints q) else insert (createIsZero (qexpr q)) (set (constraints q)))"
    unfolding partition_def by (auto simp: cs_def)
  show "qexpr q = ConstantExpr c \<Longrightarrow> isFalse c"
    using assms(2) by (auto simp: getAllIndependentConstraintsSets_def split: if_splits)
qed

lemma factor_depends: "factor_ok f \<Longrightarrow> e \<in> set (ie_exprs f) \<Longrightarrow> wf_expr e \<Longrightarrow> depends_on f e"
  using element_set_depends by (auto simp: factor_ok_def)

lemma partition_wf:
  assumes "bool_query q" "partition q fs" "f \<in> set fs" "e \<in> set (ie_exprs f)"
  shows "wf_expr e" "getWidth e = Bool" "depends_on f e"
proof -
  have e: "e = createIsZero (qexpr q) \<or> e \<in> set (constraints q)"
    using assms(2-4) by (auto simp: partition_def exprs_of_def)
  then show w: "wf_expr e" "getWidth e = Bool"
    using bool_query_negate [OF assms(1)] assms(1) by (auto simp: bool_query_def wf_query_def)
  show "depends_on f e" using w(1) assms(2-4) by (auto simp: partition_def list_all_iff intro: factor_depends)
qed

lemma factor_part:
  assumes "truth_query q" "partition q fs" "f \<in> set fs" "sat \<rho> (ie_exprs f)" "e \<in> set (ie_exprs f)"
  shows "checked \<rho> e"
proof -
  have bq: "bool_query q" using assms(1) by (rule truth_bool)
  have wf: "wf_query q" using bq by (simp add: bool_query_def)
  obtain \<rho>0 where \<rho>0: "sat \<rho>0 (constraints q)" using assms(1) by (auto simp: truth_query_bool consistent_def)
  note wfe = partition_wf [OF bq assms(2)]
  have "separate q f (ie_exprs f)"
    unfolding separate_def
  proof
    fix c assume c: "c \<in> set (constraints q)"
    then obtain g where g: "g \<in> set fs" "c \<in> set (ie_exprs g)" using assms(2) by (auto simp: partition_def exprs_of_def)
    then have "g = f \<or> apart g f" using assms(2,3) sorted_wrt_pairs by (auto simp: partition_def)
    then show "c \<in> set (ie_exprs f) \<and> depends_on f c \<or> (\<exists>b. depends_on b c \<and> apart b f)"
      using g wfe(3) [OF g] by blast
  qed
  from separate_part [OF wf this \<rho>0 assms(4) wfe(3) [OF assms(3,5)]]
  obtain \<rho>' where \<rho>': "sat \<rho>' (constraints q)" "checked \<rho>' e \<longleftrightarrow> checked \<rho> e" by blast
  have "e = createIsZero (qexpr q) \<or> e \<in> set (constraints q)"
    using assms(2,3,5) by (auto simp: partition_def exprs_of_def)
  then have "checked \<rho>' e"
    using \<rho>'(1) wf bool_query_negate [OF bq] by (auto simp: bool_query_def wf_query_def)
  with \<rho>'(2) show ?thesis by simp
qed

lemma factor_bool_query:
  assumes "truth_query q" "partition q fs" "f \<in> set fs"
  shows "bool_query (factor_query f)"
proof -
  have "checked \<rho> (ConstantExpr (mkAPInt Bool 0))" for \<rho> by (simp add: checked_def in_bounds_nodes)
  moreover have "wf_expr (ConstantExpr (mkAPInt Bool 0))" by (simp add: wf_expr_def leaf_sub apint_ok_def mkAPInt_def)
  ultimately show ?thesis
    using partition_wf [OF truth_bool [OF assms(1)] assms(2,3)] factor_part [OF assms]
    unfolding bool_query_def wf_query_def factor_query_def by simp
qed

subsection \<open>Answers for the factors\<close>

definition ret_ok :: "ret_map \<Rightarrow> bool" where
  "ret_ok ret \<longleftrightarrow> (\<forall>a bytes. ret a = Some bytes \<longrightarrow> length bytes = arr_size a)"

definition merged :: "element_set \<Rightarrow> (array \<rightharpoonup> 8 word list) \<Rightarrow> ret_map \<Rightarrow> ret_map" where
  "merged f ans ret a = (case ans a of None \<Rightarrow> ret a | Some vs \<Rightarrow> (case ret a of None \<Rightarrow> Some vs | Some old \<Rightarrow>
     Some (map (\<lambda>i. if i \<in> elements_of (elements f) a then vs ! i else old ! i) [0..<length old])))"

lemma merge_answers_merged:
  assumes "distinct (map fst ans)" "\<forall>(a, vs)\<in>set ans. length vs = arr_size a \<and> elements_of (elements f) a \<subseteq> {..<arr_size a}" "ret_ok ret"
  shows "merge_answers f ans ret = Some (merged f (map_of ans) ret)"
  using assms
proof (induction ans arbitrary: ret)
  case Nil
  show ?case by (simp add: merged_def fun_eq_iff)
next
  case (Cons x ans)
  obtain a vs where x: "x = (a, vs)" by (cases x)
  define ret' where "ret' = merged f [a \<mapsto> vs] ret"
  have "merge_array f x ret = Some ret'"
    using Cons.prems(2,3) by (cases "ret a") (auto simp: x merge_array_def Let_def ret'_def merged_def ret_ok_def fun_eq_iff)
  moreover have "ret_ok ret'"
    using Cons.prems(2,3) by (auto simp: x ret'_def merged_def ret_ok_def split: if_splits option.splits)
  moreover have "merged f (map_of ans) ret' = merged f (map_of (x # ans)) ret"
  proof
    fix b
    have "map_of ans a = None" using Cons.prems(1) by (simp add: x map_of_eq_None_iff)
    then show "merged f (map_of ans) ret' b = merged f (map_of (x # ans)) ret b"
      by (cases "b = a") (auto simp: x ret'_def merged_def split: option.split)
  qed
  ultimately show ?case using Cons.IH [of ret'] Cons.prems by (simp add: x fun_upd_def)
qed

text \<open>A factor is solved by a map when some environment that makes it true has the bytes of the map on its cells.\<close>

definition solved :: "ret_map \<Rightarrow> element_set \<Rightarrow> bool" where
  "solved ret f \<longleftrightarrow> (\<exists>\<rho>. sat \<rho> (ie_exprs f) \<and> (\<forall>a i. covered f a i \<and> i < arr_size a \<longrightarrow>
     (\<exists>bytes. ret a = Some bytes \<and> cell \<rho> a i = take_bit (arr_range a) (uint (bytes ! i)))))"

definition only_known :: "ret_map \<Rightarrow> element_set list \<Rightarrow> bool" where
  "only_known ret fs \<longleftrightarrow> (\<forall>a. ret a \<noteq> None \<longrightarrow> (\<exists>f\<in>set fs. \<exists>i. covered f a i))"

lemma mentions_covered: "factor_ok f \<Longrightarrow> mentions f a \<Longrightarrow> \<exists>i. covered f a i"
proof -
  assume "factor_ok f" "mentions f a"
  then have "a \<in> set (wholeObjects f) \<or> (\<exists>s. map_of (elements f) a = Some s \<and> s \<noteq> {})"
    unfolding factor_ok_def sourced_def mentions_def by (metis not_None_eq)
  then show ?thesis by (auto simp: covered_def elements_of_def)
qed

lemma covered_mentions: "covered f a i \<Longrightarrow> mentions f a"
  by (auto simp: covered_def mentions_def elements_of_def split: option.splits)

lemma references_set: "set (calculateArrayReferences f) = {a. mentions f a}" "distinct (calculateArrayReferences f)"
  by (auto simp: calculateArrayReferences_def mentions_def map_of_eq_None_iff)

lemma reach_all_sub_converse: "all_sub P e \<Longrightarrow> x \<in> reach True e \<Longrightarrow> all_sub P x"
proof -
  assume "all_sub P e" "x \<in> reach True e"
  from this(2) show "all_sub P x"
    by induction (use \<open>all_sub P e\<close> all_sub_inner in \<open>auto simp: next_of_def\<close>)
qed

lemma factor_arrays:
  assumes "truth_query q" "partition q fs" "f \<in> set fs"
  shows "list_all byte_object (calculateArrayReferences f)"
    and "sat \<rho> (ie_exprs f) \<Longrightarrow> elements_of (elements f) a \<subseteq> {..<arr_size a}"
proof -
  have src: "sourced (reads_of (ie_exprs f)) f" using assms(2,3) by (auto simp: partition_def list_all_iff factor_ok_def)
  note wfe = partition_wf [OF truth_bool [OF assms(1)] assms(2,3)]
  have "byte_object a" if "mentions f a" for a
  proof -
    from src that obtain us i e where e: "e \<in> set (ie_exprs f)" "ReadExpr a us i \<in> reach True e"
      unfolding sourced_def reads_of_def by blast
    from reach_all_sub_converse [OF _ e(2), THEN all_sub_self] wfe(1) [OF e(1)]
    show ?thesis unfolding wf_expr_def byte_reads_def byte_object_def by fastforce
  qed
  then show "list_all byte_object (calculateArrayReferences f)" by (simp add: list_all_iff references_set)
  assume sat: "sat \<rho> (ie_exprs f)"
  show "elements_of (elements f) a \<subseteq> {..<arr_size a}"
  proof
    fix j assume "j \<in> elements_of (elements f) a"
    then obtain us c e where e: "e \<in> set (ie_exprs f)" "ReadExpr a us (ConstantExpr c) \<in> reach True e"
      and j: "j = nat (take_bit 32 (uval c))" using src unfolding sourced_def reads_of_def by blast
    from reach_all_sub_converse [OF _ e(2), THEN all_sub_self] factor_part [OF assms sat e(1)]
    have "nat (uval c) < arr_size a" unfolding checked_def in_bounds_def by fastforce
    moreover have "0 \<le> uval c" 
      using reach_wt [OF e(2)] wfe(1) [OF e(1)] apint_okD(2) [of c] by (auto simp: wf_expr_def)
    then have "take_bit 32 (uval c) \<le> uval c" by (simp add: take_bit_int_less_eq_self_iff)
    ultimately show "j \<in> {..<arr_size a}" using j by simp
  qed
qed

text \<open>Merging the answers of a factor solves it and keeps the factors solved before.\<close>

lemma merged_solved:
  assumes f: "factor_ok f" and known: "only_known ret fs" "\<forall>g\<in>set fs. solved ret g \<and> apart g f" and ret: "ret_ok ret"
    and vals: "length vs = length (calculateArrayReferences f)"
      "\<forall>i<length vs. length (vs ! i) = arr_size (calculateArrayReferences f ! i)"
    and \<rho>: "sat \<rho> (ie_exprs f)" "\<forall>i<length vs. \<forall>j<arr_size (calculateArrayReferences f ! i).
      cell \<rho> (calculateArrayReferences f ! i) j = take_bit (arr_range (calculateArrayReferences f ! i)) (uint (vs ! i ! j))"
    and bound: "\<And>a. elements_of (elements f) a \<subseteq> {..<arr_size a}"
  shows "\<exists>ret'. merge_answers f (zip (calculateArrayReferences f) vs) ret = Some ret' \<and> ret_ok ret' \<and>
    only_known ret' (f # fs) \<and> (\<forall>g\<in>set (f # fs). solved ret' g)"
proof -
  let ?refs = "calculateArrayReferences f" and ?ds = "\<lambda>a. elements_of (elements f) a"
  define ans where "ans = map_of (zip ?refs vs)"
  let ?ret = "merged f ans ret"
  have len: "length ?refs = length vs" using vals(1) by simp
  have ans: "length v = arr_size a \<and> (\<forall>j<arr_size a. cell \<rho> a j = take_bit (arr_range a) (uint (v ! j)))" if "ans a = Some v" for a v
  proof -
    from map_of_SomeD [OF that [unfolded ans_def]] obtain i where "i < length vs" "a = ?refs ! i" "v = vs ! i"
      using len by (auto simp: set_zip)
    then show ?thesis using vals(2) \<rho>(2) by blast
  qed
  have dom: "ans a \<noteq> None \<longleftrightarrow> mentions f a" for a
  proof -
    have "fst ` set (zip ?refs vs) = set ?refs" using map_fst_zip [OF len] by (metis set_map)
    then show ?thesis by (simp add: ans_def map_of_eq_None_iff references_set(1))
  qed
  have "merge_answers f (zip ?refs vs) ret = Some ?ret"
    unfolding ans_def
    by (rule merge_answers_merged) (use len references_set(2) [of f] vals(2) bound ret in \<open>auto simp: set_zip\<close>)
  moreover have "ret_ok ?ret"
    using ans ret by (auto simp: ret_ok_def merged_def split: option.splits)
  moreover have "only_known ?ret (f # fs)"
  proof -
    have "ret a \<noteq> None \<or> mentions f a" if "?ret a \<noteq> None" for a
      using that dom [of a] by (auto simp: merged_def split: option.splits)
    then show ?thesis using known(1) mentions_covered [OF f] unfolding only_known_def by fastforce
  qed
  moreover have "solved ?ret f"
    unfolding solved_def
  proof (intro exI [of _ \<rho>] conjI allI impI)
    fix a i assume c: "covered f a i \<and> i < arr_size a"
    then obtain v where v: "ans a = Some v" using dom covered_mentions by blast
    show "\<exists>bytes. ?ret a = Some bytes \<and> cell \<rho> a i = take_bit (arr_range a) (uint (bytes ! i))"
    proof (cases "ret a")
      case None
      then show ?thesis using v ans [OF v] c by (simp add: merged_def)
    next
      case (Some old)
      then obtain g j where g: "g \<in> set fs" "covered g a j" using known(1) by (auto simp: only_known_def)
      then have "a \<notin> set (wholeObjects f)" using known(2) by (auto simp: apart_def covered_def)
      then have "i \<in> ?ds a" using c by (simp add: covered_def)
      then show ?thesis using v ans [OF v] c Some ret by (simp add: merged_def ret_ok_def)
    qed
  qed (rule \<rho>(1))
  moreover have "solved ?ret g" if g: "g \<in> set fs" for g
  proof -
    obtain \<rho>g where rg: "sat \<rho>g (ie_exprs g)" "\<And>a i. covered g a i \<Longrightarrow> i < arr_size a \<Longrightarrow>
      \<exists>bytes. ret a = Some bytes \<and> cell \<rho>g a i = take_bit (arr_range a) (uint (bytes ! i))"
      using known(2) g unfolding solved_def by blast
    have "\<exists>bytes. ?ret a = Some bytes \<and> cell \<rho>g a i = take_bit (arr_range a) (uint (bytes ! i))"
      if c: "covered g a i" "i < arr_size a" for a i
    proof -
      obtain bytes where b: "ret a = Some bytes" "cell \<rho>g a i = take_bit (arr_range a) (uint (bytes ! i))" using rg(2) [OF c] by blast
      have "i \<notin> ?ds a" using known(2) g c(1) by (auto simp: apart_def covered_def)
      with b c(2) ret show ?thesis by (auto simp: merged_def ret_ok_def split: option.split)
    qed
    with rg(1) show ?thesis unfolding solved_def by blast
  qed
  ultimately show ?thesis by auto
qed

lemma solve_factors_sound:
  assumes impl: "solver_contract impl Inv fails bool_query" and q: "truth_query q" "partition q all"
    and decided: "\<And>f. f \<in> set all \<Longrightarrow> createIsZero (qexpr q) \<in> set (ie_exprs f) \<Longrightarrow>
      \<not> set (ie_exprs f) \<subseteq> set (constraints q) \<Longrightarrow> calculateArrayReferences f \<noteq> []"
  shows "set fs \<union> set old \<subseteq> set all \<Longrightarrow> sorted_wrt apart (old @ fs) \<Longrightarrow> ret_ok ret \<Longrightarrow> only_known ret old \<Longrightarrow>
    (\<forall>g\<in>set old. solved ret g) \<Longrightarrow>
    sound_call fails Inv (\<lambda>r. case r of None \<Rightarrow> \<exists>f\<in>set all. \<forall>\<rho>. \<not> sat \<rho> (ie_exprs f)
      | Some ret' \<Rightarrow> ret_ok ret' \<and> (\<forall>g\<in>set old \<union> set fs. solved ret' g)) (solve_factors impl fs ret)"
proof (induction fs arbitrary: old ret)
  case Nil
  then show ?case by auto
next
  case (Cons f fs)
  let ?refs = "calculateArrayReferences f"
  have f: "f \<in> set all" "factor_ok f" using Cons.prems(1) q(2) by (auto simp: partition_def list_all_iff)
  have ap: "\<forall>g\<in>set old. apart g f" using Cons.prems(2) by (auto simp: sorted_wrt_append)
  have next_call: "sound_call fails Inv (\<lambda>r. case r of None \<Rightarrow> \<exists>f\<in>set all. \<forall>\<rho>. \<not> sat \<rho> (ie_exprs f)
      | Some ret' \<Rightarrow> ret_ok ret' \<and> (\<forall>g\<in>set old \<union> set (f # fs). solved ret' g)) (solve_factors impl fs ret')"
    if "ret_ok ret'" "only_known ret' (f # old)" "\<forall>g\<in>set (f # old). solved ret' g" for ret'
  proof -
    have "only_known ret' (old @ [f])" using that(2) by (auto simp: only_known_def)
    from Cons.IH [of "old @ [f]" ret', OF _ _ that(1) this] Cons.prems(1,2) that(3) show ?thesis
      by (auto elim!: sound_weaken split: option.splits)
  qed
  show ?case
  proof (cases "?refs = []")
    case True
    obtain \<rho>0 where \<rho>0: "sat \<rho>0 (constraints q)" using q(1) by (auto simp: truth_query_bool consistent_def)
    have "set (ie_exprs f) \<subseteq> insert (createIsZero (qexpr q)) (set (constraints q))"
      using q(2) f(1) by (auto simp: partition_def exprs_of_def)
    then have "set (ie_exprs f) \<subseteq> set (constraints q)" using decided [OF f(1)] True by blast
    then have "sat \<rho>0 (ie_exprs f)" using \<rho>0 by (auto simp: sat_all)
    moreover have "\<not> covered f a i" for a i
      using True covered_mentions [of f a i] references_set(1) [of f] by auto
    ultimately have "solved ret f" by (auto simp: solved_def)
    moreover have "only_known ret (f # old)" using Cons.prems(4) by (auto simp: only_known_def)
    moreover have "solve_factors impl (f # fs) ret = solve_factors impl fs ret" using True f(2) by (simp add: factor_ok_def)
    ultimately show ?thesis using next_call [of ret] Cons.prems(3,5) by (metis set_ConsD)
  next
    case False
    have call: "sound_call fails Inv (\<lambda>r. case r of None \<Rightarrow> valid (factor_query f) | Some vs \<Rightarrow> is_solution (factor_query f) ?refs vs)
        (computeInitialValues impl (factor_query f) ?refs)"
      using factor_bool_query [OF q f(1)] factor_arrays(1) [OF q f(1)] by (rule solver_contract.initial_values [OF impl])
    have "sound_call fails Inv (\<lambda>r. case r of None \<Rightarrow> \<exists>f\<in>set all. \<forall>\<rho>. \<not> sat \<rho> (ie_exprs f)
      | Some ret' \<Rightarrow> ret_ok ret' \<and> (\<forall>g\<in>set old \<union> set (f # fs). solved ret' g))
      (case r of None \<Rightarrow> return None
        | Some tempValues \<Rightarrow>
            if length tempValues \<noteq> length ?refs then aborted
            else (case merge_answers f (zip ?refs tempValues) ret of
                    None \<Rightarrow> aborted
                  | Some retMap' \<Rightarrow> solve_factors impl fs retMap'))"
      if r: "case r of None \<Rightarrow> valid (factor_query f) | Some vs \<Rightarrow> is_solution (factor_query f) ?refs vs" for r
    proof (cases r)
      case None
      then have "\<forall>\<rho>. \<not> sat \<rho> (ie_exprs f)" using r by (auto simp: valid_def factor_query_def mkAPInt_def)
      then show ?thesis using f(1) unfolding None option.case by (intro sound_return) auto
    next
      case (Some vs)
      with r obtain \<rho> where sol: "length vs = length ?refs" "\<forall>i<length vs. length (vs ! i) = arr_size (?refs ! i)"
        "sat \<rho> (ie_exprs f)" "\<forall>i<length vs. \<forall>j<arr_size (?refs ! i). cell \<rho> (?refs ! i) j = take_bit (arr_range (?refs ! i)) (uint (vs ! i ! j))"
        by (auto simp: is_solution_def factor_query_def)
      have old: "\<forall>g\<in>set old. solved ret g \<and> apart g f" using Cons.prems(5) ap by blast
      from merged_solved [OF f(2) Cons.prems(4) old Cons.prems(3) sol(1,2,3,4) factor_arrays(2) [OF q f(1) sol(3)]]
      obtain ret' where "merge_answers f (zip ?refs vs) ret = Some ret'" "ret_ok ret'" "only_known ret' (f # old)"
        "\<forall>g\<in>set (f # old). solved ret' g" by blast
      note m = this
      have "(if length vs \<noteq> length ?refs then aborted
          else (case merge_answers f (zip ?refs vs) ret of None \<Rightarrow> aborted | Some retMap' \<Rightarrow> solve_factors impl fs retMap'))
        = solve_factors impl fs ret'" using sol(1) m(1) by simp
      then show ?thesis unfolding Some option.case using next_call [OF m(2-4)] by simp
    qed
    note rest = this
    have "ie_exprs f \<noteq> []" using f(2) by (simp add: factor_ok_def)
    then show ?thesis
      unfolding solve_factors.simps(2) Let_def if_not_P [OF False] if_not_P [OF \<open>ie_exprs f \<noteq> []\<close>]
      using rest by (intro sound_and_then [OF call])
  qed
qed

subsection \<open>The point created\<close>

definition env_ret :: "ret_map \<Rightarrow> env" where
  "env_ret ret a i = (case ret a of None \<Rightarrow> 0 | Some bytes \<Rightarrow> if i < length bytes then uint (bytes ! i) else 0)"

lemma solved_env:
  assumes "truth_query q" "partition q fs" "f \<in> set fs" "e \<in> set (ie_exprs f)" "ret_ok ret" "solved ret f"
  shows "eval (env_ret ret) e = 1" "checked (env_ret ret) e"
    "all_sub (\<lambda>x. case asRead x of Some (a, us, i) \<Rightarrow> isSymbolicArray a \<longrightarrow>
       (\<exists>bytes. ret a = Some bytes \<and> nat (eval (env_ret ret) i) < length bytes) | None \<Rightarrow> True) e"
proof -
  obtain \<rho> where \<rho>: "sat \<rho> (ie_exprs f)" and cells: "\<And>a i. covered f a i \<Longrightarrow> i < arr_size a \<Longrightarrow>
      \<exists>bytes. ret a = Some bytes \<and> cell \<rho> a i = take_bit (arr_range a) (uint (bytes ! i))"
    using assms(6) unfolding solved_def by blast
  note dep = partition_wf(3) [OF truth_bool [OF assms(1)] assms(2-4)]
  have ch: "checked \<rho> e" using factor_part [OF assms(1-3) \<rho> assms(4)] .
  have "cell \<rho> a i = cell (env_ret ret) a i" if "covered f a i" "i < arr_size a" for a i
    using cells [OF that] that(2) assms(5) by (auto simp: cell_def env_ret_def ret_ok_def)
  then have same: "same_reads \<rho> (env_ret ret) e"
    using dep ch by (intro depends_same_reads_bounded) (auto simp: checked_def)
  show "eval (env_ret ret) e = 1" using same_reads_eval(1) [OF same] \<rho> assms(4) by (simp add: sat_all)
  show ch': "checked (env_ret ret) e" using checked_same_reads [OF same] ch by simp
  have "all_sub (\<lambda>x. (case asRead x of Some (a, us, i) \<Rightarrow> isSymbolicArray a \<longrightarrow> covered f a (nat (eval (env_ret ret) i)) | None \<Rightarrow> True) \<and>
      (case asRead x of Some (a, us, i) \<Rightarrow> nat (eval (env_ret ret) i) < arr_size a | None \<Rightarrow> True)) e"
    using dep ch' unfolding depends_on_def checked_def in_bounds_def by (intro all_sub_conj) blast+
  then show "all_sub (\<lambda>x. case asRead x of Some (a, us, i) \<Rightarrow> isSymbolicArray a \<longrightarrow>
       (\<exists>bytes. ret a = Some bytes \<and> nat (eval (env_ret ret) i) < length bytes) | None \<Rightarrow> True) e"
    by (rule all_sub_mono) (use cells assms(5) in \<open>fastforce simp: ret_ok_def split: option.splits\<close>)
qed

text \<open>The assignment of the assertion is the environment, with every byte bound that is read.\<close>

definition created :: "array list \<Rightarrow> ret_map \<Rightarrow> assignment" where
  "created objects ret = (let assign = Assignment (zip objects (requested ret objects)) True in assign\<lparr>bindings := ret ++ bindings assign\<rparr>)"

lemma created_facts:
  "allowFreeValues (created objects ret)"
  "bindings (created objects ret) a = (case ret a of Some bytes \<Rightarrow> Some bytes
     | None \<Rightarrow> if a \<in> set objects then Some (replicate (arr_size a) 0) else None)"
proof -
  show "allowFreeValues (created objects ret)" by (simp add: created_def Let_def Assignment_def)
  have "map_of (zip objects (map g objects)) a = (if a \<in> set objects then Some (g a) else None)" for g :: "array \<Rightarrow> 8 word list"
    by (induction objects) auto
  then show "bindings (created objects ret) a = (case ret a of Some bytes \<Rightarrow> Some bytes
     | None \<Rightarrow> if a \<in> set objects then Some (replicate (arr_size a) 0) else None)"
    by (simp add: created_def Let_def Assignment_bindings requested_def map_add_def split: option.split)
qed

lemma created_env: "env_of (created objects ret) = env_ret ret"
  by (auto simp: fun_eq_iff env_of_def bound_byte_def env_ret_def created_facts split: option.split)

lemma created_fold:
  assumes "truth_query q" "partition q fs" "\<forall>f\<in>set fs. solved ret f" "ret_ok ret" "e \<in> exprs_of fs"
  shows "evaluate (created objects ret) e = ConstantExpr (mkAPInt Bool 1)" "eval (env_ret ret) e = 1"
proof -
  obtain f where f: "f \<in> set fs" "e \<in> set (ie_exprs f)" using assms(5) by (auto simp: exprs_of_def)
  then have s: "solved ret f" using assms(3) by blast
  note env = solved_env [OF assms(1,2) f assms(4) s]
  note wf = partition_wf [OF truth_bool [OF assms(1)] assms(2) f]
  have "known_cells (env_ret ret) (evaluate_cell (created objects ret)) e"
    unfolding known_cells_def
  proof (rule all_sub_mono [OF all_sub_conj [OF env(3) env(2) [unfolded checked_def in_bounds_def, THEN conjunct2]]])
    fix x assume "(case asRead x of Some (a, us, i) \<Rightarrow> isSymbolicArray a \<longrightarrow>
        (\<exists>bytes. ret a = Some bytes \<and> nat (eval (env_ret ret) i) < length bytes) | None \<Rightarrow> True) \<and>
      (case asRead x of Some (a, us, i) \<Rightarrow> nat (eval (env_ret ret) i) < arr_size a | None \<Rightarrow> True)"
    then show "case asRead x of Some (a, us, i) \<Rightarrow> isConstantArray a \<and> nat (eval (env_ret ret) i) < arr_size a \<or>
        isConst (evaluate_cell (created objects ret) a (nat (eval (env_ret ret) i))) | None \<Rightarrow> True"
      by (auto simp: isConstantArray_def evaluate_cell_bound_byte bound_byte_def created_facts split: option.splits)
  qed
  then have "evaluate (created objects ret) e = ConstantExpr (mkAPInt (getWidth e) (eval (env_ret ret) e))"
    using wf(1) env(2) evaluate_known_value [of e "created objects ret"] by (simp add: created_env wf_expr_def checked_def)
  then show "evaluate (created objects ret) e = ConstantExpr (mkAPInt Bool 1)" "eval (env_ret ret) e = 1"
    using wf(2) env(1) by simp_all
qed

subsection \<open>The independent solver keeps the contract\<close>

text \<open>
  Initial values are asked for consistent queries whose expression is false or is not a constant and depends on some
  cell: a factor that mentions no array is passed over without asking the solver.
\<close>

definition decided_by_reads :: "query \<Rightarrow> bool" where
  "decided_by_reads q \<longleftrightarrow> (case asConst (qexpr q) of
     Some c \<Rightarrow> isFalse c | None \<Rightarrow> \<exists>a i. covered (IndependentElementSet (createIsZero (qexpr q))) a i)"

definition independent_init :: "query \<Rightarrow> bool" where
  "independent_init q \<longleftrightarrow> truth_query q \<and> decided_by_reads q"

lemma independent_initial_values:
  assumes impl: "solver_contract impl Inv fails bool_query" and q: "independent_init q"
  shows "sound_call fails Inv (\<lambda>r. case r of None \<Rightarrow> valid q | Some vs \<Rightarrow> is_solution q objects vs)
    (independent_computeInitialValues impl q objects)"
proof -
  have tq: "truth_query q" and dec: "decided_by_reads q" using q by (auto simp: independent_init_def)
  have bq: "bool_query q" using tq by (rule truth_bool)
  obtain fs where fs: "getAllIndependentConstraintsSets q = Some fs"
    using dec by (auto simp: getAllIndependentConstraintsSets_def decided_by_reads_def split: option.splits)
  note part = partition_of [OF bq fs]
  have refs: "calculateArrayReferences f \<noteq> []"
    if "f \<in> set fs" "createIsZero (qexpr q) \<in> set (ie_exprs f)" "\<not> set (ie_exprs f) \<subseteq> set (constraints q)" for f
  proof -
    have "within (IndependentElementSet (createIsZero (qexpr q))) f"
      using part(1) that(1,2) by (auto simp: partition_def list_all_iff factor_ok_def)
    moreover have "\<not> isConst (qexpr q)"
      using part(2) that(1,3) by (auto simp: exprs_of_def split: if_splits)
    then have "asConst (qexpr q) = None" by (cases "qexpr q") auto
    then obtain a i where "covered (IndependentElementSet (createIsZero (qexpr q))) a i"
      using dec unfolding decided_by_reads_def by (simp only: option.case) blast
    ultimately have "mentions f a" using covered_mentions unfolding within_def by blast
    then show ?thesis using references_set(1) [of f] by auto
  qed
  have solve: "sound_call fails Inv (\<lambda>r. case r of None \<Rightarrow> \<exists>f\<in>set fs. \<forall>\<rho>. \<not> sat \<rho> (ie_exprs f)
      | Some ret \<Rightarrow> ret_ok ret \<and> (\<forall>g\<in>set [] \<union> set fs. solved ret g)) (solve_factors impl fs Map.empty)"
    by (rule solve_factors_sound [OF impl tq part(1) refs])
      (use part(1) in \<open>auto simp: partition_def ret_ok_def only_known_def\<close>)
  have neg: "eval \<rho> (createIsZero (qexpr q)) = 1 \<longleftrightarrow> eval \<rho> (qexpr q) = 0" for \<rho>
    using createIsZero_facts(3) [OF bool_queryD(1) [OF bq], of \<rho>] by auto
  have "valid q" if "f \<in> set fs" "\<forall>\<rho>. \<not> sat \<rho> (ie_exprs f)" for f
  proof -
    have "eval \<rho> (qexpr q) \<noteq> 0" if "sat \<rho> (constraints q)" for \<rho>
    proof
      assume "eval \<rho> (qexpr q) = 0"
      then have "\<forall>e\<in>exprs_of fs. eval \<rho> e = 1" using part(1) neg that by (auto simp: partition_def sat_all)
      then show False using \<open>f \<in> set fs\<close> \<open>\<forall>\<rho>. \<not> sat \<rho> (ie_exprs f)\<close> unfolding exprs_of_def sat_all by blast
    qed
    then show ?thesis unfolding valid_def using bool_queryD(4) [OF bq] by blast
  qed
  moreover have "assertCreatedPointEvaluatesToTrue q objects (requested ret objects) ret \<and> is_solution q objects (requested ret objects)"
    if ret: "ret_ok ret" "\<forall>f\<in>set fs. solved ret f" for ret
  proof -
    note fold = created_fold [OF tq part(1) ret(2,1)]
    have sub: "set (constraints q) \<subseteq> exprs_of fs" using part(1) by (simp add: partition_def)
    have "constraints_hold (created objects ret) (constraints q)"
      by (rule constraints_hold_true) (use sub fold(1) in blast)
    moreover have "evaluate (created objects ret) (createIsZero (qexpr q)) = ConstantExpr (mkAPInt Bool 1) \<and> eval (env_ret ret) (qexpr q) = 0"
    proof (cases "asConst (qexpr q)")
      case None
      then have "createIsZero (qexpr q) \<in> exprs_of fs" unfolding part(2) by (cases "qexpr q") auto
      then show ?thesis using fold neg by blast
    next
      case (Some c)
      then have c: "qexpr q = ConstantExpr c" "isFalse c" using part(3) by auto
      then have z: "c = APInt Bool 0" using bool_queryD(1,2) [OF bq] by (cases c) (auto simp: isFalse_def)
      have "createIsZero (ConstantExpr c) = ConstantExpr (mkAPInt Bool 1)" unfolding z by code_simp
      then show ?thesis by (simp add: c(1) z evaluate_def ExprEvaluator_visit.simps visitActual_def)
    qed
    moreover have "sat (env_ret ret) (constraints q)" using fold(2) sub by (auto simp: sat_all)
    moreover have "length (requested ret objects ! i) = arr_size (objects ! i)" if "i < length objects" for i
      using that ret(1) by (auto simp: requested_def ret_ok_def split: option.split)
    moreover have "cell (env_ret ret) (objects ! i) j = take_bit (arr_range (objects ! i)) (uint (requested ret objects ! i ! j))"
      if "i < length objects" "j < arr_size (objects ! i)" for i j
      using that ret(1) by (auto simp: requested_def ret_ok_def cell_def env_ret_def split: option.split)
    ultimately show ?thesis
      unfolding assertCreatedPointEvaluatesToTrue_def is_solution_def
      by (auto simp: Let_def isTrue_def requested_def simp flip: created_def [unfolded Let_def requested_def])
  qed
  ultimately show ?thesis
    unfolding independent_computeInitialValues_def fs option.case
    by (intro sound_and_then [OF solve]) (auto simp: Let_def split: option.splits)
qed

lemma independent_contract:
  assumes "solver_contract impl Inv fails bool_query"
  shows "solver_contract (IndependentSolver impl) Inv fails independent_init"
proof
  fix q assume q: "truth_query q"
  note facts = required_query_facts [OF q]
  show "sound_call fails Inv (\<lambda>b. b = valid q) (computeTruth (IndependentSolver impl) q)"
    using solver_contract.truth [OF assms facts(1)] by (simp add: IndependentSolver_def facts(2))
  show "sound_call fails Inv (\<lambda>v. v = validity_of q) (computeValidity (IndependentSolver impl) q)"
    using solver_contract.validity [OF assms facts(1)] by (simp add: IndependentSolver_def facts(3))
next
  fix q assume q: "value_query q"
  have "possible_value (required_query q) c = possible_value q c" for c
    using required_values(1) [OF q] by (simp add: possible_value_def) (simp add: required_query_def)
  then show "sound_call fails Inv (\<lambda>e. \<exists>c. e = ConstantExpr c \<and> possible_value q c) (computeValue (IndependentSolver impl) q)"
    using solver_contract.value_of [OF assms required_values(2) [OF q]] by (simp add: IndependentSolver_def)
next
  fix q objects assume "independent_init q" "list_all byte_object objects"
  then show "sound_call fails Inv (\<lambda>r. case r of None \<Rightarrow> valid q | Some values \<Rightarrow> is_solution q objects values)
      (computeInitialValues (IndependentSolver impl) q objects)"
    using independent_initial_values [OF assms] by (simp add: IndependentSolver_def)
qed (auto simp: independent_init_def truth_query_bool)

subsection \<open>Properties\<close>

text \<open>
  C25: Dropping the constraints that share no array element with a query, directly or through other constraints, changes
  no answer: on a consistent well-formed query the remaining constraints are a well-formed query with the same
  validity, and the expression has the same possible values.
\<close>

theorem independent_constraints_suffice:
  assumes "truth_query q"
  shows "set (constraints (required_query q)) \<subseteq> set (constraints q) \<and> truth_query (required_query q) \<and>
    validity_of (required_query q) = validity_of q \<and> possible_value (required_query q) = possible_value q"
proof -
  have vq: "value_query q" using assms by (simp add: truth_query_def)
  then obtain ies where "set (constraints (required_query q)) \<subseteq> set (constraints q)"
    using required_separate [of q] by (auto simp: value_query_def)
  moreover have "possible_value (required_query q) = possible_value q"
    using required_values(1) [OF vq] by (simp add: possible_value_def fun_eq_iff) (simp add: required_query_def)
  ultimately show ?thesis using required_query_facts [OF assms] by blast
qed

theorem independent_constraints_suffice_witness:
  "validity_of (required_query (sample_query (sample_bound 9))) = validity_of (sample_query (sample_bound 9))"
proof -
  have "truth_query (sample_query (sample_bound 9))"
    using sample_query_ok [OF sample_wf(2,5)] sample_wf(3) by (simp add: truth_query_def sample_query_def)
  from independent_constraints_suffice [OF this] show ?thesis by blast
qed

text \<open>
  C26: The loop that merges constraints into factors ends with a partition: no two factors cover a common array element,
  every factor covers what its expressions read, and together they hold the constraints and, unless it is
  constant, the negated query expression.
\<close>

theorem factors_partition:
  assumes "bool_query q" "getAllIndependentConstraintsSets q = Some fs"
  shows "sorted_wrt apart fs \<and> (\<forall>f\<in>set fs. \<forall>e\<in>set (ie_exprs f). depends_on f e) \<and>
    exprs_of fs = (if isConst (qexpr q) then set (constraints q) else insert (createIsZero (qexpr q)) (set (constraints q)))"
proof -
  note part = partition_of [OF assms]
  have "depends_on f e" if "f \<in> set fs" "e \<in> set (ie_exprs f)" for f e
    by (rule partition_wf(3) [OF assms(1) part(1) that])
  then show ?thesis using part(1,2) by (auto simp: partition_def)
qed

theorem factors_partition_witness:
  "\<exists>fs. getAllIndependentConstraintsSets (sample_query (sample_bound 9)) = Some fs \<and> sorted_wrt apart fs \<and>
     exprs_of fs = {createIsZero (sample_bound 9), sample_bound 5}"
proof -
  have q: "bool_query (sample_query (sample_bound 9))"
    using sample_query_ok [OF sample_wf(2,5)] sample_wf(3) by (simp add: bool_query_def value_query_def sample_query_def)
  obtain fs where fs: "getAllIndependentConstraintsSets (sample_query (sample_bound 9)) = Some fs"
    by (simp add: getAllIndependentConstraintsSets_def sample_query_def sample_bound_def)
  from factors_partition [OF q fs] fs show ?thesis by (auto simp: sample_query_def sample_bound_def)
qed

text \<open>
  C27: The independent solver keeps the contract of the solver below: truth, validity and values are right although only
  the connected constraints are passed on, and initial values put together from the factors are a counterexample for the
  whole query, or there is none; the assertion that re-evaluates the point created never fails.
\<close>

theorem independent_solver_sound:
  assumes "solver_contract impl Inv fails bool_query"
  shows "solver_contract (IndependentSolver impl) Inv fails (\<lambda>q. truth_query q \<and> decided_by_reads q)"
  using independent_contract [OF assms] by (simp add: independent_init_def [abs_def])

theorem independent_solver_sound_witness:
  "solver_contract (IndependentSolver reference_solver) (\<lambda>_. True) False (\<lambda>q. truth_query q \<and> decided_by_reads q) \<and>
   truth_query (sample_query (sample_bound 9)) \<and> decided_by_reads (withFalse (sample_query (sample_bound 9)))"
proof -
  have "truth_query (sample_query (sample_bound 9))"
    using sample_query_ok [OF sample_wf(2,5)] sample_wf(3) by (simp add: truth_query_def sample_query_def)
  moreover have "decided_by_reads (withFalse (sample_query (sample_bound 9)))"
    by (simp add: decided_by_reads_def isFalse_def mkAPInt_def)
  ultimately show ?thesis using independent_solver_sound [OF reference.solver_contract_axioms] by blast
qed

end
