(* ===== verification/ValidatingSolver.thy ===== *)
theory ValidatingSolver
  imports Solver
begin

text \<open>
  The two solvers that check another: \<open>klee/lib/Solver/ValidatingSolver.cpp\<close> compares its answers with those of an
  oracle, and \<open>klee/lib/Solver/AssignmentValidatingSolver.cpp\<close> evaluates the query under the initial values it
  returns. A disagreement is a failed assertion or \<open>abort\<close>, the outcome \<open>Aborted\<close>. The state of a validating solver is
  the pair of the states of the two solvers, which do not share one.
\<close>

subsection \<open>The validating solver\<close>

definition on_first :: "('s, 'a) call \<Rightarrow> ('s \<times> 't, 'a) call" where
  "on_first m st = (case m (fst st) of (r, s') \<Rightarrow> (r, s', snd st))"

definition on_second :: "('t, 'a) call \<Rightarrow> ('s \<times> 't, 'a) call" where
  "on_second m st = (case m (snd st) of (r, t') \<Rightarrow> (r, fst st, t'))"

definition validating_computeTruth :: "'s solver_impl \<Rightarrow> 't solver_impl \<Rightarrow> query \<Rightarrow> ('s \<times> 't, bool) call" where
  "validating_computeTruth solver oracle query =
     and_then (on_first (computeTruth solver query)) (\<lambda>isValid.
     and_then (on_second (computeTruth oracle query)) (\<lambda>answer.
       if isValid \<noteq> answer then aborted else return isValid))"

definition validating_computeValidity :: "'s solver_impl \<Rightarrow> 't solver_impl \<Rightarrow> query \<Rightarrow> ('s \<times> 't, Validity) call" where
  "validating_computeValidity solver oracle query =
     and_then (on_first (computeValidity solver query)) (\<lambda>result.
     and_then (on_second (computeValidity oracle query)) (\<lambda>answer.
       if result \<noteq> answer then aborted else return result))"

definition validating_computeValue :: "'s solver_impl \<Rightarrow> 't solver_impl \<Rightarrow> query \<Rightarrow> ('s \<times> 't, expr) call" where
  "validating_computeValue solver oracle query =
     and_then (on_first (computeValue solver query)) (\<lambda>result.
     and_then (on_second (computeTruth oracle (withExpr query (Ne_create (qexpr query) result)))) (\<lambda>answer.
       if answer then aborted else return result))"

text \<open>The bindings as equalities, and the query checked under them.\<close>

definition binding_constraints :: "array \<Rightarrow> 8 word list \<Rightarrow> expr list" where
  "binding_constraints array bytes =
     map (\<lambda>j. Eq_create (Read_create array NullNode (ConstantExpr (mkAPInt (arr_domain array) (int j))))
                (ConstantExpr (mkAPInt (arr_range array) (uint (bytes ! j))))) [0..<arr_size array]"

definition bindings_query :: "query \<Rightarrow> array list \<Rightarrow> 8 word list list \<Rightarrow> query" where
  "bindings_query query objects vals =
     \<lparr>constraints = concat (map2 binding_constraints objects vals),
      qexpr = fold (\<lambda>c e. And_create e c) (constraints query) (createIsZero (qexpr query))\<rparr>"

definition validating_computeInitialValues ::
  "'s solver_impl \<Rightarrow> 't solver_impl \<Rightarrow> query \<Rightarrow> array list \<Rightarrow> ('s \<times> 't, 8 word list list option) call" where
  "validating_computeInitialValues solver oracle query objects =
     and_then (on_first (computeInitialValues solver query objects)) (\<lambda>r.
     and_then (on_second (computeTruth oracle (case r of Some vals \<Rightarrow> bindings_query query objects vals | None \<Rightarrow> query))) (\<lambda>answer.
       if answer then return r else aborted))"

definition ValidatingSolver :: "'s solver_impl \<Rightarrow> 't solver_impl \<Rightarrow> ('s \<times> 't) solver_impl" where
  "ValidatingSolver solver oracle =
     \<lparr>computeTruth = validating_computeTruth solver oracle, computeValidity = validating_computeValidity solver oracle,
      computeValue = validating_computeValue solver oracle,
      computeInitialValues = validating_computeInitialValues solver oracle\<rparr>"

subsection \<open>The assignment validating solver\<close>

definition check_assignment :: "query \<Rightarrow> array list \<Rightarrow> 8 word list list \<Rightarrow> bool" where
  "check_assignment query objects vals =
     (let assignment = Assignment (zip objects vals) True
      in constraints_hold assignment (constraints query) \<and>
         (case asConst (evaluate assignment (qexpr query)) of None \<Rightarrow> False | Some CE \<Rightarrow> \<not> isTrue CE))"

definition avs_computeInitialValues ::
  "'s solver_impl \<Rightarrow> query \<Rightarrow> array list \<Rightarrow> ('s, 8 word list list option) call" where
  "avs_computeInitialValues solver query objects =
     and_then (computeInitialValues solver query objects) (\<lambda>r.
       case r of None \<Rightarrow> return None
       | Some vals \<Rightarrow> if check_assignment query objects vals then return (Some vals) else aborted)"

definition AssignmentValidatingSolver :: "'s solver_impl \<Rightarrow> 's solver_impl" where
  "AssignmentValidatingSolver solver =
     \<lparr>computeTruth = computeTruth solver, computeValidity = computeValidity solver, computeValue = computeValue solver,
      computeInitialValues = avs_computeInitialValues solver\<rparr>"

subsection \<open>Answers that pass the oracle\<close>

lemma validating_truth_right:
  assumes "solver_contract oracle Inv fails init" "truth_query q" "Inv (snd st)"
    and "validating_computeTruth solver oracle q st = (Success b, st')"
  shows "b = valid q"
proof -
  obtain r1 s1 where 1: "computeTruth solver q (fst st) = (r1, s1)" by (cases "computeTruth solver q (fst st)")
  obtain r2 t2 where 2: "computeTruth oracle q (snd st) = (r2, t2)" by (cases "computeTruth oracle q (snd st)")
  have "r2 = Success x \<Longrightarrow> x = valid q" for x
    using sound_callD(2) [OF solver_contract.truth [OF assms(1,2)] assms(3) 2] .
  with assms(4) 1 2 show ?thesis
    by (cases r1; cases r2)
      (auto simp: validating_computeTruth_def and_then_def on_first_def on_second_def aborted_def return_def split: if_splits)
qed

lemma validating_validity_right:
  assumes "solver_contract oracle Inv fails init" "truth_query q" "Inv (snd st)"
    and "validating_computeValidity solver oracle q st = (Success v, st')"
  shows "v = validity_of q"
proof -
  obtain r1 s1 where 1: "computeValidity solver q (fst st) = (r1, s1)" by (cases "computeValidity solver q (fst st)")
  obtain r2 t2 where 2: "computeValidity oracle q (snd st) = (r2, t2)" by (cases "computeValidity oracle q (snd st)")
  have "r2 = Success x \<Longrightarrow> x = validity_of q" for x
    using sound_callD(2) [OF solver_contract.validity [OF assms(1,2)] assms(3) 2] .
  with assms(4) 1 2 show ?thesis
    by (cases r1; cases r2)
      (auto simp: validating_computeValidity_def and_then_def on_first_def on_second_def aborted_def return_def split: if_splits)
qed

lemma Ne_create_sub: "about_leaves P \<Longrightarrow> all_sub P l \<Longrightarrow> all_sub P r \<Longrightarrow> all_sub P (Ne_create l r)"
  by (simp add: Ne_create_def Eq_create_sub about_leaves_nodes)

lemmas Ne_sub = Ne_create_sub [OF narrow_foldable_leaves(1), folded narrow_def]
  Ne_create_sub [OF narrow_foldable_leaves(2), folded foldable_def]
  Ne_create_sub [OF byte_reads_leaves, folded byte_reads_def] Ne_create_sub [OF in_bounds_leaves, folded in_bounds_def]

lemma Ne_query:
  assumes "value_query q" "apint_ok c" "getBitWidth c = getWidth (qexpr q)"
  shows "truth_query (withExpr q (Ne_create (qexpr q) (ConstantExpr c)))"
    "valid (withExpr q (Ne_create (qexpr q) (ConstantExpr c))) \<longleftrightarrow> \<not> possible_value q c"
proof -
  have e: "wf_query q" "wt (qexpr q)" "narrow (qexpr q)" "byte_reads (qexpr q)" "foldable (qexpr q)"
    using assms(1) by (auto simp: value_query_def wf_query_def wf_expr_def)
  have eq: "expr_equiv (Ne_create (qexpr q) (ConstantExpr c)) (BinaryExpr Ne (qexpr q) (ConstantExpr c))"
    using e(2) assms(2,3) by (intro Ne_create_equiv) simp
  show "truth_query (withExpr q (Ne_create (qexpr q) (ConstantExpr c)))"
    using e by (intro truth_query_withExpr [OF assms(1)] bool_query_withExpr [OF _ eq])
      (simp_all add: isCmp_def isDiv_def Ne_sub leaf_sub in_bounds_sub)
  show "valid (withExpr q (Ne_create (qexpr q) (ConstantExpr c))) \<longleftrightarrow> \<not> possible_value q c"
    using eq assms(2,3) by (auto simp: valid_def possible_value_def expr_equiv_def)
qed

lemma validating_value_right:
  assumes "solver_contract oracle Inv fails init" "value_query q" "Inv (snd st)"
    and "validating_computeValue solver oracle q st = (Success (ConstantExpr c), st')"
    and "apint_ok c" "getBitWidth c = getWidth (qexpr q)"
  shows "possible_value q c"
proof -
  let ?q = "withExpr q (Ne_create (qexpr q) (ConstantExpr c))"
  obtain r1 s1 where 1: "computeValue solver q (fst st) = (r1, s1)" by (cases "computeValue solver q (fst st)")
  obtain r2 t2 where 2: "computeTruth oracle ?q (snd st) = (r2, t2)" by (cases "computeTruth oracle ?q (snd st)")
  have "r2 = Success x \<Longrightarrow> x = valid ?q" for x
    using sound_callD(2) [OF solver_contract.truth [OF assms(1) Ne_query(1) [OF assms(2,5,6)]] assms(3) 2] .
  moreover have "r1 = Success (ConstantExpr c) \<and> r2 = Success False"
    using assms(4) 1 2
    by (cases r1) (auto simp: validating_computeValue_def and_then_def on_first_def on_second_def aborted_def return_def
        split: if_splits prod.splits answer.splits)
  ultimately show ?thesis using Ne_query(2) [OF assms(2,5,6)] by blast
qed

subsection \<open>The check of initial values\<close>

abbreviation conj_all :: "expr \<Rightarrow> expr list \<Rightarrow> expr" where
  "conj_all e cs \<equiv> fold (\<lambda>c e. And_create e c) cs e"

lemma conj_all_facts:
  "wt e \<Longrightarrow> getWidth e = Bool \<Longrightarrow> \<forall>c\<in>set cs. wt c \<and> getWidth c = Bool \<Longrightarrow>
     wt (conj_all e cs) \<and> getWidth (conj_all e cs) = Bool \<and>
     (\<forall>\<rho>. eval \<rho> (conj_all e cs) = 1 \<longleftrightarrow> eval \<rho> e = 1 \<and> sat \<rho> cs) \<and>
     (\<forall>\<rho>. div_safe \<rho> e \<and> (\<forall>c\<in>set cs. div_safe \<rho> c) \<longrightarrow> div_safe \<rho> (conj_all e cs)) \<and>
     (\<forall>P. about_leaves P \<and> all_sub P e \<and> (\<forall>c\<in>set cs. all_sub P c) \<longrightarrow> all_sub P (conj_all e cs))"
proof (induction cs arbitrary: e)
  case Nil
  then show ?case by (simp add: sat_all)
next
  case (Cons c cs)
  have eq: "expr_equiv (And_create e c) (BinaryExpr And e c)" using Cons.prems by (intro And_create_equiv) auto
  then have a: "wt (And_create e c)" "getWidth (And_create e c) = Bool"
    "\<And>\<rho>. div_safe \<rho> e \<Longrightarrow> div_safe \<rho> c \<Longrightarrow> div_safe \<rho> (And_create e c)"
    using Cons.prems by (auto simp: expr_equiv_def isCmp_def isDiv_def)
  have v: "eval \<rho> (And_create e c) = 1 \<longleftrightarrow> eval \<rho> e = 1 \<and> eval \<rho> c = 1" for \<rho>
    using eq eval_bool_cases [of e \<rho>] eval_bool_cases [of c \<rho>] Cons.prems by (auto simp: expr_equiv_def)
  from Cons.IH [OF a(1,2)] Cons.prems have IH: "wt (conj_all (And_create e c) cs)" "getWidth (conj_all (And_create e c) cs) = Bool"
    "\<And>\<rho>. eval \<rho> (conj_all (And_create e c) cs) = 1 \<longleftrightarrow> eval \<rho> (And_create e c) = 1 \<and> sat \<rho> cs"
    "\<And>\<rho>. div_safe \<rho> (And_create e c) \<Longrightarrow> \<forall>c\<in>set cs. div_safe \<rho> c \<Longrightarrow> div_safe \<rho> (conj_all (And_create e c) cs)"
    "\<And>P. about_leaves P \<Longrightarrow> all_sub P (And_create e c) \<Longrightarrow> \<forall>c\<in>set cs. all_sub P c \<Longrightarrow> all_sub P (conj_all (And_create e c) cs)"
    by simp_all
  show ?case using IH a(3) v And_create_sub(1) by (simp add: sat_all)
qed

lemma no_bindings_query:
  assumes "bool_query q" "\<And>\<rho> c. c \<in> insert (createIsZero (qexpr q)) (set (constraints q)) \<Longrightarrow> checked \<rho> c"
  shows "truth_query (bindings_query q [] [])"
    "valid (bindings_query q [] []) \<longleftrightarrow> (\<forall>\<rho>. sat \<rho> (constraints q) \<and> eval \<rho> (qexpr q) = 0)"
proof -
  let ?e = "createIsZero (qexpr q)"
  have wf: "wf_expr c \<and> getWidth c = Bool" if "c \<in> insert ?e (set (constraints q))" for c
    using that bool_query_negate [OF assms(1)] assms(1) by (auto simp: bool_query_def wf_query_def)
  have "wt ?e" "getWidth ?e = Bool" "\<forall>c\<in>set (constraints q). wt c \<and> getWidth c = Bool" using wf by (simp_all add: wf_expr_def)
  note f = conj_all_facts [OF this]
  have qe: "qexpr (bindings_query q [] []) = conj_all ?e (constraints q)" by (simp add: bindings_query_def)
  have sub: "all_sub P (conj_all ?e (constraints q))"
    if "about_leaves P" "\<And>c. c \<in> insert ?e (set (constraints q)) \<Longrightarrow> all_sub P c" for P
    using f that by blast
  have "wf_expr (conj_all ?e (constraints q))"
    using f wf sub narrow_foldable_leaves byte_reads_leaves unfolding wf_expr_def narrow_def byte_reads_def foldable_def by simp
  moreover have "checked \<rho> (conj_all ?e (constraints q))" for \<rho>
    using f assms(2) [of _ \<rho>] sub [OF in_bounds_leaves] unfolding checked_def in_bounds_def by blast
  moreover have "getWidth (conj_all ?e (constraints q)) = Bool" using f by blast
  ultimately show "truth_query (bindings_query q [] [])"
    unfolding truth_query_bool bool_query_def wf_query_def consistent_def qe by (simp add: bindings_query_def sat_all)
  have "eval \<rho> ?e = 1 \<longleftrightarrow> eval \<rho> (qexpr q) = 0" for \<rho>
    using createIsZero_facts(3) [OF bool_queryD(1) [OF assms(1)], of \<rho>] by auto
  then show "valid (bindings_query q [] []) \<longleftrightarrow> (\<forall>\<rho>. sat \<rho> (constraints q) \<and> eval \<rho> (qexpr q) = 0)"
    using f unfolding valid_def qe by (auto simp: bindings_query_def sat_all)
qed

subsection \<open>Properties\<close>



text \<open>
  C30: The check of initial values asks whether every completion of the bindings is a counterexample, not whether one is.
  When no array is asked for and some environment is not a counterexample, a right answer of the solver fails the assertion.
\<close>

theorem validating_rejects_solution:
  assumes "solver_contract oracle Inv False init" "Inv (snd st)" "bool_query q"
    and "\<And>\<rho> c. c \<in> insert (createIsZero (qexpr q)) (set (constraints q)) \<Longrightarrow> checked \<rho> c"
    and "computeInitialValues solver q [] (fst st) = (Success (Some []), s')"
    and "\<not> (sat \<rho> (constraints q) \<and> eval \<rho> (qexpr q) = 0)"
  shows "fst (computeInitialValues (ValidatingSolver solver oracle) q [] st) = Aborted"
proof -
  note b = no_bindings_query [OF assms(3,4)]
  obtain r t' where o: "computeTruth oracle (bindings_query q [] []) (snd st) = (r, t')"
    by (cases "computeTruth oracle (bindings_query q [] []) (snd st)")
  have "r = Success (valid (bindings_query q [] []))"
    using sound_callD [OF solver_contract.truth [OF assms(1) b(1)] assms(2) o] by (cases r) auto
  then have "r = Success False" using b(2) assms(6) by blast
  then show ?thesis
    using assms(5) o by (simp add: ValidatingSolver_def validating_computeInitialValues_def and_then_def on_first_def
        on_second_def aborted_def)
qed

theorem validating_rejects_solution_witness:
  "computeInitialValues reference_solver (sample_query (sample_bound 3)) [] () = (Success (Some []), ()) \<and>
   fst (computeInitialValues (ValidatingSolver reference_solver reference_solver) (sample_query (sample_bound 3)) [] ((), ())) = Aborted"
proof -
  let ?q = "sample_query (sample_bound 3)"
  have q: "bool_query ?q" using sample_query_ok [OF sample_wf(2,5)] sample_wf(3)
    by (simp add: bool_query_def value_query_def sample_query_def)
  have "in_bounds \<rho> (createIsZero (sample_bound 3))" "div_safe \<rho> (createIsZero (sample_bound 3))" for \<rho>
    using sample_wf(5) [of \<rho> 3] createIsZero_equiv [of "sample_bound 3"] sample_wf(2) [of 3]
    by (auto simp: checked_def in_bounds_sub expr_equiv_def wf_expr_def isDiv_def)
  then have ch: "checked \<rho> c" if "c \<in> insert (createIsZero (qexpr ?q)) (set (constraints ?q))" for \<rho> c
    using that sample_wf(5) by (auto simp: sample_query_def checked_def)
  have "\<not> valid ?q"
  proof
    assume "valid ?q"
    moreover have "eval (\<lambda>_ _. 4) (sample_bound 5) = 1" "eval (\<lambda>_ _. 4) (sample_bound 3) = 0"
      by (simp_all add: sample_bound_def eval_sample cell_def const8_def mkAPInt_def sample_array_def)
    ultimately show False by (auto simp: valid_def sample_query_def sat_all)
  qed
  then have init: "computeInitialValues reference_solver ?q [] () = (Success (Some []), ())"
    by (simp add: reference_solver_def return_def some_values_def)
  have "eval (\<lambda>_ _. 9) (sample_bound 5) = 0"
    by (simp add: sample_bound_def eval_sample cell_def const8_def mkAPInt_def sample_array_def)
  then have "\<not> (sat (\<lambda>_ _. 9) (constraints ?q) \<and> eval (\<lambda>_ _. 9) (qexpr ?q) = 0)" by (simp add: sample_query_def sat_all)
  from validating_rejects_solution [OF reference.solver_contract_axioms _ q ch _ this, where st = "((), ())" and solver = reference_solver and s' = "()"] init
  show ?thesis by simp
qed

text \<open>
  C29: Whatever the solver below does, initial values that pass the assignment validating solver are a counterexample: every
  constraint is true and the query expression false in the environment of the returned bytes.
\<close>

theorem assignment_validating_safe:
  assumes "bool_query q"
    and "computeInitialValues (AssignmentValidatingSolver solver) q objects s = (Success (Some vals), s')"
  shows "sat (env_of (Assignment (zip objects vals) True)) (constraints q) \<and>
    eval (env_of (Assignment (zip objects vals) True)) (qexpr q) = 0"
proof -
  let ?a = "Assignment (zip objects vals) True"
  have check: "check_assignment q objects vals"
    using assms(2) by (auto simp: AssignmentValidatingSolver_def avs_computeInitialValues_def and_then_def return_def aborted_def
        split: prod.splits answer.splits option.splits if_splits)
  have wf: "\<forall>c\<in>set (constraints q). wf_expr c \<and> getWidth c = Bool" "wf_expr (qexpr q)"
    using assms(1) by (auto simp: bool_query_def wf_query_def)
  have "sat (env_of ?a) (constraints q)"
    using check wf(1) by (intro constraints_hold_sat) (simp_all add: check_assignment_def Let_def)
  moreover obtain k where "evaluate ?a (qexpr q) = ConstantExpr k" "\<not> isTrue k"
    using check by (cases "evaluate ?a (qexpr q)") (auto simp: check_assignment_def Let_def)
  moreover have "refines_at (env_of ?a) (evaluate ?a (qexpr q)) (qexpr q)"
    using wf(2) by (intro evaluate_refines) (auto simp: wf_expr_def)
  ultimately show ?thesis
    using bool_queryD(2) [OF assms(1)] bool_queryD(4) [OF assms(1), of "env_of ?a"] by (auto simp: refines_at_def isTrue_def)
qed

theorem assignment_validating_safe_witness:
  "computeInitialValues (AssignmentValidatingSolver (reference_solver\<lparr>computeInitialValues := \<lambda>q objects. return (Some [[4, 0, 0, 0]])\<rparr>))
     (sample_query (sample_bound 3)) [sample_array] () = (Success (Some [[4, 0, 0, 0]]), ()) \<and>
   sat (env_of (Assignment (zip [sample_array] [[4, 0, 0, 0]]) True)) [sample_bound 5]"
proof -
  let ?q = "sample_query (sample_bound 3)"
  have q: "bool_query ?q" using sample_query_ok [OF sample_wf(2,5)] sample_wf(3)
    by (simp add: bool_query_def value_query_def sample_query_def)
  have "check_assignment ?q [sample_array] [[4, 0, 0, 0]]" by code_simp
  then have run: "computeInitialValues (AssignmentValidatingSolver (reference_solver\<lparr>computeInitialValues := \<lambda>q objects. return (Some [[4, 0, 0, 0]])\<rparr>))
     ?q [sample_array] () = (Success (Some [[4, 0, 0, 0]]), ())"
    by (simp add: AssignmentValidatingSolver_def avs_computeInitialValues_def and_then_def return_def)
  from assignment_validating_safe [OF q run] run show ?thesis by (simp add: sample_query_def)
qed

end
