(* ===== verification/SolverChain.thy ===== *)
theory SolverChain
  imports CachingSolver CexCachingSolver IndependentSolver ValidatingSolver
begin

text \<open>
  The chain of \<open>klee/lib/Solver/ConstructSolverChain.cpp\<close>: the counterexample cache over the core solver, the branch cache
  over that and the independent solver on top, each layer under its command line option. The core solver is a
  parameter that keeps the contract. A layer that is switched off leaves its part of the state unused. The logging
  solvers, the fast counterexample solver and the validating solvers, which are off by default, are not part of this
  chain.
\<close>

record chain_options =
  UseCexCache :: bool
  UseBranchCache :: bool
  UseIndependentSolver :: bool
  cex_opts :: cex_options

definition without_cex :: "'s solver_impl \<Rightarrow> 's cex_state solver_impl" where
  "without_cex solver =
     \<lparr>computeTruth = \<lambda>q. cex_call (computeTruth solver q), computeValidity = \<lambda>q. cex_call (computeValidity solver q),
      computeValue = \<lambda>q. cex_call (computeValue solver q),
      computeInitialValues = \<lambda>q objects. cex_call (computeInitialValues solver q objects)\<rparr>"

definition without_cache :: "'s solver_impl \<Rightarrow> 's caching_state solver_impl" where
  "without_cache solver =
     \<lparr>computeTruth = \<lambda>q. on_solver (computeTruth solver q), computeValidity = \<lambda>q. on_solver (computeValidity solver q),
      computeValue = \<lambda>q. on_solver (computeValue solver q),
      computeInitialValues = \<lambda>q objects. on_solver (computeInitialValues solver q objects)\<rparr>"

definition constructSolverChain :: "chain_options \<Rightarrow> 's solver_impl \<Rightarrow> 's cex_state caching_state solver_impl" where
  "constructSolverChain opts coreSolver =
     (let solver = (if UseCexCache opts then CexCachingSolver (cex_opts opts) coreSolver else without_cex coreSolver);
          solver = (if UseBranchCache opts then CachingSolver solver else without_cache solver)
      in if UseIndependentSolver opts then IndependentSolver solver else solver)"

subsection \<open>Every layer keeps the contract\<close>

lemma sound_cex_call: "sound_call fails Inv P m \<Longrightarrow> sound_call fails (cex_inv Inv) P (cex_call m)"
  unfolding sound_call_def cex_call_def cex_inv_def by (auto split: prod.split)

context full_contract
begin

lemma without_cex_contract: "full_contract (without_cex impl) (cex_inv Inv) fails init"
  by unfold_locales
    (simp_all add: without_cex_def sound_cex_call truth validity value_of initial_values init_bool init_truth)

lemma without_cache_contract: "full_contract (without_cache impl) (caching_inv Inv) fails init"
  by unfold_locales
    (simp_all add: without_cache_def sound_on_solver truth validity value_of initial_values init_bool init_truth)

lemma full_caching_contract: "full_contract (CachingSolver impl) (caching_inv Inv) fails init"
  using caching_contract init_truth by (simp add: full_contract_def full_contract_axioms_def)

end

text \<open>The chain over a core solver; each layer is a sublocale of the contract.\<close>

locale solver_chain = core: full_contract core Inv fails bool_query
  for core :: "'s solver_impl" and Inv :: "'s \<Rightarrow> bool" and fails :: bool +
  fixes opts :: chain_options
begin

definition layer1 :: "'s cex_state solver_impl" where
  "layer1 = (if UseCexCache opts then CexCachingSolver (cex_opts opts) core else without_cex core)"

definition layer2 :: "'s cex_state caching_state solver_impl" where
  "layer2 = (if UseBranchCache opts then CachingSolver layer1 else without_cache layer1)"

definition may_fail :: bool where
  "may_fail \<longleftrightarrow> fails \<or> UseCexCache opts \<and> CexCacheExperimental (cex_opts opts)"

end

sublocale solver_chain \<subseteq> first: full_contract layer1 "cex_inv Inv" may_fail bool_query
  using cex_contract [OF core.full_contract_axioms, of "cex_opts opts"] core.without_cex_contract
  by (cases "UseCexCache opts") (simp_all add: layer1_def may_fail_def)

sublocale solver_chain \<subseteq> second: full_contract layer2 "caching_inv (cex_inv Inv)" may_fail bool_query
  using first.full_caching_contract first.without_cache_contract
  by (cases "UseBranchCache opts") (simp_all add: layer2_def)

sublocale solver_chain \<subseteq> chain: solver_contract "constructSolverChain opts core" "caching_inv (cex_inv Inv)" may_fail independent_init
proof (cases "UseIndependentSolver opts")
  case True
  then have "constructSolverChain opts core = IndependentSolver layer2"
    by (simp add: constructSolverChain_def layer1_def layer2_def Let_def)
  then show "solver_contract (constructSolverChain opts core) (caching_inv (cex_inv Inv)) may_fail independent_init"
    using independent_contract [OF second.solver_contract_axioms] by simp
next
  case False
  then have "constructSolverChain opts core = layer2"
    by (simp add: constructSolverChain_def layer1_def layer2_def Let_def)
  then show "solver_contract (constructSolverChain opts core) (caching_inv (cex_inv Inv)) may_fail independent_init"
    using second.truth second.validity second.value_of second.initial_values
    by unfold_locales (simp_all add: independent_init_def truth_bool)
qed

context solver_chain
begin

lemma chain_contract: "solver_contract (constructSolverChain opts core) (caching_inv (cex_inv Inv)) may_fail independent_init"
  by (rule chain.solver_contract_axioms)

end

interpretation reference_chain: solver_chain reference_solver "\<lambda>_. True" False
  "\<lparr>UseCexCache = True, UseBranchCache = True, UseIndependentSolver = True,
    cex_opts = \<lparr>CexCacheTryAll = False, CexCacheSuperSet = False, CexCacheExperimental = False, DebugCexCacheCheckBinding = False\<rparr>\<rparr>"
  by unfold_locales

subsection \<open>Properties\<close>



end
