(* ===== verification/ObjectState.thy ===== *)
theory ObjectState
  imports ExprSound Bits "HOL-Library.Monad_Syntax"
begin

text \<open>
  Memory objects of \<open>klee/lib/Core/Memory.cpp\<close>: the contents of an object are spread over a concrete store, a
  table of known symbolic bytes and a lazily flushed list of updates, with two bit arrays that say where a byte is to
  be found. The operations are shown to implement an array of bytes whose values depend on the environment. With it
  come the bit arrays of \<open>klee/include/klee/util/BitArray.h\<close>, the array cache of \<open>klee/lib/Expr/ArrayCache.cpp\<close> and the
  bounds checks of a memory object. A failed assertion or an access outside a vector is \<open>None\<close>.
\<close>

declare One_nat_def [simp del]

subsection \<open>Bit arrays\<close>

type_synonym bit_array = "32 word list"

definition BitArray_new :: "nat \<Rightarrow> bool \<Rightarrow> bit_array" where
  "BitArray_new n value = replicate ((n + 31) div 32) (if value then - 1 else 0)"

definition ba_get :: "bit_array \<Rightarrow> nat \<Rightarrow> bool" where
  "ba_get bits idx = (drop_bit (idx mod 32) (bits ! (idx div 32)) AND 1 \<noteq> 0)"

definition ba_set :: "bit_array \<Rightarrow> nat \<Rightarrow> bit_array" where
  "ba_set bits idx = bits[idx div 32 := bits ! (idx div 32) OR push_bit (idx mod 32) 1]"

definition ba_unset :: "bit_array \<Rightarrow> nat \<Rightarrow> bit_array" where
  "ba_unset bits idx = bits[idx div 32 := bits ! (idx div 32) AND NOT (push_bit (idx mod 32) 1)]"

definition ba_ok :: "nat \<Rightarrow> bit_array \<Rightarrow> bool" where
  "ba_ok n bits \<longleftrightarrow> length bits = (n + 31) div 32"

lemma ba_get_bit: "ba_get bits idx \<longleftrightarrow> bit (bits ! (idx div 32)) (idx mod 32)"
  by (simp add: ba_get_def bit_iff_and_drop_bit_eq_1 and_one_eq odd_iff_mod_2_eq_one)

lemma ba_div_less: "ba_ok n bits \<Longrightarrow> idx < n \<Longrightarrow> idx div 32 < length bits"
  by (auto simp: ba_ok_def)

lemma ba_get_new: "idx < n \<Longrightarrow> ba_get (BitArray_new n v) idx = v"
  by (simp add: BitArray_new_def ba_get_bit less_mult_imp_div_less div_less_iff_less_mult)

lemma div_mod_32_eq: "i div 32 = j div 32 \<Longrightarrow> i mod 32 = j mod 32 \<longleftrightarrow> i = (j::nat)"
  by (metis mod_mult_div_eq)

lemma single_bit: "bit (2 ^ (i mod 32) :: 32 word) (j mod 32) \<longleftrightarrow> j mod 32 = i mod 32"
  by (auto simp: bit_exp_iff)

lemma ba_get_set:
  assumes "ba_ok n bits" "i < n"
  shows "ba_get (ba_set bits i) j \<longleftrightarrow> j = i \<or> ba_get bits j"
  using ba_div_less [OF assms] div_mod_32_eq [of j i]
  by (cases "j div 32 = i div 32") (auto simp: ba_get_bit ba_set_def bit_or_iff single_bit nth_list_update)

lemma ba_get_unset:
  assumes "ba_ok n bits" "i < n"
  shows "ba_get (ba_unset bits i) j \<longleftrightarrow> j \<noteq> i \<and> ba_get bits j"
  using ba_div_less [OF assms] div_mod_32_eq [of j i]
  by (cases "j div 32 = i div 32")
    (auto simp: ba_get_bit ba_unset_def bit_and_iff bit_not_iff single_bit nth_list_update)

lemma ba_ok_ops [simp]:
  "ba_ok n (BitArray_new n v)" "ba_ok n (ba_set bits i) = ba_ok n bits" "ba_ok n (ba_unset bits i) = ba_ok n bits"
  by (simp_all add: ba_ok_def BitArray_new_def ba_set_def ba_unset_def)

subsection \<open>The array cache\<close>

text \<open>The address a new array gets is the next of a counter; two arrays never share one.\<close>

record array_cache =
  cachedSymbolicArrays :: "array list"
  concreteArrays :: "array list"
  next_address :: nat

definition CreateArray :: "string \<Rightarrow> nat \<Rightarrow> apint list \<Rightarrow> width \<Rightarrow> width \<Rightarrow> array_cache \<Rightarrow> (array \<times> array_cache) option" where
  "CreateArray name n values dw rng cache =
     (let array = \<lparr>arr_addr = next_address cache, arr_name = name, arr_size = take_bit 32 n,
                   arr_domain = dw, arr_range = rng, constantValues = values\<rparr>
      in if \<not> isSymbolicArray array \<and> length values \<noteq> arr_size array then None
         else if list_ex (\<lambda>v. getBitWidth v \<noteq> rng) values then None
         else if isSymbolicArray array then
           (case List.find (\<lambda>a. arr_size a = arr_size array \<and> arr_name a = name) (cachedSymbolicArrays cache) of
              Some a \<Rightarrow> if isSymbolicArray a then Some (a, cache) else None
            | None \<Rightarrow> Some (array, cache\<lparr>cachedSymbolicArrays := array # cachedSymbolicArrays cache,
                                    next_address := next_address cache + 1\<rparr>))
         else Some (array, cache\<lparr>concreteArrays := concreteArrays cache @ [array], next_address := next_address cache + 1\<rparr>))"

fun utostr :: "nat \<Rightarrow> string" where
  "utostr n = (if n < 10 then [char_of (48 + n)] else utostr (n div 10) @ [char_of (48 + n mod 10)])"

declare utostr.simps [simp del]

subsection \<open>Memory objects and their bounds checks\<close>

record memory_object =
  mo_id :: nat
  mo_address :: "64 word"
  mo_size :: nat
  mo_isLocal :: bool
  mo_isGlobal :: bool
  mo_isFixed :: bool
  mo_isUserSpecified :: bool

record target_context =
  isLittleEndian :: bool
  getPointerWidth :: width

definition getBaseExpr :: "target_context \<Rightarrow> memory_object \<Rightarrow> expr" where
  "getBaseExpr ctx mo = ConstantExpr (mkAPInt (getPointerWidth ctx) (uint (mo_address mo)))"

definition getSizeExpr :: "target_context \<Rightarrow> memory_object \<Rightarrow> expr" where
  "getSizeExpr ctx mo = ConstantExpr (mkAPInt (getPointerWidth ctx) (int (mo_size mo)))"

definition getOffsetExpr :: "target_context \<Rightarrow> memory_object \<Rightarrow> expr \<Rightarrow> expr" where
  "getOffsetExpr ctx mo pointer = Sub_create pointer (getBaseExpr ctx mo)"

definition getBoundsCheckOffset :: "target_context \<Rightarrow> memory_object \<Rightarrow> expr \<Rightarrow> expr" where
  "getBoundsCheckOffset ctx mo offset =
     (if mo_size mo = 0 then Eq_create offset (ConstantExpr (mkAPInt (getPointerWidth ctx) 0))
      else Ult_create offset (getSizeExpr ctx mo))"

definition getBoundsCheckOffset_bytes :: "target_context \<Rightarrow> memory_object \<Rightarrow> expr \<Rightarrow> nat \<Rightarrow> expr" where
  "getBoundsCheckOffset_bytes ctx mo offset bytes =
     (if bytes \<le> mo_size mo
      then Ult_create offset (ConstantExpr (mkAPInt (getPointerWidth ctx) (int (mo_size mo - bytes + 1))))
      else ConstantExpr (mkAPInt Bool 0))"

definition getBoundsCheckPointer :: "target_context \<Rightarrow> memory_object \<Rightarrow> expr \<Rightarrow> expr" where
  "getBoundsCheckPointer ctx mo pointer = getBoundsCheckOffset ctx mo (getOffsetExpr ctx mo pointer)"

definition getBoundsCheckPointer_bytes :: "target_context \<Rightarrow> memory_object \<Rightarrow> expr \<Rightarrow> nat \<Rightarrow> expr" where
  "getBoundsCheckPointer_bytes ctx mo pointer bytes = getBoundsCheckOffset_bytes ctx mo (getOffsetExpr ctx mo pointer) bytes"

subsection \<open>The state of an object\<close>

type_synonym update_list = "array option \<times> updates"

definition UpdateList_extend :: "expr \<Rightarrow> expr \<Rightarrow> update_list \<Rightarrow> update_list option" where
  "UpdateList_extend index value ul =
     (case ul of (root, head) \<Rightarrow>
        if root \<noteq> None \<and> (arr_domain (the root) \<noteq> getWidth index \<or> arr_range (the root) \<noteq> getWidth value) then None
        else Some (root, UpdateNode index value head))"

record object_state =
  copyOnWriteOwner :: nat
  os_object :: memory_object
  concreteStore :: "8 word list"
  concreteMask :: "bit_array option"
  flushMask :: "bit_array option"
  knownSymbolics :: "expr option list option"
  os_updates :: update_list
  os_size :: nat
  readOnly :: bool

definition isByteConcrete :: "object_state \<Rightarrow> nat \<Rightarrow> bool" where
  "isByteConcrete os offset = (case concreteMask os of None \<Rightarrow> True | Some m \<Rightarrow> ba_get m offset)"

definition isByteFlushed :: "object_state \<Rightarrow> nat \<Rightarrow> bool" where
  "isByteFlushed os offset = (case flushMask os of None \<Rightarrow> False | Some m \<Rightarrow> \<not> ba_get m offset)"

definition knownSymbolic :: "object_state \<Rightarrow> nat \<Rightarrow> expr option" where
  "knownSymbolic os offset = (case knownSymbolics os of None \<Rightarrow> None | Some ks \<Rightarrow> ks ! offset)"

definition isByteKnownSymbolic :: "object_state \<Rightarrow> nat \<Rightarrow> bool" where
  "isByteKnownSymbolic os offset \<longleftrightarrow> knownSymbolic os offset \<noteq> None"

definition markByteConcrete :: "nat \<Rightarrow> object_state \<Rightarrow> object_state" where
  "markByteConcrete offset os = os\<lparr>concreteMask := map_option (\<lambda>m. ba_set m offset) (concreteMask os)\<rparr>"

definition markByteSymbolic :: "nat \<Rightarrow> object_state \<Rightarrow> object_state" where
  "markByteSymbolic offset os =
     os\<lparr>concreteMask := Some (ba_unset (case concreteMask os of None \<Rightarrow> BitArray_new (os_size os) True | Some m \<Rightarrow> m) offset)\<rparr>"

definition markByteUnflushed :: "nat \<Rightarrow> object_state \<Rightarrow> object_state" where
  "markByteUnflushed offset os = os\<lparr>flushMask := map_option (\<lambda>m. ba_set m offset) (flushMask os)\<rparr>"

definition markByteFlushed :: "nat \<Rightarrow> object_state \<Rightarrow> object_state" where
  "markByteFlushed offset os =
     os\<lparr>flushMask := Some (case flushMask os of None \<Rightarrow> BitArray_new (os_size os) False | Some m \<Rightarrow> ba_unset m offset)\<rparr>"

definition setKnownSymbolic :: "nat \<Rightarrow> expr option \<Rightarrow> object_state \<Rightarrow> object_state" where
  "setKnownSymbolic offset value os =
     os\<lparr>knownSymbolics :=
          (case knownSymbolics os of
             Some ks \<Rightarrow> Some (ks[offset := value])
           | None \<Rightarrow> if value = None then None else Some ((replicate (os_size os) None)[offset := value]))\<rparr>"

definition makeConcrete :: "object_state \<Rightarrow> object_state" where
  "makeConcrete os = os\<lparr>concreteMask := None, flushMask := None, knownSymbolics := None\<rparr>"

definition makeSymbolic :: "object_state \<Rightarrow> object_state option" where
  "makeSymbolic os =
     (if snd (os_updates os) \<noteq> NullNode then None
      else Some (fold (\<lambda>i os. markByteFlushed i (setKnownSymbolic i None (markByteSymbolic i os))) [0..<os_size os] os))"

definition initializeToZero :: "object_state \<Rightarrow> object_state" where
  "initializeToZero os = (makeConcrete os)\<lparr>concreteStore := replicate (os_size os) 0\<rparr>"

definition initializeToRandom :: "object_state \<Rightarrow> object_state" where
  "initializeToRandom os = (makeConcrete os)\<lparr>concreteStore := replicate (os_size os) 0xAB\<rparr>"

text \<open>The three constructors. The option \<open>use-constant-arrays\<close> decides whether a concrete object has an array yet.\<close>

record mem_world =
  mw_cache :: array_cache
  const_arr_id :: nat
  tmp_arr_id :: nat

definition ObjectState_blank :: "memory_object \<Rightarrow> update_list \<Rightarrow> object_state" where
  "ObjectState_blank mo ul =
     \<lparr>copyOnWriteOwner = 0, os_object = mo, concreteStore = replicate (mo_size mo) 0, concreteMask = None,
      flushMask = None, knownSymbolics = None, os_updates = ul, os_size = mo_size mo, readOnly = False\<rparr>"

definition ObjectState_new :: "bool \<Rightarrow> memory_object \<Rightarrow> mem_world \<Rightarrow> (object_state \<times> mem_world) option" where
  "ObjectState_new UseConstantArrays mo w =
     (if UseConstantArrays then Some (ObjectState_blank mo (None, NullNode), w)
      else do {
        (array, cache) \<leftarrow> CreateArray (''tmp_arr'' @ utostr (tmp_arr_id w + 1)) (mo_size mo) [] Int32 Int8 (mw_cache w);
        Some (ObjectState_blank mo (Some array, NullNode), w\<lparr>mw_cache := cache, tmp_arr_id := tmp_arr_id w + 1\<rparr>)
      })"

definition ObjectState_symbolic :: "memory_object \<Rightarrow> array \<Rightarrow> object_state option" where
  "ObjectState_symbolic mo array = makeSymbolic (ObjectState_blank mo (Some array, NullNode))"

definition ObjectState_copy :: "object_state \<Rightarrow> object_state option" where
  "ObjectState_copy os = (if readOnly os then None else Some (os\<lparr>copyOnWriteOwner := 0, readOnly := False\<rparr>))"


subsection \<open>The lazily created constant array and the flushing of bytes\<close>

text \<open>The writes, oldest first, and the leading ones that are concrete, which go into the constant array.\<close>

primrec oldest_first :: "updates \<Rightarrow> (expr \<times> expr) list" where
  "oldest_first NullNode = []"
| "oldest_first (UpdateNode i v un) = oldest_first un @ [(i, v)]"

fun push_concrete :: "(expr \<times> expr) list \<Rightarrow> apint list \<Rightarrow> (apint list \<times> (expr \<times> expr) list) option" where
  "push_concrete [] contents = Some (contents, [])"
| "push_concrete ((i, v) # writes) contents =
     (case asConst i of
        None \<Rightarrow> Some (contents, (i, v) # writes)
      | Some Index \<Rightarrow> (case asConst v of
          None \<Rightarrow> Some (contents, (i, v) # writes)
        | Some Value \<Rightarrow>
            if nat (getZExtValue Index) < length contents
            then push_concrete writes (contents[nat (getZExtValue Index) := Value])
            else None))"

primrec extend_all :: "(expr \<times> expr) list \<Rightarrow> update_list \<Rightarrow> update_list option" where
  "extend_all [] ul = Some ul"
| "extend_all (w # writes) ul = do { ul' \<leftarrow> UpdateList_extend (fst w) (snd w) ul; extend_all writes ul' }"

text \<open>Operations on an object may create arrays: the state is the world and the object.\<close>

type_synonym 'a os_call = "mem_world \<times> object_state \<Rightarrow> ('a \<times> mem_world \<times> object_state) option"

definition getUpdates :: "(array \<times> updates) os_call" where
  "getUpdates st =
     (case st of (w, os) \<Rightarrow>
        case os_updates os of
          (Some root, head) \<Rightarrow> Some ((root, head), w, os)
        | (None, head) \<Rightarrow> do {
            (contents, rest) \<leftarrow> push_concrete (oldest_first head) (replicate (os_size os) (mkAPInt Int8 0));
            (array, cache) \<leftarrow> CreateArray (''const_arr'' @ utostr (const_arr_id w + 1)) (os_size os) contents Int32 Int8 (mw_cache w);
            ul \<leftarrow> extend_all rest (Some array, NullNode);
            Some ((array, snd ul), w\<lparr>mw_cache := cache, const_arr_id := const_arr_id w + 1\<rparr>, os\<lparr>os_updates := ul\<rparr>)
          })"

definition index32 :: "nat \<Rightarrow> expr" where
  "index32 offset = ConstantExpr (mkAPInt Int32 (int offset))"

definition byte8 :: "8 word \<Rightarrow> expr" where
  "byte8 b = ConstantExpr (mkAPInt Int8 (uint b))"

definition unset_flush :: "nat \<Rightarrow> object_state \<Rightarrow> object_state" where
  "unset_flush offset os = os\<lparr>flushMask := map_option (\<lambda>m. ba_unset m offset) (flushMask os)\<rparr>"

definition ensure_flushMask :: "object_state \<Rightarrow> object_state" where
  "ensure_flushMask os =
     os\<lparr>flushMask := Some (case flushMask os of None \<Rightarrow> BitArray_new (os_size os) True | Some m \<Rightarrow> m)\<rparr>"

definition flush_byte_read :: "nat \<Rightarrow> object_state \<Rightarrow> object_state option" where
  "flush_byte_read offset os =
     (if isByteFlushed os offset then Some os
      else do {
        ul \<leftarrow> (if isByteConcrete os offset then UpdateList_extend (index32 offset) (byte8 (concreteStore os ! offset)) (os_updates os)
               else case knownSymbolic os offset of
                 None \<Rightarrow> None | Some value \<Rightarrow> UpdateList_extend (index32 offset) value (os_updates os));
        Some (unset_flush offset (os\<lparr>os_updates := ul\<rparr>))
      })"

definition flush_byte_write :: "nat \<Rightarrow> object_state \<Rightarrow> object_state option" where
  "flush_byte_write offset os =
     (if \<not> isByteFlushed os offset then
        (if isByteConcrete os offset then do {
           ul \<leftarrow> UpdateList_extend (index32 offset) (byte8 (concreteStore os ! offset)) (os_updates os);
           Some (unset_flush offset (markByteSymbolic offset (os\<lparr>os_updates := ul\<rparr>))) }
         else case knownSymbolic os offset of
           None \<Rightarrow> None
         | Some value \<Rightarrow> do {
             ul \<leftarrow> UpdateList_extend (index32 offset) value (os_updates os);
             Some (unset_flush offset (setKnownSymbolic offset None (os\<lparr>os_updates := ul\<rparr>))) })
      else if isByteConcrete os offset then Some (markByteSymbolic offset os)
      else if isByteKnownSymbolic os offset then Some (setKnownSymbolic offset None os)
      else Some os)"

primrec flush_bytes :: "(nat \<Rightarrow> object_state \<Rightarrow> object_state option) \<Rightarrow> nat list \<Rightarrow> object_state \<Rightarrow> object_state option" where
  "flush_bytes flush [] os = Some os"
| "flush_bytes flush (i # is) os = do { os' \<leftarrow> flush i os; flush_bytes flush is os' }"

definition fastRangeCheckOffset :: "object_state \<Rightarrow> expr \<Rightarrow> nat \<times> nat" where
  "fastRangeCheckOffset os offset = (0, os_size os)"

definition flushRangeForRead :: "nat \<Rightarrow> nat \<Rightarrow> object_state \<Rightarrow> object_state option" where
  "flushRangeForRead rangeBase rangeSize os =
     flush_bytes flush_byte_read [rangeBase ..< rangeBase + rangeSize] (ensure_flushMask os)"

definition flushRangeForWrite :: "nat \<Rightarrow> nat \<Rightarrow> object_state \<Rightarrow> object_state option" where
  "flushRangeForWrite rangeBase rangeSize os =
     flush_bytes flush_byte_write [rangeBase ..< rangeBase + rangeSize] (ensure_flushMask os)"

subsection \<open>Reading and writing a byte\<close>

text \<open>At a constant offset; an offset outside the object is an access outside a vector.\<close>

definition read8 :: "nat \<Rightarrow> expr os_call" where
  "read8 offset st =
     (case st of (w, os) \<Rightarrow>
        if os_size os \<le> offset then None
        else if isByteConcrete os offset then Some (byte8 (concreteStore os ! offset), w, os)
        else case knownSymbolic os offset of
          Some value \<Rightarrow> Some (value, w, os)
        | None \<Rightarrow>
            if \<not> isByteFlushed os offset then None
            else do { ((root, head), st') \<leftarrow> getUpdates (w, os); Some (Read_create root head (index32 offset), st') })"

definition read8_symbolic :: "expr \<Rightarrow> expr os_call" where
  "read8_symbolic offset st =
     (case st of (w, os) \<Rightarrow>
        if isConst offset then None
        else case fastRangeCheckOffset os offset of (base, rsize) \<Rightarrow> do {
          os' \<leftarrow> flushRangeForRead base rsize os;
          ((root, head), st') \<leftarrow> getUpdates (w, os');
          Some (Read_create root head (ZExt_create offset Int32), st')
        })"

definition write8_const :: "nat \<Rightarrow> 8 word \<Rightarrow> object_state \<Rightarrow> object_state option" where
  "write8_const offset value os =
     (if os_size os \<le> offset then None
      else Some (markByteUnflushed offset (markByteConcrete offset
             (setKnownSymbolic offset None (os\<lparr>concreteStore := (concreteStore os)[offset := value]\<rparr>)))))"

definition write8 :: "nat \<Rightarrow> expr \<Rightarrow> object_state \<Rightarrow> object_state option" where
  "write8 offset value os =
     (case asConst value of
        Some CE \<Rightarrow> write8_const offset (word_of_int (getZExtValue CE)) os
      | None \<Rightarrow>
          if os_size os \<le> offset then None
          else Some (markByteUnflushed offset (markByteSymbolic offset (setKnownSymbolic offset (Some value) os))))"

definition write8_symbolic :: "expr \<Rightarrow> expr \<Rightarrow> object_state \<Rightarrow> object_state option" where
  "write8_symbolic offset value os =
     (if isConst offset then None
      else case fastRangeCheckOffset os offset of (base, rsize) \<Rightarrow> do {
        os' \<leftarrow> flushRangeForWrite base rsize os;
        ul \<leftarrow> UpdateList_extend (ZExt_create offset Int32) value (os_updates os');
        Some (os'\<lparr>os_updates := ul\<rparr>)
      })"

subsection \<open>Reading and writing values of any width\<close>

text \<open>The byte at position \<open>i\<close> of a value, by the byte order of the target; no bytes would give a null reference.\<close>

definition byte_index :: "target_context \<Rightarrow> nat \<Rightarrow> nat \<Rightarrow> nat" where
  "byte_index ctx NumBytes i = (if isLittleEndian ctx then i else NumBytes - i - 1)"

primrec read_bytes :: "(nat \<Rightarrow> expr os_call) \<Rightarrow> nat list \<Rightarrow> expr option \<Rightarrow> expr os_call" where
  "read_bytes rd [] Res st = (case Res of None \<Rightarrow> None | Some res \<Rightarrow> Some (res, st))"
| "read_bytes rd (i # is) Res st = do {
     (Byte, st') \<leftarrow> rd i st;
     read_bytes rd is (Some (case Res of None \<Rightarrow> Byte | Some res \<Rightarrow> Concat_create Byte res)) st' }"

definition read_const :: "target_context \<Rightarrow> nat \<Rightarrow> width \<Rightarrow> expr os_call" where
  "read_const ctx offset w st =
     (if w = Bool then do { (b, st') \<leftarrow> read8 offset st; Some (Extract_create b 0 Bool, st') }
      else let NumBytes = w div 8 in
        if w \<noteq> NumBytes * 8 then None
        else read_bytes (\<lambda>i. read8 (take_bit 32 (offset + byte_index ctx NumBytes i))) [0..<NumBytes] None st)"

definition read_expr :: "target_context \<Rightarrow> expr \<Rightarrow> width \<Rightarrow> expr os_call" where
  "read_expr ctx offset0 w st =
     (let offset = ZExt_create offset0 Int32 in
      case asConst offset of
        Some CE \<Rightarrow> read_const ctx (nat (getZExtValue CE)) w st
      | None \<Rightarrow>
          if w = Bool then do { (b, st') \<leftarrow> read8_symbolic offset st; Some (Extract_create b 0 Bool, st') }
          else let NumBytes = w div 8 in
            if w \<noteq> NumBytes * 8 then None
            else read_bytes (\<lambda>i. read8_symbolic (Add_create offset (index32 (byte_index ctx NumBytes i)))) [0..<NumBytes] None st)"

primrec write_bytes :: "(nat \<Rightarrow> object_state \<Rightarrow> object_state option) \<Rightarrow> nat list \<Rightarrow> object_state \<Rightarrow> object_state option" where
  "write_bytes wr [] os = Some os"
| "write_bytes wr (i # is) os = do { os' \<leftarrow> wr i os; write_bytes wr is os' }"

definition write_word :: "target_context \<Rightarrow> nat \<Rightarrow> nat \<Rightarrow> 'a::len word \<Rightarrow> object_state \<Rightarrow> object_state option" where
  "write_word ctx NumBytes offset value =
     write_bytes (\<lambda>i. write8_const (take_bit 32 (offset + byte_index ctx NumBytes i)) (ucast (drop_bit (8 * i) value))) [0..<NumBytes]"

definition write16 :: "target_context \<Rightarrow> nat \<Rightarrow> 16 word \<Rightarrow> object_state \<Rightarrow> object_state option" where
  "write16 ctx = write_word ctx 2"

definition write32 :: "target_context \<Rightarrow> nat \<Rightarrow> 32 word \<Rightarrow> object_state \<Rightarrow> object_state option" where
  "write32 ctx = write_word ctx 4"

definition write64 :: "target_context \<Rightarrow> nat \<Rightarrow> 64 word \<Rightarrow> object_state \<Rightarrow> object_state option" where
  "write64 ctx = write_word ctx 8"

definition write_general :: "target_context \<Rightarrow> nat \<Rightarrow> expr \<Rightarrow> object_state \<Rightarrow> object_state option" where
  "write_general ctx offset value os =
     (let w = getWidth value in
      if w = Bool then write8 offset (ZExt_create value Int8) os
      else let NumBytes = w div 8 in
        if w \<noteq> NumBytes * 8 then None
        else write_bytes (\<lambda>i. write8 (take_bit 32 (offset + byte_index ctx NumBytes i)) (Extract_create value (8 * i) Int8)) [0..<NumBytes] os)"

definition write_const :: "target_context \<Rightarrow> nat \<Rightarrow> expr \<Rightarrow> object_state \<Rightarrow> object_state option" where
  "write_const ctx offset value os =
     (case asConst value of
        Some CE \<Rightarrow>
          (let w = getBitWidth CE; val = getZExtValue CE in
           if w \<le> 64 \<and> isPowerOfTwo (of_nat w :: 64 word) then
             (if w = Bool \<or> w = Int8 then write8_const offset (word_of_int val) os
              else if w = Int16 then write16 ctx offset (word_of_int val) os
              else if w = Int32 then write32 ctx offset (word_of_int val) os
              else if w = Int64 then write64 ctx offset (word_of_int val) os
              else None)
           else write_general ctx offset value os)
      | None \<Rightarrow> write_general ctx offset value os)"

definition write_expr :: "target_context \<Rightarrow> expr \<Rightarrow> expr \<Rightarrow> object_state \<Rightarrow> object_state option" where
  "write_expr ctx offset0 value os =
     (let offset = ZExt_create offset0 Int32; w = getWidth value in
      case asConst offset of
        Some CE \<Rightarrow> write_const ctx (nat (getZExtValue CE)) value os
      | None \<Rightarrow>
          if w = Bool then write8_symbolic offset (ZExt_create value Int8) os
          else let NumBytes = w div 8 in
            if w \<noteq> NumBytes * 8 then None
            else write_bytes (\<lambda>i. write8_symbolic (Add_create offset (index32 (byte_index ctx NumBytes i)))
                   (Extract_create value (8 * i) Int8)) [0..<NumBytes] os)"


subsection \<open>The bytes of an object\<close>

text \<open>An update list with no root stands for writes over an array of zeros.\<close>

definition base_array :: "nat \<Rightarrow> array option \<Rightarrow> array" where
  "base_array n root =
     (case root of
        Some a \<Rightarrow> a
      | None \<Rightarrow> \<lparr>arr_addr = 0, arr_name = [], arr_size = n, arr_domain = Int32, arr_range = Int8,
                  constantValues = replicate n (mkAPInt Int8 0)\<rparr>)"

definition ul_byte :: "env \<Rightarrow> nat \<Rightarrow> update_list \<Rightarrow> int \<Rightarrow> int" where
  "ul_byte \<rho> n ul j = evalU \<rho> (base_array n (fst ul)) j (snd ul)"

definition os_byte :: "env \<Rightarrow> object_state \<Rightarrow> nat \<Rightarrow> int" where
  "os_byte \<rho> os j =
     (if isByteConcrete os j then uint (concreteStore os ! j)
      else case knownSymbolic os j of
        Some e \<Rightarrow> eval \<rho> e
      | None \<Rightarrow> ul_byte \<rho> (os_size os) (os_updates os) (int j))"

definition ul_ok :: "nat \<Rightarrow> update_list \<Rightarrow> bool" where
  "ul_ok n ul \<longleftrightarrow>
     array_ok (base_array n (fst ul)) \<and> arr_domain (base_array n (fst ul)) = Int32 \<and>
     arr_range (base_array n (fst ul)) = Int8 \<and> arr_size (base_array n (fst ul)) = n \<and>
     wtU (base_array n (fst ul)) (snd ul) \<and>
     (fst ul = None \<longrightarrow> (\<forall>(i, v) \<in> set (oldest_first (snd ul)). \<forall>c. i = ConstantExpr c \<longrightarrow> uval c < int n))"

text \<open>
  The invariant the source lists for the two bit arrays and the table, and what it leaves unsaid: a flushed byte that
  is still cached has the same value in the update list.
\<close>

definition masks_ok :: "object_state \<Rightarrow> bool" where
  "masks_ok os \<longleftrightarrow>
     os_size os < 2 ^ 32 \<and> length (concreteStore os) = os_size os \<and>
     (\<forall>m. concreteMask os = Some m \<longrightarrow> ba_ok (os_size os) m) \<and>
     (\<forall>m. flushMask os = Some m \<longrightarrow> ba_ok (os_size os) m) \<and>
     (\<forall>ks. knownSymbolics os = Some ks \<longrightarrow> length ks = os_size os)"

definition byte_ok :: "object_state \<Rightarrow> nat \<Rightarrow> bool" where
  "byte_ok os j \<longleftrightarrow>
     (\<forall>e. knownSymbolic os j = Some e \<longrightarrow> wt e \<and> getWidth e = Int8 \<and> \<not> isByteConcrete os j) \<and>
     (\<not> isByteFlushed os j \<longrightarrow> isByteConcrete os j \<or> isByteKnownSymbolic os j) \<and>
     (isByteFlushed os j \<longrightarrow> (\<forall>\<rho>. ul_byte \<rho> (os_size os) (os_updates os) (int j) = os_byte \<rho> os j))"

definition os_inv :: "object_state \<Rightarrow> bool" where
  "os_inv os \<longleftrightarrow> masks_ok os \<and> ul_ok (os_size os) (os_updates os) \<and> (\<forall>j < os_size os. byte_ok os j)"

subsection \<open>Update lists\<close>

lemma base_array_Some [simp]: "base_array n (Some a) = a"
  by (simp add: base_array_def)

lemma UpdateList_extend_Some:
  assumes "ul_ok n ul" "wt i" "wt v" "getWidth i = Int32" "getWidth v = Int8"
    and "\<And>c. i = ConstantExpr c \<Longrightarrow> uval c < int n"
  obtains ul' where "UpdateList_extend i v ul = Some ul'" "ul_ok n ul'" "fst ul' = fst ul"
    "oldest_first (snd ul') = oldest_first (snd ul) @ [(i, v)]"
    "\<And>\<rho> j. ul_byte \<rho> n ul' j = (if eval \<rho> i = j then eval \<rho> v else ul_byte \<rho> n ul j)"
proof -
  obtain root head where ul: "ul = (root, head)" by (cases ul)
  have "UpdateList_extend i v ul = Some (root, UpdateNode i v head)"
    using assms unfolding ul by (cases root) (simp_all add: UpdateList_extend_def ul_ok_def)
  moreover have "ul_ok n (root, UpdateNode i v head)"
    using assms unfolding ul by (auto simp: ul_ok_def)
  ultimately show ?thesis
    by (rule that) (simp_all add: ul ul_byte_def)
qed

text \<open>The value in an update list as a fold over its writes.\<close>

definition apply_write :: "env \<Rightarrow> int \<Rightarrow> expr \<times> expr \<Rightarrow> int \<Rightarrow> int" where
  "apply_write \<rho> j w b = (if eval \<rho> (fst w) = j then eval \<rho> (snd w) else b)"

lemma evalU_fold: "evalU \<rho> a j us = fold (apply_write \<rho> j) (oldest_first us) (initial_value \<rho> a (nat j))"
  by (induction us rule: updates_induct) (simp_all add: apply_write_def)

lemma wtU_oldest_first:
  "wtU a us \<longleftrightarrow> (\<forall>(i, v) \<in> set (oldest_first us). wt i \<and> wt v \<and> getWidth i = arr_domain a \<and> getWidth v = arr_range a)"
  by (induction us rule: updates_induct) auto

definition bytes_ok :: "nat \<Rightarrow> apint list \<Rightarrow> bool" where
  "bytes_ok n contents \<longleftrightarrow> length contents = n \<and> (\<forall>c \<in> set contents. apint_ok c \<and> getBitWidth c = Int8)"

lemma push_concrete_Some:
  assumes "bytes_ok n contents" "n < 2 ^ 32"
    and "\<And>i v. (i, v) \<in> set ws \<Longrightarrow> wt i \<and> wt v \<and> getWidth i = Int32 \<and> getWidth v = Int8"
    and "\<And>i v c. (i, v) \<in> set ws \<Longrightarrow> i = ConstantExpr c \<Longrightarrow> uval c < int n"
  shows "\<exists>contents' rest. push_concrete ws contents = Some (contents', rest) \<and> bytes_ok n contents' \<and>
    set rest \<subseteq> set ws \<and> (\<forall>\<rho> j. j < n \<longrightarrow>
      fold (apply_write \<rho> (int j)) ws (uval (contents ! j)) = fold (apply_write \<rho> (int j)) rest (uval (contents' ! j)))"
  using assms
proof (induction ws contents rule: push_concrete.induct)
  case (2 i v ws contents)
  show ?case
  proof (cases "isConst i \<and> isConst v")
    case True
    then obtain ci cv where iv: "i = ConstantExpr ci" "v = ConstantExpr cv" by (auto simp: isConst_asConst)
    let ?k = "nat (uval ci)"
    have c: "apint_ok ci" "getBitWidth ci = Int32" "apint_ok cv" "getBitWidth cv = Int8" "uval ci < int n"
      using "2.prems"(3) [of i v] "2.prems"(4) [of i v ci] iv by auto
    then have k: "0 \<le> uval ci" "?k < length contents"
      using "2.prems"(1) apint_okD(2) [of ci] by (auto simp: bytes_ok_def nat_less_iff)
    have ok: "bytes_ok n (contents[?k := cv])"
      using "2.prems"(1) c set_update_subset_insert [of contents ?k cv] by (auto simp: bytes_ok_def)
    have IH: "\<exists>contents' rest. push_concrete ws (contents[?k := cv]) = Some (contents', rest) \<and> bytes_ok n contents' \<and>
      set rest \<subseteq> set ws \<and> (\<forall>\<rho> j. j < n \<longrightarrow> fold (apply_write \<rho> (int j)) ws (uval (contents[?k := cv] ! j)) =
        fold (apply_write \<rho> (int j)) rest (uval (contents' ! j)))"
      using "2.IH" [of ci cv] iv k ok "2.prems" by (fastforce simp: getZExtValue_def)
    have "uval (contents[?k := cv] ! j) = apply_write \<rho> (int j) (i, v) (uval (contents ! j))" if "j < n" for j \<rho>
      using that k "2.prems"(1) iv by (auto simp: apply_write_def bytes_ok_def nth_list_update)
    with IH iv k show ?thesis by (auto simp: getZExtValue_def)
  next
    case False
    then have "push_concrete ((i, v) # ws) contents = Some (contents, (i, v) # ws)"
      by (auto simp: isConst_asConst split: option.split)
    with "2.prems"(1) show ?thesis by auto
  qed
qed auto

lemma extend_all_Some:
  assumes "ul_ok n (Some a, head)"
    and "\<And>i v. (i, v) \<in> set ws \<Longrightarrow> wt i \<and> wt v \<and> getWidth i = Int32 \<and> getWidth v = Int8"
  shows "\<exists>head'. extend_all ws (Some a, head) = Some (Some a, head') \<and> ul_ok n (Some a, head') \<and>
    oldest_first head' = oldest_first head @ ws"
  using assms
proof (induction ws arbitrary: head)
  case (Cons w ws)
  obtain i v where w: "w = (i, v)" by (cases w)
  have "UpdateList_extend i v (Some a, head) = Some (Some a, UpdateNode i v head)"
    using Cons.prems(1) Cons.prems(2) [of i v] w by (simp add: UpdateList_extend_def ul_ok_def)
  moreover have "ul_ok n (Some a, UpdateNode i v head)"
    using Cons.prems(1) Cons.prems(2) [of i v] w by (simp add: ul_ok_def)
  ultimately show ?case
    using Cons.IH [of "UpdateNode i v head"] Cons.prems(2) w by fastforce
qed simp


lemma fold_apply_cong: "fold (apply_write \<rho> j) ws b = fold (apply_write \<rho> j) ws b'" if "b = b'"
  using that by simp

lemma CreateArray_constant:
  assumes "bytes_ok n contents" "n < 2 ^ 32" "n > 0"
  shows "\<exists>a cache'. CreateArray name n contents Int32 Int8 cache = Some (a, cache') \<and> array_ok a \<and> arr_domain a = Int32 \<and>
    arr_range a = Int8 \<and> arr_size a = n \<and> isConstantArray a \<and> constantValues a = contents"
proof -
  have n: "take_bit 32 n = n" using assms(2) by (simp add: take_bit_nat_eq_self)
  from assms show ?thesis
    by (auto simp: CreateArray_def Let_def n bytes_ok_def array_ok_def isSymbolicArray_def isConstantArray_def
        list_ex_iff)
qed

text \<open>Creating the array of an object changes none of its bytes.\<close>

lemma getUpdates_Some:
  assumes "ul_ok (os_size os) (os_updates os)" "os_size os < 2 ^ 32" "0 < os_size os"
  obtains root head w' where
    "getUpdates (w, os) = Some ((root, head), w', os\<lparr>os_updates := (Some root, head)\<rparr>)"
    "ul_ok (os_size os) (Some root, head)"
    "\<And>\<rho> j. j < os_size os \<Longrightarrow>
       ul_byte \<rho> (os_size os) (Some root, head) (int j) = ul_byte \<rho> (os_size os) (os_updates os) (int j)"
proof (cases "os_updates os")
  case (Pair r head)
  let ?n = "os_size os"
  show ?thesis
  proof (cases r)
    case (Some root)
    have "os\<lparr>os_updates := (Some root, head)\<rparr> = os" using Pair Some by simp
    then show ?thesis using that [of root head w] Pair Some assms by (simp add: getUpdates_def)
  next
    case None
    let ?ws = "oldest_first head" and ?zeros = "replicate ?n (mkAPInt Int8 0)"
    note ok = assms(1) [unfolded Pair None ul_ok_def fst_conv snd_conv]
    have ws: "wt i \<and> wt v \<and> getWidth i = Int32 \<and> getWidth v = Int8" if "(i, v) \<in> set ?ws" for i v
      using ok that by (auto simp: wtU_oldest_first)
    have bound: "uval c < int ?n" if "(i, v) \<in> set ?ws" "i = ConstantExpr c" for i v c
      using ok that by auto
    have zeros: "bytes_ok ?n ?zeros" by (auto simp: bytes_ok_def)
    have "\<exists>contents rest. push_concrete ?ws ?zeros = Some (contents, rest) \<and> bytes_ok ?n contents \<and> set rest \<subseteq> set ?ws \<and>
      (\<forall>\<rho> j. j < ?n \<longrightarrow> fold (apply_write \<rho> (int j)) ?ws (uval (?zeros ! j)) =
        fold (apply_write \<rho> (int j)) rest (uval (contents ! j)))"
      by (rule push_concrete_Some [OF zeros assms(2)]) (use ws bound in blast)+
    then obtain contents rest where
      push: "push_concrete ?ws ?zeros = Some (contents, rest)" "bytes_ok ?n contents" "set rest \<subseteq> set ?ws"
      and same: "\<And>\<rho> j. j < ?n \<Longrightarrow> fold (apply_write \<rho> (int j)) ?ws (uval (?zeros ! j)) =
        fold (apply_write \<rho> (int j)) rest (uval (contents ! j))"
      by blast
    from CreateArray_constant [OF push(2) assms(2,3)] obtain a cache' where
      a: "CreateArray (''const_arr'' @ utostr (const_arr_id w + 1)) ?n contents Int32 Int8 (mw_cache w) = Some (a, cache')"
        "array_ok a" "arr_domain a = Int32" "arr_range a = Int8" "arr_size a = ?n" "isConstantArray a"
        "constantValues a = contents"
      by blast
    have "ul_ok ?n (Some a, NullNode)" using a by (simp add: ul_ok_def)
    then obtain head' where ext: "extend_all rest (Some a, NullNode) = Some (Some a, head')" "ul_ok ?n (Some a, head')"
        "oldest_first head' = rest"
      using extend_all_Some [of ?n a NullNode rest] ws push(3) by fastforce
    have "ul_byte \<rho> ?n (Some a, head') (int j) = ul_byte \<rho> ?n (None, head) (int j)" if "j < ?n" for \<rho> j
    proof -
      have "isConstantArray (base_array ?n None)" using that
        by (simp add: base_array_def isConstantArray_def isSymbolicArray_def)
      then have "initial_value \<rho> (base_array ?n None) j = uval (?zeros ! j)"
        using that by (simp add: initial_value_def base_array_def)
      moreover have "initial_value \<rho> a j = uval (contents ! j)"
        using a that by (simp add: initial_value_def)
      ultimately show ?thesis
        using same [OF that] ext(3) by (simp add: ul_byte_def evalU_fold)
    qed
    moreover have "getUpdates (w, os) = Some ((a, head'), w\<lparr>mw_cache := cache', const_arr_id := const_arr_id w + 1\<rparr>,
        os\<lparr>os_updates := (Some a, head')\<rparr>)"
      using push(1) a(1) ext(1) by (simp add: getUpdates_def Pair None)
    ultimately show ?thesis using that ext(2) Pair None by simp
  qed
qed

lemma getUpdates_inv:
  assumes "os_inv os" "0 < os_size os"
  obtains root head w' os' where
    "getUpdates (w, os) = Some ((root, head), w', os')" "os_inv os'" "os' = os\<lparr>os_updates := (Some root, head)\<rparr>"
    "\<And>\<rho> j. j < os_size os \<Longrightarrow> os_byte \<rho> os' j = os_byte \<rho> os j"
proof -
  let ?n = "os_size os"
  from assms have inv: "masks_ok os" "ul_ok ?n (os_updates os)" "\<And>j. j < ?n \<Longrightarrow> byte_ok os j" "?n < 2 ^ 32"
    by (auto simp: os_inv_def masks_ok_def)
  obtain root head w' where g: "getUpdates (w, os) = Some ((root, head), w', os\<lparr>os_updates := (Some root, head)\<rparr>)"
    "ul_ok ?n (Some root, head)"
    and same: "\<And>\<rho> j. j < ?n \<Longrightarrow> ul_byte \<rho> ?n (Some root, head) (int j) = ul_byte \<rho> ?n (os_updates os) (int j)"
    using getUpdates_Some [OF inv(2,4) assms(2), where w = w] by metis
  let ?os' = "os\<lparr>os_updates := (Some root, head)\<rparr>"
  have views: "isByteConcrete ?os' = isByteConcrete os" "isByteFlushed ?os' = isByteFlushed os"
    "knownSymbolic ?os' = knownSymbolic os"
    by (simp_all add: fun_eq_iff isByteConcrete_def isByteFlushed_def knownSymbolic_def)
  have byte: "os_byte \<rho> ?os' j = os_byte \<rho> os j" if "j < ?n" for \<rho> j
    using same [OF that] views by (simp add: os_byte_def split: option.split)
  have "byte_ok ?os' j" if "j < ?n" for j
    using inv(3) [OF that] byte [OF that] same [OF that] views by (auto simp: byte_ok_def isByteKnownSymbolic_def)
  then have "os_inv ?os'" using inv(1) g(2) by (simp add: os_inv_def masks_ok_def)
  with g(1) byte that show ?thesis by blast
qed


subsection \<open>What the marks do to a byte\<close>

named_theorems os_views "where a byte is found after a mark"

lemma masks_ok_marks [os_views]:
  assumes "masks_ok os"
  shows "masks_ok (markByteConcrete i os)" "masks_ok (markByteSymbolic i os)" "masks_ok (markByteUnflushed i os)"
    "masks_ok (unset_flush i os)" "masks_ok (setKnownSymbolic i v os)" "masks_ok (ensure_flushMask os)"
  using assms by (auto simp: masks_ok_def markByteConcrete_def markByteSymbolic_def markByteUnflushed_def unset_flush_def
      setKnownSymbolic_def ensure_flushMask_def split: option.splits if_splits)

lemma marks_fields [os_views]:
  "os_size (markByteConcrete i os) = os_size os" "os_size (markByteSymbolic i os) = os_size os"
  "os_size (markByteUnflushed i os) = os_size os" "os_size (unset_flush i os) = os_size os"
  "os_size (setKnownSymbolic i v os) = os_size os" "os_size (ensure_flushMask os) = os_size os"
  "os_updates (markByteConcrete i os) = os_updates os" "os_updates (markByteSymbolic i os) = os_updates os"
  "os_updates (markByteUnflushed i os) = os_updates os" "os_updates (unset_flush i os) = os_updates os"
  "os_updates (setKnownSymbolic i v os) = os_updates os" "os_updates (ensure_flushMask os) = os_updates os"
  "concreteStore (markByteConcrete i os) = concreteStore os" "concreteStore (markByteSymbolic i os) = concreteStore os"
  "concreteStore (markByteUnflushed i os) = concreteStore os" "concreteStore (unset_flush i os) = concreteStore os"
  "concreteStore (setKnownSymbolic i v os) = concreteStore os" "concreteStore (ensure_flushMask os) = concreteStore os"
  by (simp_all add: markByteConcrete_def markByteSymbolic_def markByteUnflushed_def unset_flush_def
      setKnownSymbolic_def ensure_flushMask_def)

lemma marks_concrete [os_views]:
  assumes "masks_ok os" "i < os_size os"
  shows "isByteConcrete (markByteConcrete i os) j \<longleftrightarrow> j = i \<or> isByteConcrete os j"
    "j < os_size os \<Longrightarrow> isByteConcrete (markByteSymbolic i os) j \<longleftrightarrow> j \<noteq> i \<and> isByteConcrete os j"
  using assms by (auto simp: isByteConcrete_def markByteConcrete_def markByteSymbolic_def ba_get_set ba_get_unset
      ba_get_unset [OF ba_ok_ops(1)] ba_get_new masks_ok_def split: option.split)

lemma marks_flushed [os_views]:
  assumes "masks_ok os" "i < os_size os"
  shows "isByteFlushed (markByteUnflushed i os) j \<longleftrightarrow> j \<noteq> i \<and> isByteFlushed os j"
    "flushMask os \<noteq> None \<Longrightarrow> isByteFlushed (unset_flush i os) j \<longleftrightarrow> j = i \<or> isByteFlushed os j"
  using assms by (auto simp: isByteFlushed_def markByteUnflushed_def unset_flush_def ba_get_set ba_get_unset masks_ok_def
      split: option.split)

lemma marks_known [os_views]:
  assumes "masks_ok os" "i < os_size os" "j < os_size os"
  shows "knownSymbolic (setKnownSymbolic i v os) j = (if j = i then v else knownSymbolic os j)"
  using assms by (auto simp: knownSymbolic_def setKnownSymbolic_def masks_ok_def nth_list_update split: option.split)

lemma marks_elsewhere [os_views]:
  "isByteConcrete (markByteUnflushed i os) = isByteConcrete os" "isByteConcrete (unset_flush i os) = isByteConcrete os"
  "isByteConcrete (setKnownSymbolic i v os) = isByteConcrete os" "isByteConcrete (ensure_flushMask os) = isByteConcrete os"
  "isByteFlushed (markByteConcrete i os) = isByteFlushed os" "isByteFlushed (markByteSymbolic i os) = isByteFlushed os"
  "isByteFlushed (setKnownSymbolic i v os) = isByteFlushed os"
  "knownSymbolic (markByteConcrete i os) = knownSymbolic os" "knownSymbolic (markByteSymbolic i os) = knownSymbolic os"
  "knownSymbolic (markByteUnflushed i os) = knownSymbolic os" "knownSymbolic (unset_flush i os) = knownSymbolic os"
  "knownSymbolic (ensure_flushMask os) = knownSymbolic os"
  by (simp_all add: fun_eq_iff isByteConcrete_def isByteFlushed_def knownSymbolic_def markByteConcrete_def markByteSymbolic_def
      markByteUnflushed_def unset_flush_def setKnownSymbolic_def ensure_flushMask_def)

lemma ensure_flushed [os_views]: "j < os_size os \<Longrightarrow> isByteFlushed (ensure_flushMask os) j = isByteFlushed os j"
  by (simp add: isByteFlushed_def ensure_flushMask_def ba_get_new split: option.split)

lemma flushMask_fields [os_views]:
  "flushMask (ensure_flushMask os) \<noteq> None" "flushMask (unset_flush i os) = None \<longleftrightarrow> flushMask os = None"
  "flushMask (markByteSymbolic i os) = flushMask os" "flushMask (setKnownSymbolic i v os) = flushMask os"
  by (simp_all add: ensure_flushMask_def unset_flush_def markByteSymbolic_def setKnownSymbolic_def)

lemma updates_elsewhere [os_views]:
  "isByteConcrete (os\<lparr>os_updates := ul\<rparr>) = isByteConcrete os" "isByteFlushed (os\<lparr>os_updates := ul\<rparr>) = isByteFlushed os"
  "knownSymbolic (os\<lparr>os_updates := ul\<rparr>) = knownSymbolic os" "masks_ok (os\<lparr>os_updates := ul\<rparr>) = masks_ok os"
  "isByteConcrete (os\<lparr>concreteStore := st\<rparr>) = isByteConcrete os" "isByteFlushed (os\<lparr>concreteStore := st\<rparr>) = isByteFlushed os"
  "knownSymbolic (os\<lparr>concreteStore := st\<rparr>) = knownSymbolic os"
  by (simp_all add: fun_eq_iff isByteConcrete_def isByteFlushed_def knownSymbolic_def masks_ok_def)

text \<open>
  One rule for all operations on a byte: the invariant and the bytes of the new state follow byte by byte.
\<close>

definition os_step :: "object_state \<Rightarrow> object_state \<Rightarrow> (env \<Rightarrow> nat \<Rightarrow> int) \<Rightarrow> bool" where
  "os_step os os' f \<longleftrightarrow> os_inv os' \<and> os_size os' = os_size os \<and> (\<forall>\<rho> j. j < os_size os \<longrightarrow> os_byte \<rho> os' j = f \<rho> j)"

lemma os_stepI:
  assumes "masks_ok os'" "os_size os' = os_size os" "ul_ok (os_size os) (os_updates os')"
    and "\<And>j. j < os_size os \<Longrightarrow> byte_ok os' j"
    and "\<And>j \<rho>. j < os_size os \<Longrightarrow> os_byte \<rho> os' j = f \<rho> j"
  shows "os_step os os' f"
  using assms by (simp add: os_step_def os_inv_def)

lemma os_stepD:
  assumes "os_step os os' f"
  shows "os_inv os'" "os_size os' = os_size os" "j < os_size os \<Longrightarrow> os_byte \<rho> os' j = f \<rho> j"
  using assms by (simp_all add: os_step_def)

lemma os_step_refl: "os_inv os \<Longrightarrow> os_step os os (\<lambda>\<rho>. os_byte \<rho> os)"
  by (simp add: os_step_def)

lemma os_step_trans: "os_step os os' f \<Longrightarrow> os_step os' os'' g \<Longrightarrow> os_step os os'' g"
  by (simp add: os_step_def)

lemma os_invD:
  assumes "os_inv os"
  shows "masks_ok os" "ul_ok (os_size os) (os_updates os)" "j < os_size os \<Longrightarrow> byte_ok os j" "os_size os < 2 ^ 32"
    "length (concreteStore os) = os_size os"
  using assms by (simp_all add: os_inv_def masks_ok_def)

lemma byte8_facts [simp]: "wt (byte8 b)" "getWidth (byte8 b) = Int8" "eval \<rho> (byte8 b) = uint b"
  using uint_range_size [of b] by (simp_all add: byte8_def take_bit_id word_size)

lemma index32_facts [simp]: "wt (index32 k)" "getWidth (index32 k) = Int32" "k < 2 ^ 32 \<Longrightarrow> eval \<rho> (index32 k) = int k"
  by (simp_all add: index32_def take_bit_id)

subsection \<open>Writing a byte at a constant offset\<close>

lemma write8_const_step:
  assumes "os_inv os" "k < os_size os"
  shows "\<exists>os'. write8_const k b os = Some os' \<and> os_step os os' (\<lambda>\<rho> j. if j = k then uint b else os_byte \<rho> os j)"
proof -
  let ?os' = "markByteUnflushed k (markByteConcrete k (setKnownSymbolic k None (os\<lparr>concreteStore := (concreteStore os)[k := b]\<rparr>)))"
  note inv = os_invD [OF assms(1)]
  have m: "masks_ok (os\<lparr>concreteStore := (concreteStore os)[k := b]\<rparr>)" using inv(1) by (simp add: masks_ok_def)
  note v = os_views m assms(2) inv
  have byte: "os_byte \<rho> ?os' j = (if j = k then uint b else os_byte \<rho> os j)" if "j < os_size os" for j \<rho>
    using that by (simp add: os_byte_def v split: option.split)
  have "os_step os ?os' (\<lambda>\<rho> j. if j = k then uint b else os_byte \<rho> os j)"
  proof (rule os_stepI)
    fix j assume j: "j < os_size os"
    show "byte_ok ?os' j"
      using inv(3) [OF j] j byte [OF j] by (auto simp: byte_ok_def isByteKnownSymbolic_def v)
  qed (use byte in \<open>simp_all add: v\<close>)
  then show ?thesis using assms(2) by (simp add: write8_const_def)
qed

lemma write8_step:
  assumes "os_inv os" "k < os_size os" "wt e" "getWidth e = Int8"
  shows "\<exists>os'. write8 k e os = Some os' \<and> os_step os os' (\<lambda>\<rho> j. if j = k then eval \<rho> e else os_byte \<rho> os j)"
proof (cases "asConst e")
  case (Some c)
  then have "uint (word_of_int (getZExtValue c) :: 8 word) = eval \<rho> e" for \<rho>
    using assms(3,4) apint_okD(4) [of c] by (simp add: getZExtValue_def uint_word_of_int_eq)
  then show ?thesis
    using write8_const_step [OF assms(1,2), of "word_of_int (getZExtValue c)"] Some
    by (simp add: write8_def cong: if_cong)
next
  case None
  let ?os' = "markByteUnflushed k (markByteSymbolic k (setKnownSymbolic k (Some e) os))"
  note inv = os_invD [OF assms(1)]
  note v = os_views assms(2) inv
  have byte: "os_byte \<rho> ?os' j = (if j = k then eval \<rho> e else os_byte \<rho> os j)" if "j < os_size os" for j \<rho>
    using that by (simp add: os_byte_def v split: option.split)
  have "os_step os ?os' (\<lambda>\<rho> j. if j = k then eval \<rho> e else os_byte \<rho> os j)"
  proof (rule os_stepI)
    fix j assume j: "j < os_size os"
    show "byte_ok ?os' j"
      using inv(3) [OF j] j byte [OF j] assms(3,4) by (auto simp: byte_ok_def isByteKnownSymbolic_def v)
  qed (use byte in \<open>simp_all add: v\<close>)
  then show ?thesis using None assms(2) by (simp add: write8_def)
qed


subsection \<open>Flushing\<close>

lemma flush_value:
  assumes "os_inv os" "i < os_size os" "\<not> isByteFlushed os i"
  obtains v where "wt v" "getWidth v = Int8" "\<And>\<rho>. eval \<rho> v = os_byte \<rho> os i"
    "(if isByteConcrete os i then Some (byte8 (concreteStore os ! i)) else knownSymbolic os i) = Some v"
proof (cases "isByteConcrete os i")
  case True
  then show ?thesis using that [of "byte8 (concreteStore os ! i)"] by (simp add: os_byte_def)
next
  case False
  with os_invD(3) [OF assms(1,2)] assms(3) obtain v where "knownSymbolic os i = Some v" "wt v" "getWidth v = Int8"
    by (auto simp: byte_ok_def isByteKnownSymbolic_def)
  then show ?thesis using that [of v] False by (simp add: os_byte_def)
qed

lemma flush_extend:
  assumes "os_inv os" "i < os_size os" "wt v" "getWidth v = Int8"
  obtains ul' where "UpdateList_extend (index32 i) v (os_updates os) = Some ul'" "ul_ok (os_size os) ul'"
    "\<And>\<rho> j. j < os_size os \<Longrightarrow> ul_byte \<rho> (os_size os) ul' (int j) =
       (if j = i then eval \<rho> v else ul_byte \<rho> (os_size os) (os_updates os) (int j))"
proof -
  note inv = os_invD [OF assms(1)]
  have i: "i < 2 ^ 32" using assms(2) inv(4) by linarith
  obtain ul' where "UpdateList_extend (index32 i) v (os_updates os) = Some ul'" "ul_ok (os_size os) ul'"
    "\<And>\<rho> j. ul_byte \<rho> (os_size os) ul' j =
       (if eval \<rho> (index32 i) = j then eval \<rho> v else ul_byte \<rho> (os_size os) (os_updates os) j)"
  proof (rule UpdateList_extend_Some [OF inv(2), of "index32 i" v])
    fix c assume "index32 i = ConstantExpr c"
    then show "uval c < int (os_size os)" using assms(2) i by (auto simp: index32_def take_bit_id)
  qed (use assms in auto)
  then show ?thesis using that i by auto
qed

lemma flush_byte_read_step:
  assumes "os_inv os" "i < os_size os" "flushMask os \<noteq> None"
  shows "\<exists>os'. flush_byte_read i os = Some os' \<and> os_step os os' (\<lambda>\<rho>. os_byte \<rho> os) \<and> flushMask os' \<noteq> None \<and>
    isByteFlushed os' i \<and> (\<forall>j. isByteFlushed os j \<longrightarrow> isByteFlushed os' j)"
proof (cases "isByteFlushed os i")
  case True
  then show ?thesis using assms by (simp add: flush_byte_read_def os_step_refl)
next
  case False
  note inv = os_invD [OF assms(1)]
  obtain v where v: "wt v" "getWidth v = Int8" "\<And>\<rho>. eval \<rho> v = os_byte \<rho> os i"
    "(if isByteConcrete os i then Some (byte8 (concreteStore os ! i)) else knownSymbolic os i) = Some v"
    using flush_value [OF assms(1,2) False] by metis
  obtain ul' where ul: "UpdateList_extend (index32 i) v (os_updates os) = Some ul'" "ul_ok (os_size os) ul'"
    "\<And>\<rho> j. j < os_size os \<Longrightarrow> ul_byte \<rho> (os_size os) ul' (int j) =
       (if j = i then eval \<rho> v else ul_byte \<rho> (os_size os) (os_updates os) (int j))"
    using flush_extend [OF assms(1,2) v(1,2)] by metis
  let ?os' = "unset_flush i (os\<lparr>os_updates := ul'\<rparr>)"
  note vs = os_views assms(2,3) inv
  have flushed: "isByteFlushed ?os' j \<longleftrightarrow> j = i \<or> isByteFlushed os j" for j
    using marks_flushed(2) [of "os\<lparr>os_updates := ul'\<rparr>" i j] by (simp add: vs)
  have byte: "os_byte \<rho> ?os' j = os_byte \<rho> os j" if "j < os_size os" for j \<rho>
    using that ul(3) [OF that] v(3) [of \<rho>] by (auto simp: os_byte_def vs split: option.splits if_splits)
  have "os_step os ?os' (\<lambda>\<rho>. os_byte \<rho> os)"
  proof (rule os_stepI)
    fix j assume j: "j < os_size os"
    show "byte_ok ?os' j"
      using inv(3) [OF j] j byte [OF j] ul(3) [OF j] v(3) flushed by (auto simp: byte_ok_def isByteKnownSymbolic_def vs)
  qed (use byte ul in \<open>simp_all add: vs\<close>)
  moreover have "flush_byte_read i os = Some ?os'"
    using v(4) ul(1) False by (auto simp: flush_byte_read_def split: if_splits)
  ultimately show ?thesis using flushed by (simp add: vs del: not_None_eq)
qed

lemma flush_byte_write_step:
  assumes "os_inv os" "i < os_size os" "flushMask os \<noteq> None"
  shows "\<exists>os'. flush_byte_write i os = Some os' \<and> os_step os os' (\<lambda>\<rho>. os_byte \<rho> os) \<and> flushMask os' \<noteq> None \<and>
    \<not> isByteConcrete os' i \<and> \<not> isByteKnownSymbolic os' i \<and>
    (\<forall>j < os_size os. \<not> isByteConcrete os j \<longrightarrow> \<not> isByteConcrete os' j) \<and>
    (\<forall>j < os_size os. \<not> isByteKnownSymbolic os j \<longrightarrow> \<not> isByteKnownSymbolic os' j)"
proof (cases "isByteFlushed os i")
  case True
  note inv = os_invD [OF assms(1)]
  note vs = os_views assms(2,3) inv
  let ?os' = "if isByteConcrete os i then markByteSymbolic i os
    else if isByteKnownSymbolic os i then setKnownSymbolic i None os else os"
  have same: "ul_byte \<rho> (os_size os) (os_updates os) (int i) = os_byte \<rho> os i" for \<rho>
    using inv(3) [OF assms(2)] True by (simp add: byte_ok_def)
  have known: "isByteConcrete os i \<Longrightarrow> knownSymbolic os i = None"
    using inv(3) [OF assms(2)] by (cases "knownSymbolic os i") (auto simp: byte_ok_def)
  have byte: "os_byte \<rho> ?os' j = os_byte \<rho> os j" if "j < os_size os" for j \<rho>
    using that same [of \<rho>] known by (auto simp: os_byte_def vs split: option.splits if_splits)
  have "os_step os ?os' (\<lambda>\<rho>. os_byte \<rho> os)"
  proof (rule os_stepI)
    fix j assume j: "j < os_size os"
    show "byte_ok ?os' j"
      using inv(3) [OF j] j byte [OF j] True same by (auto simp: byte_ok_def isByteKnownSymbolic_def vs)
  qed (use byte in \<open>auto simp: vs\<close>)
  moreover have "flush_byte_write i os = Some ?os'"
    using True by (simp add: flush_byte_write_def)
  ultimately show ?thesis
    using known assms by (auto simp: vs isByteKnownSymbolic_def simp del: not_None_eq)
next
  case False
  note inv = os_invD [OF assms(1)]
  obtain v where v: "wt v" "getWidth v = Int8" "\<And>\<rho>. eval \<rho> v = os_byte \<rho> os i"
    "(if isByteConcrete os i then Some (byte8 (concreteStore os ! i)) else knownSymbolic os i) = Some v"
    using flush_value [OF assms(1,2) False] by metis
  obtain ul' where ul: "UpdateList_extend (index32 i) v (os_updates os) = Some ul'" "ul_ok (os_size os) ul'"
    "\<And>\<rho> j. j < os_size os \<Longrightarrow> ul_byte \<rho> (os_size os) ul' (int j) =
       (if j = i then eval \<rho> v else ul_byte \<rho> (os_size os) (os_updates os) (int j))"
    using flush_extend [OF assms(1,2) v(1,2)] by metis
  let ?ul = "os\<lparr>os_updates := ul'\<rparr>"
  let ?m = "if isByteConcrete os i then markByteSymbolic i ?ul else setKnownSymbolic i None ?ul"
  let ?os' = "unset_flush i ?m"
  note vs = os_views assms(2,3) inv
  have m: "masks_ok ?m" "flushMask ?m \<noteq> None" "os_size ?m = os_size os" by (simp_all add: vs del: not_None_eq)
  have known: "isByteConcrete os i \<Longrightarrow> knownSymbolic os i = None"
    using inv(3) [OF assms(2)] by (cases "knownSymbolic os i") (auto simp: byte_ok_def)
  have flushed: "isByteFlushed ?os' j \<longleftrightarrow> j = i \<or> isByteFlushed os j" for j
    using marks_flushed(2) [OF m(1), of i j] m assms(2) by (simp add: vs)
  have conc: "isByteConcrete ?os' j \<longleftrightarrow> j \<noteq> i \<and> isByteConcrete os j" if "j < os_size os" for j
    using marks_concrete(2) [of ?ul i j] that by (cases "j = i") (simp_all add: vs)
  have kn: "knownSymbolic ?os' j = (if j = i then None else knownSymbolic os j)" if "j < os_size os" for j
    using marks_known [of ?ul i j None] that known by (cases "j = i") (simp_all add: vs)
  have byte: "os_byte \<rho> ?os' j = os_byte \<rho> os j" if "j < os_size os" for j \<rho>
    using that ul(3) [OF that] v(3) [of \<rho>] by (auto simp: os_byte_def conc kn known vs split: option.splits)
  have "os_step os ?os' (\<lambda>\<rho>. os_byte \<rho> os)"
  proof (rule os_stepI)
    fix j assume j: "j < os_size os"
    show "byte_ok ?os' j"
      using inv(3) [OF j] j byte [OF j] ul(3) [OF j] v(3) flushed
      by (auto simp: byte_ok_def isByteKnownSymbolic_def conc kn vs)
  qed (use byte ul in \<open>simp_all add: vs\<close>)
  moreover have "flush_byte_write i os = Some ?os'"
    using v(4) ul(1) False by (auto simp: flush_byte_write_def split: if_splits)
  ultimately show ?thesis
    using assms(2) by (auto simp: conc kn known vs isByteKnownSymbolic_def simp del: not_None_eq)
qed


lemma ensure_flushMask_step: "os_inv os \<Longrightarrow> os_step os (ensure_flushMask os) (\<lambda>\<rho>. os_byte \<rho> os)"
proof (rule os_stepI)
  assume inv: "os_inv os"
  note vs = os_views os_invD [OF inv]
  have byte: "os_byte \<rho> (ensure_flushMask os) j = os_byte \<rho> os j" for \<rho> j
    by (simp add: os_byte_def vs split: option.split)
  then show "\<And>\<rho> j. os_byte \<rho> (ensure_flushMask os) j = os_byte \<rho> os j" .
  fix j assume "j < os_size os"
  with os_invD(3) [OF inv this] byte show "byte_ok (ensure_flushMask os) j"
    by (simp add: byte_ok_def isByteKnownSymbolic_def vs)
qed (simp_all add: os_views os_invD)

lemma flush_read_all:
  assumes "os_inv os" "flushMask os \<noteq> None" "set is \<subseteq> {..<os_size os}"
  shows "\<exists>os'. flush_bytes flush_byte_read is os = Some os' \<and> os_step os os' (\<lambda>\<rho>. os_byte \<rho> os) \<and>
    (\<forall>j. j \<in> set is \<or> isByteFlushed os j \<longrightarrow> isByteFlushed os' j)"
  using assms
proof (induction "is" arbitrary: os)
  case Nil
  then show ?case by (simp add: os_step_refl)
next
  case (Cons i "is")
  from Cons.prems obtain os1 where 1: "flush_byte_read i os = Some os1" "os_step os os1 (\<lambda>\<rho>. os_byte \<rho> os)"
    "flushMask os1 \<noteq> None" "isByteFlushed os1 i" "\<And>j. isByteFlushed os j \<Longrightarrow> isByteFlushed os1 j"
    using flush_byte_read_step [of os i] by auto
  from Cons.IH [of os1] Cons.prems(3) 1(3) os_stepD(1,2) [OF 1(2)] obtain os2 where
    2: "flush_bytes flush_byte_read is os1 = Some os2" "os_step os1 os2 (\<lambda>\<rho>. os_byte \<rho> os1)"
      "\<And>j. j \<in> set is \<or> isByteFlushed os1 j \<Longrightarrow> isByteFlushed os2 j"
    by auto
  have "os_step os os2 (\<lambda>\<rho>. os_byte \<rho> os)"
    using 1(2) 2(2) by (simp add: os_step_def)
  with 1 2 show ?case by auto
qed

lemma flush_write_all:
  assumes "os_inv os" "flushMask os \<noteq> None" "set is \<subseteq> {..<os_size os}"
  shows "\<exists>os'. flush_bytes flush_byte_write is os = Some os' \<and> os_step os os' (\<lambda>\<rho>. os_byte \<rho> os) \<and>
    (\<forall>j < os_size os. j \<in> set is \<or> \<not> isByteConcrete os j \<longrightarrow> \<not> isByteConcrete os' j) \<and>
    (\<forall>j < os_size os. j \<in> set is \<or> \<not> isByteKnownSymbolic os j \<longrightarrow> \<not> isByteKnownSymbolic os' j)"
  using assms
proof (induction "is" arbitrary: os)
  case Nil
  then show ?case by (simp add: os_step_refl)
next
  case (Cons i "is")
  from Cons.prems have i: "i < os_size os" by simp
  from flush_byte_write_step [OF Cons.prems(1) i Cons.prems(2)] obtain os1 where
    1: "flush_byte_write i os = Some os1" "os_step os os1 (\<lambda>\<rho>. os_byte \<rho> os)" "flushMask os1 \<noteq> None"
      "\<not> isByteConcrete os1 i" "\<not> isByteKnownSymbolic os1 i"
      "\<And>j. j < os_size os \<Longrightarrow> \<not> isByteConcrete os j \<Longrightarrow> \<not> isByteConcrete os1 j"
      "\<And>j. j < os_size os \<Longrightarrow> \<not> isByteKnownSymbolic os j \<Longrightarrow> \<not> isByteKnownSymbolic os1 j"
    by blast
  note s1 = os_stepD(1,2) [OF 1(2)]
  have "set is \<subseteq> {..<os_size os1}" using Cons.prems(3) s1(2) by simp
  from Cons.IH [OF s1(1) 1(3) this] obtain os2 where
    2: "flush_bytes flush_byte_write is os1 = Some os2" "os_step os1 os2 (\<lambda>\<rho>. os_byte \<rho> os1)"
      "\<And>j. j < os_size os \<Longrightarrow> j \<in> set is \<or> \<not> isByteConcrete os1 j \<Longrightarrow> \<not> isByteConcrete os2 j"
      "\<And>j. j < os_size os \<Longrightarrow> j \<in> set is \<or> \<not> isByteKnownSymbolic os1 j \<Longrightarrow> \<not> isByteKnownSymbolic os2 j"
    unfolding s1(2) by blast
  have "os_step os os2 (\<lambda>\<rho>. os_byte \<rho> os)"
    using 1(2) 2(2) by (simp add: os_step_def)
  moreover have "\<not> isByteConcrete os2 j" if "j < os_size os" "j \<in> set (i # is) \<or> \<not> isByteConcrete os j" for j
    using 2(3) [OF that(1)] 1(4) 1(6) [OF that(1)] that(2) by auto
  moreover have "\<not> isByteKnownSymbolic os2 j" if "j < os_size os" "j \<in> set (i # is) \<or> \<not> isByteKnownSymbolic os j" for j
    using 2(4) [OF that(1)] 1(5) 1(7) [OF that(1)] that(2) by auto
  ultimately show ?case using 1(1) 2(1) by auto
qed

lemma flushRangeForRead_all:
  assumes "os_inv os"
  shows "\<exists>os'. flushRangeForRead 0 (os_size os) os = Some os' \<and> os_step os os' (\<lambda>\<rho>. os_byte \<rho> os) \<and>
    (\<forall>j < os_size os. isByteFlushed os' j)"
proof -
  note e = ensure_flushMask_step [OF assms]
  have "set [0..<os_size os] \<subseteq> {..<os_size (ensure_flushMask os)}" by (auto simp: os_views)
  from flush_read_all [OF os_stepD(1) [OF e] flushMask_fields(1) this] obtain os' where
    "flush_bytes flush_byte_read [0..<os_size os] (ensure_flushMask os) = Some os'"
    "os_step (ensure_flushMask os) os' (\<lambda>\<rho>. os_byte \<rho> (ensure_flushMask os))" "\<forall>j < os_size os. isByteFlushed os' j"
    by auto
  with e show ?thesis by (auto simp: flushRangeForRead_def os_step_def)
qed

lemma flushRangeForWrite_all:
  assumes "os_inv os"
  shows "\<exists>os'. flushRangeForWrite 0 (os_size os) os = Some os' \<and> os_step os os' (\<lambda>\<rho>. os_byte \<rho> os) \<and>
    (\<forall>j < os_size os. \<not> isByteConcrete os' j \<and> knownSymbolic os' j = None)"
proof -
  note e = ensure_flushMask_step [OF assms]
  have "set [0..<os_size os] \<subseteq> {..<os_size (ensure_flushMask os)}" by (auto simp: os_views)
  from flush_write_all [OF os_stepD(1) [OF e] flushMask_fields(1) this] obtain os' where
    "flush_bytes flush_byte_write [0..<os_size os] (ensure_flushMask os) = Some os'"
    "os_step (ensure_flushMask os) os' (\<lambda>\<rho>. os_byte \<rho> (ensure_flushMask os))"
    "\<forall>j < os_size os. \<not> isByteConcrete os' j \<and> knownSymbolic os' j = None"
    by (auto simp: os_views isByteKnownSymbolic_def)
  with e show ?thesis by (auto simp: flushRangeForWrite_def os_step_def)
qed


subsection \<open>Reading and writing a byte: the outcome\<close>

text \<open>
  A read returns an expression of one byte whose value is that of the byte read, and changes no byte of the object,
  although it may flush and create arrays.
\<close>

definition reads :: "object_state \<Rightarrow> (env \<Rightarrow> int \<Rightarrow> bool) \<Rightarrow> expr \<times> mem_world \<times> object_state \<Rightarrow> bool" where
  "reads os P res \<longleftrightarrow>
     (case res of (e, w', os') \<Rightarrow> os_step os os' (\<lambda>\<rho>. os_byte \<rho> os) \<and> wt e \<and> getWidth e = Int8 \<and> (\<forall>\<rho>. P \<rho> (eval \<rho> e)))"

lemma read_updates_equiv:
  assumes "ul_ok n (Some root, head)" "wt i" "getWidth i = Int32"
  shows "expr_equiv (Read_create root head i) (ReadExpr root head i)"
  using assms by (intro Read_create_equiv) (simp add: ul_ok_def)

lemma read8_step:
  assumes "os_inv os" "k < os_size os"
  shows "\<exists>r. read8 k (w, os) = Some r \<and> reads os (\<lambda>\<rho> v. v = os_byte \<rho> os k) r"
proof -
  note inv = os_invD [OF assms(1)]
  note refl = os_step_refl [OF assms(1)]
  consider (concrete) "isByteConcrete os k" | (known) v where "\<not> isByteConcrete os k" "knownSymbolic os k = Some v"
    | (updates) "\<not> isByteConcrete os k" "knownSymbolic os k = None" by blast
  then show ?thesis
  proof cases
    case concrete
    then show ?thesis using assms(2) refl by (simp add: read8_def reads_def os_byte_def)
  next
    case (known v)
    then show ?thesis using assms(2) refl inv(3) [OF assms(2)]
      by (simp add: read8_def reads_def os_byte_def byte_ok_def)
  next
    case updates
    then have fl: "isByteFlushed os k" using inv(3) [OF assms(2)] by (auto simp: byte_ok_def isByteKnownSymbolic_def)
    obtain root head w' os' where g: "getUpdates (w, os) = Some ((root, head), w', os')" "os_inv os'"
      "os' = os\<lparr>os_updates := (Some root, head)\<rparr>" "\<And>\<rho> j. j < os_size os \<Longrightarrow> os_byte \<rho> os' j = os_byte \<rho> os j"
      using getUpdates_inv [OF assms(1), where w = w] assms(2) by (metis gr_zeroI not_less_zero)
    have k: "k < 2 ^ 32" using assms(2) inv(4) by linarith
    have eq: "expr_equiv (Read_create root head (index32 k)) (ReadExpr root head (index32 k))"
      using os_invD(2) [OF g(2)] by (intro read_updates_equiv [where n = "os_size os"]) (simp_all add: g(3))
    have "eval \<rho> (Read_create root head (index32 k)) = os_byte \<rho> os k" for \<rho>
    proof -
      have "eval \<rho> (Read_create root head (index32 k)) = evalU \<rho> root (int k) head"
        using expr_equivD(3) [OF eq] k by simp
      also have "\<dots> = os_byte \<rho> os' k"
        using updates by (simp add: os_byte_def g(3) os_views ul_byte_def)
      finally show ?thesis using g(4) [OF assms(2)] by simp
    qed
    moreover have "read8 k (w, os) = Some (Read_create root head (index32 k), w', os')"
      using updates fl g(1) assms(2) by (simp add: read8_def)
    moreover have "os_step os os' (\<lambda>\<rho>. os_byte \<rho> os)" using g by (simp add: os_step_def)
    moreover have "getWidth (Read_create root head (index32 k)) = Int8"
      using expr_equivD(2) [OF eq] os_invD(2) [OF g(2)] by (simp add: g(3) ul_ok_def)
    ultimately show ?thesis using expr_equivD(1) [OF eq] by (simp add: reads_def)
  qed
qed

lemma ZExt_same: "getWidth e = w \<Longrightarrow> ZExt_create e w = e"
  by (simp add: ZExt_create_def)

lemma read8_symbolic_step:
  assumes "os_inv os" "0 < os_size os" "wt off" "getWidth off = Int32" "\<not> isConst off"
  shows "\<exists>r. read8_symbolic off (w, os) = Some r \<and>
    reads os (\<lambda>\<rho> v. eval \<rho> off < int (os_size os) \<longrightarrow> v = os_byte \<rho> os (nat (eval \<rho> off))) r"
proof -
  obtain os1 where fl: "flushRangeForRead 0 (os_size os) os = Some os1" "os_step os os1 (\<lambda>\<rho>. os_byte \<rho> os)"
    "\<And>j. j < os_size os \<Longrightarrow> isByteFlushed os1 j"
    using flushRangeForRead_all [OF assms(1)] by blast
  note s1 = os_stepD [OF fl(2)]
  obtain root head w' os2 where g: "getUpdates (w, os1) = Some ((root, head), w', os2)" "os_inv os2"
    "os2 = os1\<lparr>os_updates := (Some root, head)\<rparr>" "\<And>\<rho> j. j < os_size os \<Longrightarrow> os_byte \<rho> os2 j = os_byte \<rho> os1 j"
    using getUpdates_inv [OF s1(1), where w = w] assms(2) s1(2) by metis
  have step: "os_step os os2 (\<lambda>\<rho>. os_byte \<rho> os)" using g s1 by (simp add: os_step_def)
  have eq: "expr_equiv (Read_create root head off) (ReadExpr root head off)"
    using os_invD(2) [OF g(2)] assms by (intro read_updates_equiv [where n = "os_size os"]) (simp_all add: g(3) s1(2))
  have "eval \<rho> (Read_create root head off) = os_byte \<rho> os (nat (eval \<rho> off))" if "eval \<rho> off < int (os_size os)" for \<rho>
  proof -
    let ?k = "nat (eval \<rho> off)"
    have k: "?k < os_size os" "int ?k = eval \<rho> off"
      using that eval_range(2) [OF assms(3)] by (simp_all add: nat_less_iff)
    have "eval \<rho> (Read_create root head off) = ul_byte \<rho> (os_size os2) (os_updates os2) (int ?k)"
      using expr_equivD(3) [OF eq] k by (simp add: ul_byte_def g(3))
    also have "\<dots> = os_byte \<rho> os2 ?k"
      using os_invD(3) [OF g(2), of ?k] fl(3) [OF k(1)] k(1) by (simp add: byte_ok_def g(3) os_views s1(2))
    also have "\<dots> = os_byte \<rho> os ?k" using os_stepD(3) [OF step k(1)] .
    finally show ?thesis .
  qed
  moreover have "read8_symbolic off (w, os) = Some (Read_create root head off, w', os2)"
    using fl(1) g(1) assms by (simp add: read8_symbolic_def fastRangeCheckOffset_def ZExt_same)
  moreover have "getWidth (Read_create root head off) = Int8"
    using expr_equivD(2) [OF eq] os_invD(2) [OF g(2)] by (simp add: g(3) ul_ok_def)
  ultimately show ?thesis using expr_equivD(1) [OF eq] step by (simp add: reads_def)
qed

lemma write8_symbolic_step:
  assumes "os_inv os" "wt off" "getWidth off = Int32" "\<not> isConst off" "wt v" "getWidth v = Int8"
  shows "\<exists>os'. write8_symbolic off v os = Some os' \<and>
    os_step os os' (\<lambda>\<rho> j. if int j = eval \<rho> off then eval \<rho> v else os_byte \<rho> os j)"
proof -
  obtain os1 where fl: "flushRangeForWrite 0 (os_size os) os = Some os1" "os_step os os1 (\<lambda>\<rho>. os_byte \<rho> os)"
    "\<And>j. j < os_size os \<Longrightarrow> \<not> isByteConcrete os1 j \<and> knownSymbolic os1 j = None"
    using flushRangeForWrite_all [OF assms(1)] by blast
  note s1 = os_stepD [OF fl(2)]
  note inv1 = os_invD [OF s1(1), unfolded s1(2)]
  obtain ul' where ul: "UpdateList_extend off v (os_updates os1) = Some ul'" "ul_ok (os_size os) ul'"
    "\<And>\<rho> j. ul_byte \<rho> (os_size os) ul' j = (if eval \<rho> off = j then eval \<rho> v else ul_byte \<rho> (os_size os) (os_updates os1) j)"
    using UpdateList_extend_Some [OF inv1(2) assms(2,5,3,6)] assms(4) by (metis isConst.simps(1))
  let ?os' = "os1\<lparr>os_updates := ul'\<rparr>"
  have byte: "os_byte \<rho> ?os' j = (if int j = eval \<rho> off then eval \<rho> v else os_byte \<rho> os j)" if "j < os_size os" for j \<rho>
  proof -
    have "os_byte \<rho> os j = ul_byte \<rho> (os_size os) (os_updates os1) (int j)"
      using s1(3) [OF that] fl(3) [OF that] by (simp add: os_byte_def s1(2))
    moreover have "os_byte \<rho> ?os' j = ul_byte \<rho> (os_size os) ul' (int j)"
      using fl(3) [OF that] by (simp add: os_byte_def os_views s1(2))
    ultimately show ?thesis using ul(3) by auto
  qed
  have "os_step os ?os' (\<lambda>\<rho> j. if int j = eval \<rho> off then eval \<rho> v else os_byte \<rho> os j)"
  proof (rule os_stepI)
    fix j assume j: "j < os_size os"
    show "byte_ok ?os' j"
      using inv1(3) [OF j] fl(3) [OF j] by (simp add: byte_ok_def isByteKnownSymbolic_def os_views os_byte_def s1(2))
  qed (use byte ul inv1 s1 in \<open>simp_all add: os_views\<close>)
  moreover have "write8_symbolic off v os = Some ?os'"
    using fl(1) ul(1) assms by (simp add: write8_symbolic_def fastRangeCheckOffset_def ZExt_same)
  ultimately show ?thesis by blast
qed


subsection \<open>Reading and writing values: the byte memory\<close>

text \<open>The value of \<open>N\<close> bytes, least significant first, and the bytes of a value.\<close>

definition load :: "(nat \<Rightarrow> int) \<Rightarrow> nat \<Rightarrow> int" where
  "load b N = (\<Sum>i<N. push_bit (8 * i) (b i))"

definition value_byte :: "int \<Rightarrow> nat \<Rightarrow> int" where
  "value_byte v i = take_bit 8 (drop_bit (8 * i) v)"

definition num_bytes :: "width \<Rightarrow> nat" where
  "num_bytes w = (if w = Bool then 1 else w div 8)"

definition width_ok :: "width \<Rightarrow> bool" where
  "width_ok w \<longleftrightarrow> w = Bool \<or> (0 < w \<and> w mod 8 = 0)"

text \<open>What a load and a store do to an array of bytes.\<close>

definition load_value :: "target_context \<Rightarrow> (nat \<Rightarrow> int) \<Rightarrow> nat \<Rightarrow> width \<Rightarrow> int" where
  "load_value ctx m off w = take_bit w (load (\<lambda>i. m (off + byte_index ctx (num_bytes w) i)) (num_bytes w))"

definition store_value :: "target_context \<Rightarrow> (nat \<Rightarrow> int) \<Rightarrow> nat \<Rightarrow> width \<Rightarrow> int \<Rightarrow> nat \<Rightarrow> int" where
  "store_value ctx m off w v j =
     (if off \<le> j \<and> j < off + num_bytes w then value_byte v (byte_index ctx (num_bytes w) (j - off)) else m j)"

lemma byte_index_less [simp]: "i < N \<Longrightarrow> byte_index ctx N i < N"
  by (auto simp: byte_index_def)

lemma byte_index_involution [simp]: "i < N \<Longrightarrow> byte_index ctx N (byte_index ctx N i) = i"
  by (auto simp: byte_index_def)

lemma load_Suc: "load b (Suc N) = load b N + push_bit (8 * N) (b N)"
  by (simp add: load_def)

lemma load_value_bytes: "load (value_byte v) N = take_bit (8 * N) v"
proof (induction N)
  case 0
  then show ?case by (simp add: load_def)
next
  case (Suc N)
  have "take_bit (8 * N + 8) v = take_bit (8 * N) v + push_bit (8 * N) (take_bit 8 (drop_bit (8 * N) v))"
    by (subst add.commute [of "8 * N" 8], subst take_bit_split) (rule add.commute)
  with Suc show ?case by (simp add: load_Suc value_byte_def add.commute)
qed

text \<open>A load after a store at the same place gives the value back.\<close>

lemma load_store:
  assumes "width_ok w" "take_bit w v = v"
  shows "load_value ctx (store_value ctx m off w v) off w = v"
proof -
  let ?N = "num_bytes w"
  have "load (\<lambda>i. store_value ctx m off w v (off + byte_index ctx ?N i)) ?N = load (value_byte v) ?N"
    unfolding load_def by (rule sum.cong) (auto simp: store_value_def)
  also have "\<dots> = take_bit (8 * ?N) v" by (rule load_value_bytes)
  finally show ?thesis using assms by (auto simp: load_value_def width_ok_def num_bytes_def)
qed

definition stored :: "(nat \<Rightarrow> int) \<Rightarrow> (nat \<Rightarrow> int) \<Rightarrow> nat list \<Rightarrow> nat \<Rightarrow> int \<Rightarrow> int" where
  "stored addr v is j b = fold (\<lambda>i b. if int j = addr i then v i else b) is b"

lemma stored_elsewhere: "(\<And>i. i \<in> set is \<Longrightarrow> addr i \<noteq> int j) \<Longrightarrow> stored addr v is j b = b"
proof (induction "is" arbitrary: b)
  case (Cons i "is")
  then have "int j \<noteq> addr i" by (metis list.set_intros(1))
  with Cons show ?case by (simp add: stored_def)
qed (simp add: stored_def)

lemma stored_at: "distinct is \<Longrightarrow> inj_on addr (set is) \<Longrightarrow> k \<in> set is \<Longrightarrow> addr k = int j \<Longrightarrow> stored addr v is j b = v k"
proof (induction "is" arbitrary: b)
  case (Cons i "is")
  show ?case
  proof (cases "i = k")
    case True
    then have "stored addr v is j (v k) = v k"
      using Cons.prems by (intro stored_elsewhere) (auto simp: inj_on_def)
    then show ?thesis using True Cons.prems by (simp add: stored_def)
  next
    case False
    then show ?thesis using Cons by (simp add: stored_def)
  qed
qed simp

lemma stored_value:
  "stored (\<lambda>i. int (off + byte_index ctx (num_bytes w) i)) (value_byte v) [0..<num_bytes w] j (m j) =
   store_value ctx m off w v j"
proof (cases "off \<le> j \<and> j < off + num_bytes w")
  case True
  let ?N = "num_bytes w"
  let ?k = "byte_index ctx ?N (j - off)"
  have "inj_on (\<lambda>i. int (off + byte_index ctx ?N i)) (set [0..<?N])"
    by (rule inj_on_inverseI [where g = "\<lambda>a. byte_index ctx ?N (nat (a - int off))"]) auto
  then have "stored (\<lambda>i. int (off + byte_index ctx ?N i)) (value_byte v) [0..<?N] j (m j) = value_byte v ?k"
    using True by (intro stored_at) auto
  with True show ?thesis by (simp add: store_value_def)
next
  case False
  have "int (off + byte_index ctx (num_bytes w) i) \<noteq> int j" if "i < num_bytes w" for i
    using False byte_index_less [OF that, of ctx] by linarith
  then have "stored (\<lambda>i. int (off + byte_index ctx (num_bytes w) i)) (value_byte v) [0..<num_bytes w] j (m j) = m j"
    by (intro stored_elsewhere) simp
  with False show ?thesis by (simp only: store_value_def if_False)
qed

lemma write_bytes_step:
  assumes "os_inv os" "set is \<subseteq> {..<N}"
    and "\<And>i os'. i < N \<Longrightarrow> os_inv os' \<Longrightarrow> os_size os' = os_size os \<Longrightarrow>
      \<exists>os''. wr i os' = Some os'' \<and> os_step os' os'' (\<lambda>\<rho> j. if int j = addr \<rho> i then v \<rho> i else os_byte \<rho> os' j)"
  shows "\<exists>os'. write_bytes wr is os = Some os' \<and>
    os_step os os' (\<lambda>\<rho> j. stored (addr \<rho>) (v \<rho>) is j (os_byte \<rho> os j))"
  using assms
proof (induction "is" arbitrary: os)
  case Nil
  then show ?case using os_step_refl by (simp add: stored_def)
next
  case (Cons i "is")
  from Cons.prems obtain os1 where
    1: "wr i os = Some os1" "os_step os os1 (\<lambda>\<rho> j. if int j = addr \<rho> i then v \<rho> i else os_byte \<rho> os j)"
    by (atomize_elim, intro Cons.prems(3)) auto
  note s1 = os_stepD [OF 1(2)]
  have "\<exists>os'. write_bytes wr is os1 = Some os' \<and> os_step os1 os' (\<lambda>\<rho> j. stored (addr \<rho>) (v \<rho>) is j (os_byte \<rho> os1 j))"
    using Cons.prems s1(1,2) by (intro Cons.IH) auto
  then obtain os2 where 2: "write_bytes wr is os1 = Some os2"
    "os_step os1 os2 (\<lambda>\<rho> j. stored (addr \<rho>) (v \<rho>) is j (os_byte \<rho> os1 j))" by blast
  have "os_step os os2 (\<lambda>\<rho> j. stored (addr \<rho>) (v \<rho>) (i # is) j (os_byte \<rho> os j))"
    using 2(2) s1 by (simp add: os_step_def stored_def)
  with 1(1) 2(1) show ?case by auto
qed

lemma read_bytes_step:
  assumes "os_inv os" "i \<le> N" "0 < N"
    and "\<And>i w os'. i < N \<Longrightarrow> os_step os os' (\<lambda>\<rho>. os_byte \<rho> os) \<Longrightarrow>
      \<exists>r. rd i (w, os') = Some r \<and> reads os' (\<lambda>\<rho> v. Q \<rho> \<longrightarrow> v = b \<rho> i) r"
    and "os_step os os1 (\<lambda>\<rho>. os_byte \<rho> os)"
    and "case Res of None \<Rightarrow> i = 0
         | Some res \<Rightarrow> wt res \<and> getWidth res = 8 * i \<and> (\<forall>\<rho>. Q \<rho> \<longrightarrow> eval \<rho> res = load (b \<rho>) i)"
  shows "\<exists>e w' os'. read_bytes rd [i..<N] Res (w, os1) = Some (e, w', os') \<and> os_step os os' (\<lambda>\<rho>. os_byte \<rho> os) \<and>
    wt e \<and> getWidth e = 8 * N \<and> (\<forall>\<rho>. Q \<rho> \<longrightarrow> eval \<rho> e = load (b \<rho>) N)"
  using assms(2,5,6)
proof (induction "N - i" arbitrary: i Res w os1)
  case 0
  then have "i = N" by simp
  with 0 assms(3) show ?case by (cases Res) auto
next
  case (Suc d)
  then have i: "i < N" "[i..<N] = i # [Suc i..<N]" by (auto simp: upt_rec)
  from assms(4) [OF i(1) Suc.prems(2)] obtain B w1 os2 where
    rd: "rd i (w, os1) = Some (B, w1, os2)" "os_step os1 os2 (\<lambda>\<rho>. os_byte \<rho> os1)" "wt B" "getWidth B = Int8"
      "\<And>\<rho>. Q \<rho> \<Longrightarrow> eval \<rho> B = b \<rho> i"
    by (force simp: reads_def)
  have step: "os_step os os2 (\<lambda>\<rho>. os_byte \<rho> os)" using rd(2) Suc.prems(2) by (simp add: os_step_def)
  let ?Res = "case Res of None \<Rightarrow> B | Some res \<Rightarrow> Concat_create B res"
  have "wt ?Res \<and> getWidth ?Res = 8 * Suc i \<and> (\<forall>\<rho>. Q \<rho> \<longrightarrow> eval \<rho> ?Res = load (b \<rho>) (Suc i))"
  proof (cases Res)
    case None
    then show ?thesis using Suc.prems(3) rd by (simp add: load_Suc) (simp add: load_def)
  next
    case (Some res)
    then have "expr_equiv (Concat_create B res) (ConcatExpr B res)"
      using Suc.prems(3) rd(3) by (intro Concat_Extract_create_equiv) simp_all
    then show ?thesis using Some Suc.prems(3) rd by (simp add: expr_equiv_def load_Suc)
  qed
  then have "\<exists>e w' os'. read_bytes rd [Suc i..<N] (Some ?Res) (w1, os2) = Some (e, w', os') \<and>
    os_step os os' (\<lambda>\<rho>. os_byte \<rho> os) \<and> wt e \<and> getWidth e = 8 * N \<and> (\<forall>\<rho>. Q \<rho> \<longrightarrow> eval \<rho> e = load (b \<rho>) N)"
    using Suc.hyps i step by (intro Suc.hyps(1)) auto
  with rd(1) i(2) show ?case by simp
qed


text \<open>Both forms of a read, by what one byte read returns: the value of the bytes under a condition on the environment.\<close>

lemma load_value_1: "load_value ctx m off Bool = take_bit Bool (m off)"
  by (simp add: load_value_def num_bytes_def load_def byte_index_def One_nat_def)

lemma store_value_1: "store_value ctx m off Bool v = (\<lambda>j. if j = off then value_byte v 0 else m j)"
  by (auto simp: fun_eq_iff store_value_def num_bytes_def byte_index_def One_nat_def)

lemma read_value_step:
  assumes "os_inv os" "width_ok w"
    and "\<And>i wd os'. i < num_bytes w \<Longrightarrow> os_step os os' (\<lambda>\<rho>. os_byte \<rho> os) \<Longrightarrow>
      \<exists>r. rd i (wd, os') = Some r \<and>
        reads os' (\<lambda>\<rho> v. Q \<rho> \<longrightarrow> v = os_byte \<rho> os' (a \<rho> + byte_index ctx (num_bytes w) i)) r"
    and "\<And>\<rho>. Q \<rho> \<Longrightarrow> a \<rho> + num_bytes w \<le> os_size os"
  shows "\<exists>e wd' os'.
    (if w = Bool then do { (b, st') \<leftarrow> rd 0 (wd, os); Some (Extract_create b 0 Bool, st') }
     else read_bytes rd [0..<num_bytes w] None (wd, os)) = Some (e, wd', os') \<and>
    os_step os os' (\<lambda>\<rho>. os_byte \<rho> os) \<and> wt e \<and> getWidth e = w \<and>
    (\<forall>\<rho>. Q \<rho> \<longrightarrow> eval \<rho> e = load_value ctx (os_byte \<rho> os) (a \<rho>) w)"
proof (cases "w = Bool")
  case True
  have n: "num_bytes w = 1" "byte_index ctx 1 0 = 0" using True by (simp_all add: num_bytes_def byte_index_def)
  obtain B wd1 os1 where rd: "rd 0 (wd, os) = Some (B, wd1, os1)" "os_step os os1 (\<lambda>\<rho>. os_byte \<rho> os)"
    "wt B" "getWidth B = Int8" "\<And>\<rho>. Q \<rho> \<Longrightarrow> eval \<rho> B = os_byte \<rho> os (a \<rho>)"
    using assms(3) [of 0 os wd] os_step_refl [OF assms(1)] n by (force simp: reads_def)
  have "expr_equiv (Extract_create B 0 Bool) (ExtractExpr B 0 Bool)"
    using rd by (intro Concat_Extract_create_equiv(2)) simp
  then show ?thesis using rd True by (simp add: expr_equiv_def load_value_1)
next
  case False
  let ?N = "num_bytes w"
  have N: "0 < ?N" "8 * ?N = w" using assms(2) False by (auto simp: width_ok_def num_bytes_def)
  let ?b = "\<lambda>\<rho> i. os_byte \<rho> os (a \<rho> + byte_index ctx ?N i)"
  have "\<exists>e wd' os'. read_bytes rd [0..<?N] None (wd, os) = Some (e, wd', os') \<and> os_step os os' (\<lambda>\<rho>. os_byte \<rho> os) \<and>
    wt e \<and> getWidth e = 8 * ?N \<and> (\<forall>\<rho>. Q \<rho> \<longrightarrow> eval \<rho> e = load (?b \<rho>) ?N)"
  proof (rule read_bytes_step [OF assms(1) _ N(1) _ os_step_refl [OF assms(1)]])
    fix i wd os' assume i: "i < ?N" and st: "os_step os os' (\<lambda>\<rho>. os_byte \<rho> os)"
    have "os_byte \<rho> os' (a \<rho> + byte_index ctx ?N i) = ?b \<rho> i" if "Q \<rho>" for \<rho>
      using assms(4) [OF that] byte_index_less [OF i, of ctx] by (intro os_stepD(3) [OF st]) linarith
    with assms(3) [OF i st, of wd] show "\<exists>r. rd i (wd, os') = Some r \<and> reads os' (\<lambda>\<rho> v. Q \<rho> \<longrightarrow> v = ?b \<rho> i) r"
      by (fastforce simp: reads_def)
  qed simp_all
  then obtain e wd' os' where e: "read_bytes rd [0..<?N] None (wd, os) = Some (e, wd', os')"
    "os_step os os' (\<lambda>\<rho>. os_byte \<rho> os)" "wt e" "getWidth e = w" "\<And>\<rho>. Q \<rho> \<Longrightarrow> eval \<rho> e = load (?b \<rho>) ?N"
    using N by auto
  have "eval \<rho> e = load_value ctx (os_byte \<rho> os) (a \<rho>) w" if "Q \<rho>" for \<rho>
    using e(5) [OF that] eval_range(1) [OF e(3), of \<rho>] e(4) by (simp add: load_value_def)
  with e False show ?thesis by simp
qed

lemma const_address:
  assumes "os_inv os" "off + num_bytes w \<le> os_size os" "i < num_bytes w"
  shows "take_bit 32 (off + byte_index ctx (num_bytes w) i) = off + byte_index ctx (num_bytes w) i"
    "off + byte_index ctx (num_bytes w) i < os_size os"
proof -
  show "off + byte_index ctx (num_bytes w) i < os_size os"
    using assms(2) byte_index_less [OF assms(3), of ctx] by linarith
  then show "take_bit 32 (off + byte_index ctx (num_bytes w) i) = off + byte_index ctx (num_bytes w) i"
    using os_invD(4) [OF assms(1)] by (simp add: take_bit_nat_eq_self)
qed

lemma read_const_step:
  assumes "os_inv os" "width_ok w" "off + num_bytes w \<le> os_size os"
  shows "\<exists>e wd' os'. read_const ctx off w (wd, os) = Some (e, wd', os') \<and> os_step os os' (\<lambda>\<rho>. os_byte \<rho> os) \<and>
    wt e \<and> getWidth e = w \<and> (\<forall>\<rho>. eval \<rho> e = load_value ctx (os_byte \<rho> os) off w)"
proof -
  let ?N = "num_bytes w"
  let ?rd = "\<lambda>i. read8 (take_bit 32 (off + byte_index ctx ?N i))"
  note addr = const_address [OF assms(1,3)]
  have "\<exists>e wd' os'. (if w = Bool then do { (b, st') \<leftarrow> ?rd 0 (wd, os); Some (Extract_create b 0 Bool, st') }
     else read_bytes ?rd [0..<?N] None (wd, os)) = Some (e, wd', os') \<and>
    os_step os os' (\<lambda>\<rho>. os_byte \<rho> os) \<and> wt e \<and> getWidth e = w \<and>
    (\<forall>\<rho>. True \<longrightarrow> eval \<rho> e = load_value ctx (os_byte \<rho> os) off w)"
  proof (rule read_value_step [OF assms(1,2)])
    fix i wd os' assume i: "i < ?N" and st: "os_step os os' (\<lambda>\<rho>. os_byte \<rho> os)"
    show "\<exists>r. ?rd i (wd, os') = Some r \<and> reads os' (\<lambda>\<rho> v. True \<longrightarrow> v = os_byte \<rho> os' (off + byte_index ctx ?N i)) r"
      using read8_step [OF os_stepD(1) [OF st], of "off + byte_index ctx ?N i" wd] addr [OF i] os_stepD(2) [OF st]
      by simp
  qed (use assms(3) in auto)
  moreover have "w = Bool \<Longrightarrow> take_bit 32 (off + byte_index ctx ?N 0) = off"
    using addr [of 0] by (simp add: num_bytes_def byte_index_def)
  ultimately show ?thesis
    using assms(2) by (auto simp: read_const_def Let_def num_bytes_def width_ok_def split: if_splits)
qed


subsection \<open>Symbolic offsets\<close>

text \<open>
  The offset is truncated to 32 bits. When it folds to a constant the access must lie inside the object; otherwise the
  sums of the offset and the positions of the bytes must not fold, which the code asserts.
\<close>

definition offset32 :: "expr \<Rightarrow> expr" where
  "offset32 offset = ZExt_create offset Int32"

definition offset_at :: "env \<Rightarrow> expr \<Rightarrow> nat" where
  "offset_at \<rho> offset = nat (take_bit 32 (eval \<rho> offset))"

definition offset_ok :: "expr \<Rightarrow> width \<Rightarrow> nat \<Rightarrow> bool" where
  "offset_ok offset w n \<longleftrightarrow>
     (case asConst (offset32 offset) of
        Some CE \<Rightarrow> nat (uval CE) + num_bytes w \<le> n
      | None \<Rightarrow> 0 < n \<and> (w \<noteq> Bool \<longrightarrow> list_all (\<lambda>k. \<not> isConst (Add_create (offset32 offset) (index32 k))) [0..<num_bytes w]))"

lemma offset32_facts:
  assumes "wt offset"
  shows "wt (offset32 offset)" "getWidth (offset32 offset) = Int32" "eval \<rho> (offset32 offset) = int (offset_at \<rho> offset)"
proof -
  have "wt (offset32 offset) \<and> getWidth (offset32 offset) = Int32 \<and> eval \<rho> (offset32 offset) = take_bit 32 (eval \<rho> offset)"
  proof (cases "getWidth offset \<le> 32")
    case True
    then show ?thesis
      using ZExt_create_equiv(1) [OF assms, of 32] take_bit_wider [OF True eval_range(1) [OF assms]]
      by (simp add: offset32_def expr_equiv_def)
  next
    case False
    then show ?thesis
      using ZExt_create_equiv(2) [OF assms, of 32] by (simp add: offset32_def expr_equiv_def)
  qed
  then show "wt (offset32 offset)" "getWidth (offset32 offset) = Int32"
    "eval \<rho> (offset32 offset) = int (offset_at \<rho> offset)"
    by (simp_all add: offset_at_def)
qed

lemma byte_address:
  assumes "wt offset" "i < N" "N < 2 ^ 32"
  shows "wt (Add_create (offset32 offset) (index32 i))" "getWidth (Add_create (offset32 offset) (index32 i)) = Int32"
    "offset_at \<rho> offset + i < 2 ^ 32 \<Longrightarrow>
       eval \<rho> (Add_create (offset32 offset) (index32 i)) = int (offset_at \<rho> offset + i)"
proof -
  have i: "i < 2 ^ 32" using assms(2,3) by linarith
  have "expr_equiv (Add_create (offset32 offset) (index32 i)) (BinaryExpr Add (offset32 offset) (index32 i))"
    using offset32_facts(1,2) [OF assms(1)] by (intro Add_create_equiv) simp
  note eq = expr_equivD [OF this]
  show "wt (Add_create (offset32 offset) (index32 i))" by (rule eq(1))
  show "getWidth (Add_create (offset32 offset) (index32 i)) = Int32"
    using eq(2) offset32_facts(2) [OF assms(1)] by (simp add: isCmp_def)
  assume "offset_at \<rho> offset + i < 2 ^ 32"
  then show "eval \<rho> (Add_create (offset32 offset) (index32 i)) = int (offset_at \<rho> offset + i)"
    using eq(3) [of \<rho>] offset32_facts(2,3) [OF assms(1)] i by (simp add: take_bit_id)
qed

lemma read_expr_step:
  assumes "os_inv os" "width_ok w" "wt offset" "offset_ok offset w (os_size os)"
  shows "\<exists>e wd' os'. read_expr ctx offset w (wd, os) = Some (e, wd', os') \<and> os_step os os' (\<lambda>\<rho>. os_byte \<rho> os) \<and>
    wt e \<and> getWidth e = w \<and> (\<forall>\<rho>. offset_at \<rho> offset + num_bytes w \<le> os_size os \<longrightarrow>
      eval \<rho> e = load_value ctx (os_byte \<rho> os) (offset_at \<rho> offset) w)"
proof (cases "asConst (offset32 offset)")
  case (Some CE)
  then have c: "offset_at \<rho> offset = nat (uval CE)" for \<rho>
    using offset32_facts(3) [OF assms(3), of \<rho>] by simp
  have "nat (uval CE) + num_bytes w \<le> os_size os" using assms(4) Some by (simp add: offset_ok_def)
  from read_const_step [OF assms(1,2) this, of ctx wd] show ?thesis
    using Some by (auto simp: read_expr_def offset32_def getZExtValue_def c)
next
  case None
  let ?N = "num_bytes w"
  let ?rd = "\<lambda>i. if w = Bool then read8_symbolic (offset32 offset)
    else read8_symbolic (Add_create (offset32 offset) (index32 (byte_index ctx ?N i)))"
  have nc: "\<not> isConst (offset32 offset)" using None by (cases "offset32 offset") auto
  have sums: "\<not> isConst (Add_create (offset32 offset) (index32 k))" if "k < ?N" "w \<noteq> Bool" for k
    using assms(4) None that by (auto simp: offset_ok_def list_all_iff)
  have pos: "0 < os_size os" using assms(4) None by (simp add: offset_ok_def)
  have small: "os_size os < 2 ^ 32" by (rule os_invD(4) [OF assms(1)])
  have "\<exists>e wd' os'. (if w = Bool then do { (b, st') \<leftarrow> ?rd 0 (wd, os); Some (Extract_create b 0 Bool, st') }
     else read_bytes ?rd [0..<?N] None (wd, os)) = Some (e, wd', os') \<and>
    os_step os os' (\<lambda>\<rho>. os_byte \<rho> os) \<and> wt e \<and> getWidth e = w \<and>
    (\<forall>\<rho>. offset_at \<rho> offset + ?N \<le> os_size os \<longrightarrow> eval \<rho> e = load_value ctx (os_byte \<rho> os) (offset_at \<rho> offset) w)"
  proof (rule read_value_step [OF assms(1,2)])
    fix i wd os' assume i: "i < ?N" and st: "os_step os os' (\<lambda>\<rho>. os_byte \<rho> os)"
    note st' = os_stepD(1,2) [OF st]
    let ?off = "if w = Bool then offset32 offset else Add_create (offset32 offset) (index32 (byte_index ctx ?N i))"
    let ?P = "\<lambda>\<rho>. offset_at \<rho> offset + ?N \<le> os_size os"
    have bi: "byte_index ctx ?N i < ?N" using i by simp
    have w1: "w = Bool \<Longrightarrow> byte_index ctx ?N i = 0" using i by (auto simp: num_bytes_def byte_index_def One_nat_def)
    have ev: "eval \<rho> ?off = int (offset_at \<rho> offset + byte_index ctx ?N i)" if "?P \<rho>" for \<rho>
    proof (cases "w = Bool")
      case True
      then show ?thesis using offset32_facts(3) [OF assms(3), of \<rho>] w1 by simp
    next
      case False
      have "?N < 2 ^ 32" "offset_at \<rho> offset + byte_index ctx ?N i < 2 ^ 32"
        using that small bi by linarith+
      then show ?thesis using byte_address(3) [OF assms(3) bi] False by (simp only: if_False)
    qed
    have off: "wt ?off" "getWidth ?off = Int32"
      using offset32_facts(1,2) [OF assms(3)]
        expr_equivD(1,2) [OF Add_create_equiv, of "offset32 offset" "index32 (byte_index ctx ?N i)"] by (simp_all add: isCmp_def)
    have "\<not> isConst ?off" using nc sums [OF bi] by simp
    from read8_symbolic_step [OF st'(1) _ off this, of wd] pos st'(2) obtain r where
      r: "read8_symbolic ?off (wd, os') = Some r"
        "reads os' (\<lambda>\<rho> v. eval \<rho> ?off < int (os_size os) \<longrightarrow> v = os_byte \<rho> os' (nat (eval \<rho> ?off))) r"
      by auto
    have "?rd i (wd, os') = Some r" using r(1) by (cases "w = Bool") (simp_all only: simp_thms if_True if_False)
    moreover have "reads os' (\<lambda>\<rho> v. ?P \<rho> \<longrightarrow> v = os_byte \<rho> os' (offset_at \<rho> offset + byte_index ctx ?N i)) r"
    proof -
      have "v = os_byte \<rho> os' (offset_at \<rho> offset + byte_index ctx ?N i)"
        if "?P \<rho>" "eval \<rho> ?off < int (os_size os) \<longrightarrow> v = os_byte \<rho> os' (nat (eval \<rho> ?off))" for \<rho> v
      proof -
        have "offset_at \<rho> offset + byte_index ctx ?N i < os_size os" using that(1) bi by linarith
        then show ?thesis using that(2) ev [OF that(1)] by (simp only: of_nat_less_iff nat_int)
      qed
      with r(2) show ?thesis unfolding reads_def by blast
    qed
    ultimately show "\<exists>r. ?rd i (wd, os') = Some r \<and>
      reads os' (\<lambda>\<rho> v. ?P \<rho> \<longrightarrow> v = os_byte \<rho> os' (offset_at \<rho> offset + byte_index ctx ?N i)) r" by blast
  qed
  moreover have "read_expr ctx offset w (wd, os) =
    (if w = Bool then do { (b, st') \<leftarrow> ?rd 0 (wd, os); Some (Extract_create b 0 Bool, st') }
     else read_bytes ?rd [0..<?N] None (wd, os))"
    using None assms(2) by (auto simp: read_expr_def offset32_def Let_def num_bytes_def width_ok_def)
  ultimately show ?thesis by simp
qed


subsection \<open>Stores\<close>

lemma os_step_cong:
  "os_step os os' f \<Longrightarrow> (\<And>\<rho> j. j < os_size os \<Longrightarrow> f \<rho> j = g \<rho> j) \<Longrightarrow> os_step os os' g"
  by (simp add: os_step_def)

text \<open>The loop of a store of at least one byte, by what the write of one byte does.\<close>

lemma write_value_step:
  assumes "os_inv os" "width_ok w"
    and "\<And>i os'. i < num_bytes w \<Longrightarrow> os_inv os' \<Longrightarrow> os_size os' = os_size os \<Longrightarrow>
      \<exists>os''. wr i os' = Some os'' \<and> os_step os' os''
        (\<lambda>\<rho> j. if int j = addr \<rho> i then value_byte (v \<rho>) i else os_byte \<rho> os' j)"
  shows "\<exists>os'. write_bytes wr [0..<num_bytes w] os = Some os' \<and> os_step os os'
    (\<lambda>\<rho> j. stored (addr \<rho>) (value_byte (v \<rho>)) [0..<num_bytes w] j (os_byte \<rho> os j))"
  by (rule write_bytes_step [OF assms(1) _ assms(3), where N = "num_bytes w"]) auto

lemma Extract_byte:
  assumes "wt value" "8 * i + 8 \<le> getWidth value"
  shows "wt (Extract_create value (8 * i) Int8)" "getWidth (Extract_create value (8 * i) Int8) = Int8"
    "eval \<rho> (Extract_create value (8 * i) Int8) = value_byte (eval \<rho> value) i"
proof -
  have "expr_equiv (Extract_create value (8 * i) Int8) (ExtractExpr value (8 * i) Int8)"
    using assms by (intro Concat_Extract_create_equiv(2)) simp
  from expr_equivD [OF this] show "wt (Extract_create value (8 * i) Int8)"
    "getWidth (Extract_create value (8 * i) Int8) = Int8"
    "eval \<rho> (Extract_create value (8 * i) Int8) = value_byte (eval \<rho> value) i"
    by (simp_all add: value_byte_def)
qed

lemma ZExt_bool_byte:
  assumes "wt value" "getWidth value = Bool"
  shows "wt (ZExt_create value Int8)" "getWidth (ZExt_create value Int8) = Int8"
    "eval \<rho> (ZExt_create value Int8) = value_byte (eval \<rho> value) 0"
proof -
  have "expr_equiv (ZExt_create value Int8) (ZExtExpr value Int8)"
    using assms by (intro ZExt_create_equiv(1)) simp_all
  note eq = expr_equivD [OF this]
  have "take_bit 8 (eval \<rho> value) = eval \<rho> value"
    using take_bit_wider [of Bool 8 "eval \<rho> value"] eval_range(1) [OF assms(1), of \<rho>] assms(2) by simp
  then show "wt (ZExt_create value Int8)" "getWidth (ZExt_create value Int8) = Int8"
    "eval \<rho> (ZExt_create value Int8) = value_byte (eval \<rho> value) 0"
    using eq by (simp_all add: value_byte_def)
qed

lemma write_word_step:
  fixes val :: "'a::len word"
  assumes "os_inv os" "width_ok w" "off + num_bytes w \<le> os_size os"
  shows "\<exists>os'. write_word ctx (num_bytes w) off val os = Some os' \<and>
    os_step os os' (\<lambda>\<rho>. store_value ctx (os_byte \<rho> os) off w (uint val))"
proof -
  let ?N = "num_bytes w"
  let ?addr = "\<lambda>(\<rho>::env) i. int (off + byte_index ctx ?N i)"
  have "\<exists>os'. write_word ctx ?N off val os = Some os' \<and> os_step os os'
    (\<lambda>\<rho> j. stored (?addr \<rho>) (value_byte (uint val)) [0..<?N] j (os_byte \<rho> os j))"
    unfolding write_word_def
  proof (rule write_value_step [OF assms(1,2)])
    fix i os' assume i: "i < ?N" and os': "os_inv os'" "os_size os' = os_size os"
    have "uint (ucast (drop_bit (8 * i) val) :: 8 word) = value_byte (uint val) i"
      using uint_range_size [of val] by (simp add: value_byte_def unsigned_ucast_eq unsigned_drop_bit_eq take_bit_id word_size)
    with write8_const_step [OF os'(1), of "off + byte_index ctx ?N i" "ucast (drop_bit (8 * i) val)"]
      const_address [OF assms(1,3) i, of ctx] os'(2)
    show "\<exists>os''. write8_const (take_bit 32 (off + byte_index ctx ?N i)) (ucast (drop_bit (8 * i) val)) os' = Some os'' \<and>
      os_step os' os'' (\<lambda>\<rho> j. if int j = ?addr \<rho> i then value_byte (uint val) i else os_byte \<rho> os' j)"
      by (simp del: of_nat_add cong: if_cong)
  qed
  then show ?thesis by (auto simp only: stored_value)
qed

lemma write_general_step:
  assumes "os_inv os" "wt value" "width_ok (getWidth value)" "off + num_bytes (getWidth value) \<le> os_size os"
  shows "\<exists>os'. write_general ctx off value os = Some os' \<and>
    os_step os os' (\<lambda>\<rho>. store_value ctx (os_byte \<rho> os) off (getWidth value) (eval \<rho> value))"
proof (cases "getWidth value = Bool")
  case True
  have "off < os_size os" using assms(4) True by (simp add: num_bytes_def)
  from write8_step [OF assms(1) this ZExt_bool_byte(1,2) [OF assms(2) True]] ZExt_bool_byte(3) [OF assms(2) True] True
  show ?thesis by (simp add: write_general_def store_value_1 cong: if_cong)
next
  case False
  let ?w = "getWidth value" and ?N = "num_bytes (getWidth value)"
  let ?addr = "\<lambda>(\<rho>::env) i. int (off + byte_index ctx ?N i)"
  have N: "?w = ?N * 8" "?N = ?w div 8" using assms(3) False by (auto simp: width_ok_def num_bytes_def)
  have "\<exists>os'. write_bytes (\<lambda>i. write8 (take_bit 32 (off + byte_index ctx ?N i)) (Extract_create value (8 * i) Int8))
      [0..<?N] os = Some os' \<and> os_step os os'
    (\<lambda>\<rho> j. stored (?addr \<rho>) (value_byte (eval \<rho> value)) [0..<?N] j (os_byte \<rho> os j))"
  proof (rule write_value_step [OF assms(1,3)])
    fix i os' assume i: "i < ?N" and os': "os_inv os'" "os_size os' = os_size os"
    have "8 * i + 8 \<le> getWidth value" using i N by linarith
    note b = Extract_byte [OF assms(2) this]
    from write8_step [OF os'(1) _ b(1,2), of "off + byte_index ctx ?N i"] const_address [OF assms(1,4) i, of ctx] os'(2) b(3)
    show "\<exists>os''. write8 (take_bit 32 (off + byte_index ctx ?N i)) (Extract_create value (8 * i) Int8) os' = Some os'' \<and>
      os_step os' os'' (\<lambda>\<rho> j. if int j = ?addr \<rho> i then value_byte (eval \<rho> value) i else os_byte \<rho> os' j)"
      by (simp del: of_nat_add cong: if_cong)
  qed
  moreover have "write_general ctx off value os =
    write_bytes (\<lambda>i. write8 (take_bit 32 (off + byte_index ctx ?N i)) (Extract_create value (8 * i) Int8)) [0..<?N] os"
    using False N by (simp add: write_general_def Let_def)
  ultimately show ?thesis by (simp only: stored_value)
qed

lemma width_ok_power:
  assumes "width_ok w" "w \<le> 64" "isPowerOfTwo (of_nat w :: 64 word)"
  shows "w = Bool \<or> w = Int8 \<or> w = Int16 \<or> w = Int32 \<or> w = Int64"
proof -
  have "\<not> isPowerOfTwo (24 :: 64 word)" "\<not> isPowerOfTwo (40 :: 64 word)" "\<not> isPowerOfTwo (48 :: 64 word)"
    "\<not> isPowerOfTwo (56 :: 64 word)" by (simp_all add: isPowerOfTwo_def)
  moreover have "w \<in> {1, 8, 16, 24, 32, 40, 48, 56, 64}"
  proof -
    from assms(1,2) have "w = 1 \<or> (\<exists>k. w = 8 * k \<and> 0 < k \<and> k \<le> 8)"
      unfolding width_ok_def by (auto elim!: dvdE simp: mod_eq_0_iff_dvd)
    moreover have "k = 1 \<or> k = 2 \<or> k = 3 \<or> k = 4 \<or> k = 5 \<or> k = 6 \<or> k = 7 \<or> k = 8" if "0 < k" "k \<le> 8" for k :: nat
      using that by presburger
    ultimately show ?thesis by fastforce
  qed
  ultimately show ?thesis using assms(3) by auto
qed


lemma write_word_const:
  assumes "os_inv os" "width_ok w" "off + num_bytes w \<le> os_size os" "take_bit w v = v" "LENGTH('a::len) = w"
  shows "\<exists>os'. write_word ctx (num_bytes w) off (word_of_int v :: 'a word) os = Some os' \<and>
    os_step os os' (\<lambda>\<rho>. store_value ctx (os_byte \<rho> os) off w v)"
  using write_word_step [OF assms(1-3), of ctx "word_of_int v :: 'a word"] assms(4,5) by (simp add: uint_word_of_int_eq)

lemma write_const_step:
  assumes "os_inv os" "wt value" "width_ok (getWidth value)" "off + num_bytes (getWidth value) \<le> os_size os"
  shows "\<exists>os'. write_const ctx off value os = Some os' \<and>
    os_step os os' (\<lambda>\<rho>. store_value ctx (os_byte \<rho> os) off (getWidth value) (eval \<rho> value))"
proof (cases "\<exists>CE. value = ConstantExpr CE \<and> getBitWidth CE \<le> 64 \<and> isPowerOfTwo (of_nat (getBitWidth CE) :: 64 word)")
  case True
  then obtain CE where CE: "value = ConstantExpr CE" "getBitWidth CE \<le> 64" "isPowerOfTwo (of_nat (getBitWidth CE) :: 64 word)"
    by blast
  let ?w = "getBitWidth CE"
  have ok: "take_bit ?w (uval CE) = uval CE" using assms(2) CE(1) apint_okD(4) by simp
  have cases: "?w = Bool \<or> ?w = Int8 \<or> ?w = Int16 \<or> ?w = Int32 \<or> ?w = Int64"
    using width_ok_power [of ?w] assms(3) CE by simp
  note word = write_word_const [OF assms(1) assms(3) [unfolded CE(1) getWidth.simps] assms(4) [unfolded CE(1) getWidth.simps] ok]
  show ?thesis
  proof (cases "?w = Bool \<or> ?w = Int8")
    case True
    have "uint (word_of_int (uval CE) :: 8 word) = uval CE"
      using ok True take_bit_wider [of Bool 8 "uval CE"] by (auto simp: uint_word_of_int_eq)
    moreover have "value_byte (uval CE) 0 = uval CE"
      using ok True take_bit_wider [of Bool 8 "uval CE"] by (auto simp: value_byte_def)
    moreover have "off < os_size os" using assms(4) CE(1) True by (auto simp: num_bytes_def)
    ultimately show ?thesis
      using write8_const_step [OF assms(1), of off "word_of_int (uval CE)"] CE True
      by (auto simp: write_const_def Let_def getZExtValue_def store_value_def num_bytes_def byte_index_def One_nat_def fun_eq_iff
          elim!: os_step_cong)
  next
    case False
    with cases consider "?w = Int16" | "?w = Int32" | "?w = Int64" by blast
    then show ?thesis
    proof cases
      case 1
      then show ?thesis using word [where 'a = 16] CE
        by (simp add: write_const_def Let_def getZExtValue_def write16_def num_bytes_def)
    next
      case 2
      then show ?thesis using word [where 'a = 32] CE
        by (simp add: write_const_def Let_def getZExtValue_def write32_def num_bytes_def)
    next
      case 3
      then show ?thesis using word [where 'a = 64] CE
        by (simp add: write_const_def Let_def getZExtValue_def write64_def num_bytes_def)
    qed
  qed
next
  case False
  then have "write_const ctx off value os = write_general ctx off value os"
    by (auto simp: write_const_def Let_def split: option.split)
  with write_general_step [OF assms] show ?thesis by simp
qed

lemma write_expr_step:
  assumes "os_inv os" "wt value" "width_ok (getWidth value)" "wt offset" "offset_ok offset (getWidth value) (os_size os)"
  shows "\<exists>os' f. write_expr ctx offset value os = Some os' \<and> os_step os os' f \<and>
    (\<forall>\<rho> j. offset_at \<rho> offset + num_bytes (getWidth value) \<le> os_size os \<longrightarrow>
      f \<rho> j = store_value ctx (os_byte \<rho> os) (offset_at \<rho> offset) (getWidth value) (eval \<rho> value) j)"
proof (cases "asConst (offset32 offset)")
  case (Some CE)
  then have c: "offset_at \<rho> offset = nat (uval CE)" for \<rho>
    using offset32_facts(3) [OF assms(4), of \<rho>] by simp
  have "nat (uval CE) + num_bytes (getWidth value) \<le> os_size os" using assms(5) Some by (simp add: offset_ok_def)
  from write_const_step [OF assms(1-3) this, of ctx] show ?thesis
    using Some by (auto simp: write_expr_def offset32_def getZExtValue_def c)
next
  case None
  let ?w = "getWidth value" and ?N = "num_bytes (getWidth value)"
  have nc: "\<not> isConst (offset32 offset)" using None by (cases "offset32 offset") auto
  have sums: "\<not> isConst (Add_create (offset32 offset) (index32 k))" if "k < ?N" "?w \<noteq> Bool" for k
    using assms(5) None that by (auto simp: offset_ok_def list_all_iff)
  have small: "os_size os < 2 ^ 32" by (rule os_invD(4) [OF assms(1)])
  show ?thesis
  proof (cases "?w = Bool")
    case True
    have A: "write_expr ctx offset value os = write8_symbolic (offset32 offset) (ZExt_create value Int8) os"
      using None True by (simp add: write_expr_def offset32_def)
    obtain os' where os': "write8_symbolic (offset32 offset) (ZExt_create value Int8) os = Some os'"
      "os_step os os' (\<lambda>\<rho> j. if int j = eval \<rho> (offset32 offset) then eval \<rho> (ZExt_create value Int8) else os_byte \<rho> os j)"
      using write8_symbolic_step [OF assms(1) offset32_facts(1,2) [OF assms(4)] nc ZExt_bool_byte(1,2) [OF assms(2) True]]
      by blast
    have B: "(if int j = eval \<rho> (offset32 offset) then eval \<rho> (ZExt_create value Int8) else os_byte \<rho> os j) =
      store_value ctx (os_byte \<rho> os) (offset_at \<rho> offset) ?w (eval \<rho> value) j" for \<rho> j
      using offset32_facts(3) [OF assms(4), of \<rho>] ZExt_bool_byte(3) [OF assms(2) True] True by (simp add: store_value_1)
    let ?f = "\<lambda>\<rho> j. if int j = eval \<rho> (offset32 offset) then eval \<rho> (ZExt_create value Int8) else os_byte \<rho> os j"
    show ?thesis
      unfolding A by (intro exI [of _ os'] exI [of _ ?f] conjI allI impI os' B)
  next
    case False
    have N: "?w = ?N * 8" "?N = ?w div 8" using assms(3) False by (auto simp: width_ok_def num_bytes_def)
    let ?off = "\<lambda>i. Add_create (offset32 offset) (index32 (byte_index ctx ?N i))"
    let ?wr = "\<lambda>i. write8_symbolic (?off i) (Extract_create value (8 * i) Int8)"
    have "\<exists>os'. write_bytes ?wr [0..<?N] os = Some os' \<and> os_step os os'
      (\<lambda>\<rho> j. stored (\<lambda>i. eval \<rho> (?off i)) (value_byte (eval \<rho> value)) [0..<?N] j (os_byte \<rho> os j))"
    proof (rule write_value_step [OF assms(1,3)])
      fix i os' assume i: "i < ?N" and os': "os_inv os'" "os_size os' = os_size os"
      have bi: "byte_index ctx ?N i < ?N" using i by simp
      have "8 * i + 8 \<le> getWidth value" using i N by linarith
      note b = Extract_byte [OF assms(2) this]
      have off: "wt (?off i)" "getWidth (?off i) = Int32"
        using offset32_facts(1,2) [OF assms(4)]
          expr_equivD(1,2) [OF Add_create_equiv, of "offset32 offset" "index32 (byte_index ctx ?N i)"] by (simp_all add: isCmp_def)
      from write8_symbolic_step [OF os'(1) off sums [OF bi False] b(1,2)] b(3)
      show "\<exists>os''. ?wr i os' = Some os'' \<and>
        os_step os' os'' (\<lambda>\<rho> j. if int j = eval \<rho> (?off i) then value_byte (eval \<rho> value) i else os_byte \<rho> os' j)"
        by (simp cong: if_cong)
    qed
    then obtain os' where os': "write_bytes ?wr [0..<?N] os = Some os'" "os_step os os'
      (\<lambda>\<rho> j. stored (\<lambda>i. eval \<rho> (?off i)) (value_byte (eval \<rho> value)) [0..<?N] j (os_byte \<rho> os j))" by blast
    have A: "write_expr ctx offset value os = write_bytes ?wr [0..<?N] os"
      using None False N by (simp add: write_expr_def offset32_def Let_def)
    have B: "stored (\<lambda>i. eval \<rho> (?off i)) (value_byte (eval \<rho> value)) [0..<?N] j (os_byte \<rho> os j) =
      store_value ctx (os_byte \<rho> os) (offset_at \<rho> offset) ?w (eval \<rho> value) j"
      if "offset_at \<rho> offset + ?N \<le> os_size os" for \<rho> j
    proof -
      have "eval \<rho> (?off i) = int (offset_at \<rho> offset + byte_index ctx ?N i)" if i: "i < ?N" for i
      proof -
        have bi: "byte_index ctx ?N i < ?N" using i by simp
        have "?N < 2 ^ 32" "offset_at \<rho> offset + byte_index ctx ?N i < 2 ^ 32"
          using \<open>offset_at \<rho> offset + ?N \<le> os_size os\<close> small bi by linarith+
        then show ?thesis using byte_address(3) [OF assms(4) bi] by blast
      qed
      then have "stored (\<lambda>i. eval \<rho> (?off i)) (value_byte (eval \<rho> value)) [0..<?N] j (os_byte \<rho> os j) =
        stored (\<lambda>i. int (offset_at \<rho> offset + byte_index ctx ?N i)) (value_byte (eval \<rho> value)) [0..<?N] j (os_byte \<rho> os j)"
        unfolding stored_def by (intro fold_cong) auto
      then show ?thesis by (simp only: stored_value)
    qed
    let ?f = "\<lambda>\<rho> j. stored (\<lambda>i. eval \<rho> (?off i)) (value_byte (eval \<rho> value)) [0..<?N] j (os_byte \<rho> os j)"
    show ?thesis
      unfolding A by (intro exI [of _ os'] exI [of _ ?f] conjI allI impI os' B)
  qed
qed


subsection \<open>New objects\<close>

lemma markByteFlushed_views:
  assumes "masks_ok os" "i < os_size os"
  shows "masks_ok (markByteFlushed i os)" "os_size (markByteFlushed i os) = os_size os"
    "os_updates (markByteFlushed i os) = os_updates os" "isByteConcrete (markByteFlushed i os) = isByteConcrete os"
    "knownSymbolic (markByteFlushed i os) = knownSymbolic os" "concreteStore (markByteFlushed i os) = concreteStore os"
    "j < os_size os \<Longrightarrow> j = i \<or> isByteFlushed os j \<Longrightarrow> isByteFlushed (markByteFlushed i os) j"
  using assms by (auto simp: markByteFlushed_def masks_ok_def isByteConcrete_def knownSymbolic_def isByteFlushed_def
      ba_get_unset ba_get_new fun_eq_iff split: option.splits)

lemma makeSymbolic_fold:
  assumes "masks_ok os" "set is \<subseteq> {..<os_size os}"
  shows "\<exists>os'. fold (\<lambda>i os. markByteFlushed i (setKnownSymbolic i None (markByteSymbolic i os))) is os = os' \<and>
    masks_ok os' \<and> os_size os' = os_size os \<and> os_updates os' = os_updates os \<and>
    (\<forall>j < os_size os. j \<in> set is \<or> \<not> isByteConcrete os j \<longrightarrow> \<not> isByteConcrete os' j) \<and>
    (\<forall>j < os_size os. j \<in> set is \<or> knownSymbolic os j = None \<longrightarrow> knownSymbolic os' j = None) \<and>
    (\<forall>j < os_size os. j \<in> set is \<or> isByteFlushed os j \<longrightarrow> isByteFlushed os' j)"
  using assms
proof (induction "is" arbitrary: os)
  case (Cons i "is")
  let ?a = "setKnownSymbolic i None (markByteSymbolic i os)" and ?f = "\<lambda>i os. markByteFlushed i (setKnownSymbolic i None (markByteSymbolic i os))"
  have i: "i < os_size os" using Cons.prems(2) by simp
  have a: "masks_ok ?a" "os_size ?a = os_size os" "os_updates ?a = os_updates os" "isByteFlushed ?a = isByteFlushed os"
    using Cons.prems(1) by (simp_all add: os_views)
  have conc: "isByteConcrete ?a j \<longleftrightarrow> j \<noteq> i \<and> isByteConcrete os j" if "j < os_size os" for j
    using Cons.prems(1) i that by (simp add: os_views)
  have kn: "knownSymbolic ?a j = (if j = i then None else knownSymbolic os j)" if "j < os_size os" for j
    using Cons.prems(1) i that by (simp add: os_views)
  note m = markByteFlushed_views [OF a(1), of i, unfolded a(2), OF i]
  have "set is \<subseteq> {..<os_size (?f i os)}" using Cons.prems(2) m(2) by simp
  from Cons.IH [OF m(1) this] m(2,3,4,5) a(3) obtain os' where
    os': "fold ?f is (?f i os) = os'" "masks_ok os'" "os_size os' = os_size os" "os_updates os' = os_updates os"
      "\<And>j. j < os_size os \<Longrightarrow> j \<in> set is \<or> \<not> isByteConcrete ?a j \<Longrightarrow> \<not> isByteConcrete os' j"
      "\<And>j. j < os_size os \<Longrightarrow> j \<in> set is \<or> knownSymbolic ?a j = None \<Longrightarrow> knownSymbolic os' j = None"
      "\<And>j. j < os_size os \<Longrightarrow> j \<in> set is \<or> isByteFlushed (?f i os) j \<Longrightarrow> isByteFlushed os' j"
    by auto
  have "\<not> isByteConcrete os' j" if "j < os_size os" "j \<in> set (i # is) \<or> \<not> isByteConcrete os j" for j
    using os'(5) [OF that(1)] conc [OF that(1)] that(2) by auto
  moreover have "knownSymbolic os' j = None" if "j < os_size os" "j \<in> set (i # is) \<or> knownSymbolic os j = None" for j
    using os'(6) [OF that(1)] kn [OF that(1)] that(2) by auto
  moreover have "isByteFlushed os' j" if "j < os_size os" "j \<in> set (i # is) \<or> isByteFlushed os j" for j
    using os'(7) [OF that(1)] m(7) [OF that(1)] a(4) that(2) by auto
  ultimately show ?case using os'(1-4) by simp
qed simp

lemma makeSymbolic_step:
  assumes "masks_ok os" "ul_ok (os_size os) (os_updates os)" "snd (os_updates os) = NullNode"
  shows "\<exists>os'. makeSymbolic os = Some os' \<and>
    os_step os os' (\<lambda>\<rho> j. initial_value \<rho> (base_array (os_size os) (fst (os_updates os))) j)"
proof -
  have all: "set [0..<os_size os] \<subseteq> {..<os_size os}" by auto
  from makeSymbolic_fold [OF assms(1) all] obtain os' where
    f: "fold (\<lambda>i os. markByteFlushed i (setKnownSymbolic i None (markByteSymbolic i os))) [0..<os_size os] os = os'"
    and os': "masks_ok os'" "os_size os' = os_size os" "os_updates os' = os_updates os"
    and marks: "\<forall>j < os_size os. j \<in> set [0..<os_size os] \<or> \<not> isByteConcrete os j \<longrightarrow> \<not> isByteConcrete os' j"
      "\<forall>j < os_size os. j \<in> set [0..<os_size os] \<or> knownSymbolic os j = None \<longrightarrow> knownSymbolic os' j = None"
      "\<forall>j < os_size os. j \<in> set [0..<os_size os] \<or> isByteFlushed os j \<longrightarrow> isByteFlushed os' j"
    by blast
  have m: "\<not> isByteConcrete os' j" "knownSymbolic os' j = None" "isByteFlushed os' j" if "j < os_size os" for j
    using marks that by auto
  have byte: "os_byte \<rho> os' j = initial_value \<rho> (base_array (os_size os) (fst (os_updates os))) j" if "j < os_size os" for \<rho> j
    using m(1,2) [OF that] os' assms(3) by (simp add: os_byte_def ul_byte_def)
  have "os_step os os' (\<lambda>\<rho> j. initial_value \<rho> (base_array (os_size os) (fst (os_updates os))) j)"
  proof (rule os_stepI)
    fix j assume j: "j < os_size os"
    show "byte_ok os' j"
      using m [OF j] by (simp add: byte_ok_def isByteKnownSymbolic_def os_byte_def)
  qed (use os' byte assms(2) in simp_all)
  moreover have "makeSymbolic os = Some os'" using f assms(3) by (simp add: makeSymbolic_def)
  ultimately show ?thesis by blast
qed

lemma blank_inv:
  assumes "mo_size mo < 2 ^ 32" "ul_ok (mo_size mo) ul"
  shows "os_inv (ObjectState_blank mo ul)" "j < mo_size mo \<Longrightarrow> os_byte \<rho> (ObjectState_blank mo ul) j = 0"
  using assms by (auto simp: os_inv_def masks_ok_def ObjectState_blank_def byte_ok_def isByteConcrete_def isByteFlushed_def
      knownSymbolic_def isByteKnownSymbolic_def os_byte_def)

lemma ul_ok_empty: "ul_ok n (None, NullNode)"
  by (auto simp: ul_ok_def base_array_def array_ok_def isSymbolicArray_def)

lemma byte_AB: "uint (0xAB :: 8 word) = 0xAB"
  by code_simp

lemma makeConcrete_step:
  assumes "os_inv os"
  shows "os_step os (initializeToZero os) (\<lambda>\<rho> j. 0)" "os_step os (initializeToRandom os) (\<lambda>\<rho> j. 0xAB)"
  using os_invD [OF assms] byte_AB
  by (auto simp: os_step_def os_inv_def masks_ok_def initializeToZero_def initializeToRandom_def makeConcrete_def byte_ok_def
      isByteConcrete_def isByteFlushed_def knownSymbolic_def isByteKnownSymbolic_def os_byte_def)

lemma copy_step:
  assumes "os_inv os" "\<not> readOnly os"
  shows "\<exists>os'. ObjectState_copy os = Some os' \<and> os_step os os' (\<lambda>\<rho>. os_byte \<rho> os)"
proof -
  let ?os' = "os\<lparr>copyOnWriteOwner := 0, readOnly := False\<rparr>"
  have v: "isByteConcrete ?os' = isByteConcrete os" "isByteFlushed ?os' = isByteFlushed os"
    "knownSymbolic ?os' = knownSymbolic os"
    by (simp_all add: fun_eq_iff isByteConcrete_def isByteFlushed_def knownSymbolic_def)
  have byte: "os_byte \<rho> ?os' j = os_byte \<rho> os j" for \<rho> j
    by (simp add: os_byte_def v split: option.split)
  have "os_step os ?os' (\<lambda>\<rho>. os_byte \<rho> os)"
    using os_invD [OF assms(1)] byte
    by (intro os_stepI) (simp_all add: masks_ok_def byte_ok_def isByteKnownSymbolic_def v)
  with assms(2) show ?thesis by (simp add: ObjectState_copy_def)
qed


subsection \<open>The bounds checks\<close>

lemma Ult_create_value:
  assumes "wt l" "wt r" "getWidth l = getWidth r"
  shows "wt (Ult_create l r)" "getWidth (Ult_create l r) = Bool" "eval \<rho> (Ult_create l r) = of_bool (eval \<rho> l < eval \<rho> r)"
proof -
  have "expr_equiv (Binary_create Ult l r) (BinaryExpr Ult l r)"
    using assms by (intro Binary_create_equiv) simp
  from expr_equivD [OF this] show "wt (Ult_create l r)" "getWidth (Ult_create l r) = Bool"
    "eval \<rho> (Ult_create l r) = of_bool (eval \<rho> l < eval \<rho> r)"
    by (simp_all add: isCmp_def)
qed

lemma getOffsetExpr_value:
  assumes "wt p" "getWidth p = getPointerWidth ctx" "uint (mo_address mo) < 2 ^ getPointerWidth ctx"
  shows "wt (getOffsetExpr ctx mo p)" "getWidth (getOffsetExpr ctx mo p) = getPointerWidth ctx"
    "eval \<rho> (getOffsetExpr ctx mo p) = (eval \<rho> p - uint (mo_address mo)) mod 2 ^ getPointerWidth ctx"
proof -
  have pos: "0 < getPointerWidth ctx" using wt_width_pos [OF assms(1)] assms(2) by simp
  have "expr_equiv (Binary_create Sub p (getBaseExpr ctx mo)) (BinaryExpr Sub p (getBaseExpr ctx mo))"
    using assms(1,2) pos by (intro Binary_create_equiv) (simp add: getBaseExpr_def)
  from expr_equivD [OF this] show "wt (getOffsetExpr ctx mo p)" "getWidth (getOffsetExpr ctx mo p) = getPointerWidth ctx"
    "eval \<rho> (getOffsetExpr ctx mo p) = (eval \<rho> p - uint (mo_address mo)) mod 2 ^ getPointerWidth ctx"
    using assms(2,3) by (simp_all add: getOffsetExpr_def getBaseExpr_def isCmp_def take_bit_eq_mod mod_simps)
qed

text \<open>A wrapped difference is small exactly when the pointer lies above the base, not far from it.\<close>

lemma wrapped_offset:
  fixes p b k M :: int
  assumes "0 \<le> p" "p < M" "0 \<le> b" "b + k \<le> M" "0 \<le> k"
  shows "(p - b) mod M < k \<longleftrightarrow> b \<le> p \<and> p < b + k"
proof (cases "b \<le> p")
  case True
  then show ?thesis using assms by (simp add: mod_pos_pos_trivial) linarith
next
  case False
  have "(p - b) mod M = (p - b + M) mod M" by simp
  also have "\<dots> = p - b + M" using False assms by (intro mod_pos_pos_trivial) linarith+
  finally show ?thesis using False assms by linarith
qed

definition object_fits :: "target_context \<Rightarrow> memory_object \<Rightarrow> bool" where
  "object_fits ctx mo \<longleftrightarrow> int (mo_size mo) < 2 ^ getPointerWidth ctx \<and>
     uint (mo_address mo) < 2 ^ getPointerWidth ctx \<and> uint (mo_address mo) + int (mo_size mo) \<le> 2 ^ getPointerWidth ctx"

lemma bounds_check_value:
  assumes "wt p" "getWidth p = getPointerWidth ctx" "object_fits ctx mo" "0 < bytes"
  shows "eval \<rho> (getBoundsCheckPointer_bytes ctx mo p bytes) =
    of_bool (uint (mo_address mo) \<le> eval \<rho> p \<and> eval \<rho> p + int bytes \<le> uint (mo_address mo) + int (mo_size mo))"
proof (cases "bytes \<le> mo_size mo")
  case True
  let ?pw = "getPointerWidth ctx" and ?k = "int (mo_size mo - bytes + 1)" and ?off = "getOffsetExpr ctx mo p"
  have pos: "0 < ?pw" using wt_width_pos [OF assms(1)] assms(2) by simp
  have fits: "uint (mo_address mo) < 2 ^ ?pw" "uint (mo_address mo) + int (mo_size mo) \<le> 2 ^ ?pw" "int (mo_size mo) < 2 ^ ?pw"
    using assms(3) by (simp_all add: object_fits_def)
  note off = getOffsetExpr_value [OF assms(1,2) fits(1)]
  have k: "?k \<le> int (mo_size mo)" "0 \<le> ?k" using True assms(4) by linarith+
  have p: "0 \<le> eval \<rho> p" "eval \<rho> p < 2 ^ ?pw" using eval_range(2,3) [OF assms(1), of \<rho>] assms(2) by simp_all
  have bk: "uint (mo_address mo) + ?k \<le> 2 ^ ?pw" using fits(2) k(1) by linarith
  have "eval \<rho> (getBoundsCheckPointer_bytes ctx mo p bytes) = of_bool (eval \<rho> ?off < take_bit ?pw ?k)"
    using True off Ult_create_value(3) [of ?off "ConstantExpr (mkAPInt ?pw ?k)" \<rho>] pos
    by (simp add: getBoundsCheckPointer_bytes_def getBoundsCheckOffset_bytes_def)
  also have "take_bit ?pw ?k = ?k" using k fits(3) by (intro take_bit_id) linarith+
  also have "eval \<rho> ?off < ?k \<longleftrightarrow> uint (mo_address mo) \<le> eval \<rho> p \<and> eval \<rho> p < uint (mo_address mo) + ?k"
    unfolding off(3) by (rule wrapped_offset [OF p unsigned_greater_eq bk k(2)])
  also have "(uint (mo_address mo) \<le> eval \<rho> p \<and> eval \<rho> p < uint (mo_address mo) + ?k) \<longleftrightarrow>
    (uint (mo_address mo) \<le> eval \<rho> p \<and> eval \<rho> p + int bytes \<le> uint (mo_address mo) + int (mo_size mo))"
    using True by linarith
  finally show ?thesis .
next
  case False
  have "uint (mo_address mo) \<le> eval \<rho> p \<Longrightarrow> \<not> eval \<rho> p + int bytes \<le> uint (mo_address mo) + int (mo_size mo)"
    using False by linarith
  then show ?thesis using False
    by (simp add: getBoundsCheckPointer_bytes_def getBoundsCheckOffset_bytes_def)
qed


subsection \<open>Properties of memory objects\<close>

text \<open>A global object of eight bytes at address 4096, a 64-bit target, and an offset that depends on a byte of input.\<close>

definition sample_mo :: memory_object where
  "sample_mo = \<lparr>mo_id = 1, mo_address = 4096, mo_size = 8, mo_isLocal = False, mo_isGlobal = True, mo_isFixed = False,
     mo_isUserSpecified = False\<rparr>"

definition sample_ctx :: target_context where
  "sample_ctx = \<lparr>isLittleEndian = True, getPointerWidth = 64\<rparr>"

definition sample_world :: mem_world where
  "sample_world = \<lparr>mw_cache = \<lparr>cachedSymbolicArrays = [], concreteArrays = [], next_address = 1\<rparr>, const_arr_id = 0,
     tmp_arr_id = 0\<rparr>"

definition sample_object :: object_state where
  "sample_object = ObjectState_blank sample_mo (None, NullNode)"

definition sample_offset :: expr where
  "sample_offset = ZExtExpr (sample_read 0) 64"

definition sample_word :: expr where
  "sample_word = ConcatExpr (sample_read 1) (const8 7)"

lemma sample_object_facts [simp]:
  "os_inv sample_object" "os_size sample_object = 8" "wt sample_offset" "wt sample_word" "getWidth sample_word = 16"
  "width_ok 16" "num_bytes 16 = 2" "getWidth sample_offset = 64"
  using blank_inv(1) [of sample_mo "(None, NullNode)"] ul_ok_empty [of "mo_size sample_mo"]
  by (simp_all add: sample_object_def sample_mo_def ObjectState_blank_def sample_offset_def sample_word_def width_ok_def
      num_bytes_def)

lemma sample_offset_ok [simp]: "offset_ok sample_offset 16 8"
  by code_simp

lemma sample_offset_at: "offset_at (\<lambda>_ _. 3) sample_offset = 3"
  by code_simp





text \<open>
  C34: reading what has just been written, at the same offset and width, gives the value back in every environment
  where the access lies inside the object.
\<close>

theorem object_read_after_write:
  assumes "os_inv os" "wt value" "width_ok (getWidth value)" "wt offset" "offset_ok offset (getWidth value) (os_size os)"
  shows "\<exists>os1 e wd' os2. write_expr ctx offset value os = Some os1 \<and>
    read_expr ctx offset (getWidth value) (wd, os1) = Some (e, wd', os2) \<and>
    (\<forall>\<rho>. offset_at \<rho> offset + num_bytes (getWidth value) \<le> os_size os \<longrightarrow> eval \<rho> e = eval \<rho> value)"
proof -
  let ?w = "getWidth value" and ?N = "num_bytes (getWidth value)"
  obtain os1 f where w: "write_expr ctx offset value os = Some os1" "os_step os os1 f"
    "\<And>\<rho> j. offset_at \<rho> offset + ?N \<le> os_size os \<Longrightarrow>
      f \<rho> j = store_value ctx (os_byte \<rho> os) (offset_at \<rho> offset) ?w (eval \<rho> value) j"
    using write_expr_step [OF assms, of ctx] by blast
  note s1 = os_stepD [OF w(2)]
  obtain e wd' os2 where r: "read_expr ctx offset ?w (wd, os1) = Some (e, wd', os2)"
    "\<And>\<rho>. offset_at \<rho> offset + ?N \<le> os_size os \<Longrightarrow> eval \<rho> e = load_value ctx (os_byte \<rho> os1) (offset_at \<rho> offset) ?w"
    using read_expr_step [OF s1(1) assms(3,4), of ctx wd] assms(5) s1(2) by auto
  have "eval \<rho> e = eval \<rho> value" if "offset_at \<rho> offset + ?N \<le> os_size os" for \<rho>
  proof -
    let ?a = "offset_at \<rho> offset" and ?m = "store_value ctx (os_byte \<rho> os) (offset_at \<rho> offset) ?w (eval \<rho> value)"
    have "load_value ctx (os_byte \<rho> os1) ?a ?w = load_value ctx ?m ?a ?w"
      unfolding load_value_def load_def
    proof (intro arg_cong [of _ _ "take_bit ?w"] sum.cong refl)
      fix i assume "i \<in> {..<?N}"
      then have "?a + byte_index ctx ?N i < ?a + ?N" by simp
      then have "?a + byte_index ctx ?N i < os_size os" using that by linarith
      then show "push_bit (8 * i) (os_byte \<rho> os1 (?a + byte_index ctx ?N i)) = push_bit (8 * i) (?m (?a + byte_index ctx ?N i))"
        using s1(3) w(3) [OF that] by simp
    qed
    also have "\<dots> = eval \<rho> value" by (rule load_store [OF assms(3) eval_range(1) [OF assms(2)]])
    finally show ?thesis using r(2) [OF that] by simp
  qed
  with w(1) r(1) show ?thesis by blast
qed

theorem object_read_after_write_witness:
  "\<exists>os1 e wd' os2. write_expr sample_ctx sample_offset sample_word sample_object = Some os1 \<and>
    read_expr sample_ctx sample_offset 16 (sample_world, os1) = Some (e, wd', os2) \<and>
    eval (\<lambda>_ _. 3) e = eval (\<lambda>_ _. 3) sample_word"
  using object_read_after_write [of sample_object sample_word sample_offset sample_ctx sample_world] sample_offset_at by fastforce



text \<open>
  C36: the bounds check of an access holds exactly when the whole access lies inside the object, whatever the pointer
  is: the wrap-around of the subtraction of the base does not let a pointer below the object pass.
\<close>

theorem bounds_check_exact:
  assumes "wt p" "getWidth p = getPointerWidth ctx" "object_fits ctx mo" "0 < bytes"
  shows "eval \<rho> (getBoundsCheckPointer_bytes ctx mo p bytes) = 1 \<longleftrightarrow>
    uint (mo_address mo) \<le> eval \<rho> p \<and> eval \<rho> p + int bytes \<le> uint (mo_address mo) + int (mo_size mo)"
  using bounds_check_value [OF assms, of \<rho>] by simp

theorem bounds_check_exact_witness:
  "eval (\<lambda>_ _. 3) (getBoundsCheckPointer_bytes sample_ctx sample_mo sample_offset 2) \<noteq> 1 \<and> eval (\<lambda>_ _. 3) sample_offset = 3"
proof -
  have "getWidth sample_offset = getPointerWidth sample_ctx" "object_fits sample_ctx sample_mo"
    "eval (\<lambda>_ _. 3) sample_offset = 3" "uint (mo_address sample_mo) = 4096"
    by code_simp+
  then show ?thesis
    using bounds_check_exact [of sample_offset sample_ctx sample_mo 2 "\<lambda>_ _. 3"] by simp
qed

end
