(* ===== verification/ConstantDivision.thy ===== *)
theory ConstantDivision
  imports Bits
begin

text \<open>
  The constants for multiplication and division of \<open>klee/lib/Solver/ConstantDivision.cpp\<close>, on 32-bit and 64-bit
  machine words with the wrap-around of the source. The difference of the two multiplication constants is the
  multiplicand and they share no bit; the division constants stand for the multiplier \<open>magic\<close>, which divides every
  32-bit number. A division by zero (the divisor is zero) and an index outside a word are \<open>None\<close>.
\<close>

declare One_nat_def [simp del]

subsection \<open>Counting bits\<close>

definition ones :: "32 word \<Rightarrow> 32 word" where
  "ones x =
     (let x = x - (drop_bit 1 x AND 0x55555555);
          x = (drop_bit 2 x AND 0x33333333) + (x AND 0x33333333);
          x = (drop_bit 4 x + x) AND 0x0f0f0f0f;
          x = x + drop_bit 8 x;
          x = x + drop_bit 16 x
      in x AND 0x0000003f)"

definition ldz :: "32 word \<Rightarrow> 32 word" where
  "ldz x =
     (let x = x OR drop_bit 1 x;
          x = x OR drop_bit 2 x;
          x = x OR drop_bit 4 x;
          x = x OR drop_bit 8 x;
          x = x OR drop_bit 16 x
      in 32 - ones x)"

definition LOG2_CEIL :: "32 word \<Rightarrow> 32 word" where
  "LOG2_CEIL x = 32 - ldz (x - 1)"

definition exp_base_2 :: "32 word \<Rightarrow> 32 word" where
  "exp_base_2 n = push_bit (unat n) (drop_bit 31 (NOT n AND (n - 32)))"

subsection \<open>Multiplication\<close>

lemma run_of_ones:
  assumes "x \<noteq> (0 :: 'a::len word)"
  obtains low high where "low < high" "high \<le> LENGTH('a)" "\<And>i. i < low \<Longrightarrow> \<not> bit x i"
    "\<And>i. low \<le> i \<Longrightarrow> i < high \<Longrightarrow> bit x i" "\<not> bit x high"
proof -
  obtain low where low: "low < LENGTH('a)" "bit x low" "\<And>i. i < low \<Longrightarrow> \<not> bit x i"
    using lowest_bit [OF assms] by blast
  let ?P = "\<lambda>h. low < h \<and> \<not> bit x h"
  have "?P LENGTH('a)" using low(1) bit_imp_le_length by blast
  then have least: "?P (LEAST h. ?P h)" "(LEAST h. ?P h) \<le> LENGTH('a)"
    using LeastI [of ?P] Least_le [of ?P] by blast+
  have "bit x i" if "low \<le> i" "i < (LEAST h. ?P h)" for i
    using not_less_Least [OF that(2)] that(1) low(2) by (cases "i = low") auto
  with least low that show ?thesis by blast
qed

lemma run_value:
  fixes x :: "'a::len word"
  assumes "low < high" "high \<le> LENGTH('a)" "\<And>i. i < low \<Longrightarrow> \<not> bit x i" "\<And>i. low \<le> i \<Longrightarrow> i < high \<Longrightarrow> bit x i"
  shows "x + push_bit low 1 = (x AND NOT (mask high)) + push_bit high 1"
proof -
  have "x = (x AND NOT (mask high)) OR (mask high AND NOT (mask low))"
    by (rule bit_word_eqI) (use assms in \<open>auto simp: bit_simps not_less\<close>)
  also have "\<dots> = (x AND NOT (mask high)) + (mask high AND NOT (mask low))"
    by (rule disjunctive_add_eq_or [symmetric], rule bit_word_eqI) (auto simp: bit_simps)
  finally have x: "x = (x AND NOT (mask high)) + (mask high AND NOT (mask low))" .
  have "mask high = (mask high AND NOT (mask low)) OR (mask low :: 'a word)"
    by (rule bit_word_eqI) (use assms(1) in \<open>auto simp: bit_simps\<close>)
  also have "\<dots> = (mask high AND NOT (mask low)) + mask low"
    by (rule disjunctive_add_eq_or [symmetric], rule bit_word_eqI) (auto simp: bit_simps)
  finally have "(mask high AND NOT (mask low)) + push_bit low 1 = push_bit high (1 :: 'a word)"
    by (simp add: mask_eq_exp_minus_1 push_bit_of_1 algebra_simps)
  then show ?thesis by (subst x) (simp add: algebra_simps)
qed

definition run_above :: "64 word \<Rightarrow> nat \<Rightarrow> 64 word" where
  "run_above x high = x AND NOT (mask high)"

text \<open>What one round of the loop computes from the lowest run of ones.\<close>

lemma run_round:
  fixes x :: "64 word"
  assumes "low < high" "high \<le> 64" "\<forall>i < low. \<not> bit x i" "\<forall>i. low \<le> i \<and> i < high \<longrightarrow> bit x i" "\<not> bit x high"
  shows "indexOfRightmostBit64 x = Some low"
    "x + push_bit low 1 = run_above x high + push_bit high 1"
    "isolateRightmostBit (x + push_bit low 1) = push_bit high 1"
    "(x + push_bit low 1) XOR push_bit high 1 = run_above x high"
    "unat (run_above x high) < unat x"
proof -
  have low: "bit x low" "low < 64" using assms(1,2,4) by auto
  show "indexOfRightmostBit64 x = Some low"
    using isolateRightmostBit_push [OF low(1)] assms(3) indexOfSingleBit64_push [OF low(2)]
    by (simp add: indexOfRightmostBit64_def)
  show p: "x + push_bit low 1 = run_above x high + push_bit high 1"
    unfolding run_above_def using assms by (intro run_value) simp_all
  have b: "\<not> bit (run_above x high) i" if "i \<le> high" for i
    using that assms(5) by (cases "i = high") (auto simp: run_above_def bit_simps)
  have por: "x + push_bit low 1 = run_above x high OR push_bit high 1"
    unfolding p by (rule disjunctive_add_eq_or, rule bit_word_eqI) (use b in \<open>auto simp: bit_simps\<close>)
  show "isolateRightmostBit (x + push_bit low 1) = push_bit high 1"
  proof (cases "high = 64")
    case True
    have "run_above x high = 0" unfolding True run_above_def
      by (rule bit_word_eqI) (auto simp: bit_simps)
    moreover have z: "push_bit high (1 :: 64 word) = 0" unfolding True
      by (rule bit_word_eqI) (simp only: bit_push_bit_iff, auto)
    ultimately have "x + push_bit low 1 = 0" using p by simp
    with z show ?thesis by (simp add: isolateRightmostBit_def)
  next
    case False
    then have "bit (x + push_bit low 1) high" using assms(2) unfolding por by (simp add: bit_simps)
    moreover have "\<not> bit (x + push_bit low 1) i" if "i < high" for i
      using that b [of i] unfolding por by (auto simp: bit_simps)
    ultimately show ?thesis by (rule isolateRightmostBit_push)
  qed
  show "(x + push_bit low 1) XOR push_bit high 1 = run_above x high"
    unfolding por by (rule bit_word_eqI) (use b in \<open>auto simp: bit_simps\<close>)
  have "run_above x high + (x AND mask high) = x"
    unfolding run_above_def
    by (subst disjunctive_add_eq_or, rule bit_word_eqI, simp add: bit_simps, rule bit_word_eqI) (auto simp: bit_simps)
  moreover have "x AND mask high \<noteq> 0"
  proof
    assume "x AND mask high = 0"
    then have "\<not> bit (x AND mask high) low" by simp
    with low assms(1) show False by (simp add: bit_simps)
  qed
  moreover have "run_above x high \<le> x"
    unfolding run_above_def by (rule word_and_le2)
  ultimately have "run_above x high < x" by (metis add.right_neutral add_left_cancel order_le_less)
  then show "unat (run_above x high) < unat x" by (simp add: word_less_nat_alt)
qed


definition add_run :: "nat \<Rightarrow> nat \<Rightarrow> 64 word \<times> 64 word \<Rightarrow> 64 word \<times> 64 word" where
  "add_run low high cs =
     (case cs of (add, sub) \<Rightarrow>
        let lowbit = push_bit low 1 in
        if high = low + 1 then (add OR lowbit, sub)
        else
          (case (if low \<noteq> 0 \<and> add AND drop_bit 1 lowbit \<noteq> 0
                 then (add XOR drop_bit 1 lowbit, sub XOR drop_bit 1 lowbit)
                 else (add, sub OR lowbit)) of
             (add, sub) \<Rightarrow> (if high \<noteq> 64 then add OR push_bit high 1 else add, sub)))"

function mult_loop :: "64 word \<Rightarrow> 64 word \<times> 64 word \<Rightarrow> (64 word \<times> 64 word) option" where
  "mult_loop x cs =
     (if x = 0 then Some cs
      else case indexOfRightmostBit64 x of
        None \<Rightarrow> None
      | Some low \<Rightarrow>
          let p = x + push_bit low 1; q = isolateRightmostBit p in
          case (if q \<noteq> 0 then indexOfSingleBit64 q else Some 64) of
            None \<Rightarrow> None
          | Some high \<Rightarrow> mult_loop (p XOR q) (add_run low high cs))"
  by pat_completeness auto

text \<open>Every round clears the lowest run of ones.\<close>

lemma mult_round:
  assumes "x \<noteq> 0"
  obtains low high where "low < high" "high \<le> 64" "indexOfRightmostBit64 x = Some low"
    "(let q = isolateRightmostBit (x + push_bit low 1) in if q \<noteq> 0 then indexOfSingleBit64 q else Some 64) = Some high"
    "(x + push_bit low 1) XOR isolateRightmostBit (x + push_bit low 1) = run_above x high"
    "x + push_bit low 1 = run_above x high + push_bit high 1" "bit x low" "\<not> bit x high"
    "unat (run_above x high) < unat x"
proof -
  from run_of_ones [OF assms] obtain low high where
    r0: "low < high" "high \<le> LENGTH(64)" "\<And>i. i < low \<Longrightarrow> \<not> bit x i" "\<And>i. low \<le> i \<Longrightarrow> i < high \<Longrightarrow> bit x i"
      "\<not> bit x high"
    by blast
  then have r: "low < high" "high \<le> LENGTH(64)" "\<forall>i < low. \<not> bit x i" "\<forall>i. low \<le> i \<and> i < high \<longrightarrow> bit x i"
    "\<not> bit x high" by simp_all
  have high: "high \<le> 64" using r(2) by simp
  note rr = run_round [OF r(1) high r(3-5)]
  have "(if push_bit high 1 \<noteq> (0 :: 64 word) then indexOfSingleBit64 (push_bit high 1) else Some 64) = Some high"
  proof (cases "high = 64")
    case True
    have "push_bit high (1 :: 64 word) = 0"
      unfolding True by (rule bit_word_eqI) (simp only: bit_push_bit_iff, auto)
    with True show ?thesis by simp
  next
    case False
    then have "high < 64" using high by simp
    moreover have "push_bit high (1 :: 64 word) \<noteq> 0"
    proof
      assume "push_bit high (1 :: 64 word) = 0"
      then have "\<not> bit (push_bit high (1 :: 64 word)) high" by (simp only: bit_0_eq bot_apply bot_bool_def not_False_eq_True)
      with \<open>high < 64\<close> show False by (simp only: bit_push_bit_iff) simp
    qed
    ultimately show ?thesis by (simp only: indexOfSingleBit64_push if_True not_False_eq_True)
  qed
  then have q: "(let q = isolateRightmostBit (x + push_bit low 1) in if q \<noteq> 0 then indexOfSingleBit64 q else Some 64) = Some high"
    by (simp only: rr(3) Let_def)
  have low: "bit x low" using r(1,4) by simp
  show thesis
    by (rule that [OF r(1) high rr(1) q _ rr(2) low r(5) rr(5)]) (subst rr(3), rule rr(4))
qed

termination mult_loop
proof (relation "measure (\<lambda>(x, cs). unat x)")
  fix x low p q high and cs :: "64 word \<times> 64 word"
  assume x: "x \<noteq> 0" and l: "indexOfRightmostBit64 x = Some low" and p: "p = x + push_bit low 1"
    and q: "q = isolateRightmostBit p" and h: "(if q \<noteq> 0 then indexOfSingleBit64 q else Some 64) = Some high"
  from mult_round [OF x] obtain low' high' where "indexOfRightmostBit64 x = Some low'"
    "(x + push_bit low' 1) XOR isolateRightmostBit (x + push_bit low' 1) = run_above x high'"
    "unat (run_above x high') < unat x" by metis
  with l p q show "((p XOR q, add_run low high cs), (x, cs)) \<in> measure (\<lambda>(x, cs). unat x)" by simp
qed simp

declare mult_loop.simps [simp del]

definition ComputeMultConstants64 :: "64 word \<Rightarrow> (64 word \<times> 64 word) option" where
  "ComputeMultConstants64 multiplicand =
     (case mult_loop multiplicand (0, 0) of
        None \<Rightarrow> None
      | Some (add, sub) \<Rightarrow> if multiplicand = add - sub then Some (add, sub) else None)"

text \<open>The two constants share no bit, and use only bits below what is left of the multiplicand.\<close>

definition consts_ok :: "64 word \<Rightarrow> 64 word \<times> 64 word \<Rightarrow> bool" where
  "consts_ok x cs \<longleftrightarrow> (\<forall>i. \<not> (bit (fst cs) i \<and> bit (snd cs) i)) \<and>
     (\<forall>i j. bit (fst cs) i \<or> bit (snd cs) i \<longrightarrow> bit x j \<longrightarrow> i < j)"

lemma bit_single: "bit (push_bit n 1 :: 'a::len word) i \<longleftrightarrow> i = n \<and> n < LENGTH('a)"
  by (auto simp: bit_exp_iff)

lemma disjoint_or_add: "(\<And>i. \<not> (bit a i \<and> bit b i)) \<Longrightarrow> a OR b = a + (b :: 'a::len word)"
  by (rule disjunctive_add_eq_or [symmetric]) (rule bit_word_eqI, simp add: bit_and_iff)

lemma single_xor_sub:
  assumes "bit (a :: 'a::len word) n"
  shows "a XOR push_bit n 1 = a - push_bit n 1"
proof -
  have "a = (a XOR push_bit n 1) OR push_bit n 1"
    by (rule bit_word_eqI) (use assms in \<open>auto simp only: bit_or_iff bit_xor_iff bit_single\<close>)
  also have "\<dots> = (a XOR push_bit n 1) + push_bit n 1"
    using assms by (intro disjoint_or_add) (auto simp only: bit_xor_iff bit_single)
  finally show ?thesis by (simp only: eq_diff_eq)
qed

lemma single_xor_add:
  assumes "\<not> bit (a :: 'a::len word) n"
  shows "a XOR push_bit n 1 = a + push_bit n 1"
proof -
  have "a XOR push_bit n 1 = a OR push_bit n 1"
    by (rule bit_word_eqI) (use assms in \<open>auto simp only: bit_or_iff bit_xor_iff bit_single\<close>)
  also have "\<dots> = a + push_bit n 1"
    using assms by (intro disjoint_or_add) (auto simp only: bit_single)
  finally show ?thesis .
qed

lemma single_test:
  assumes "n < LENGTH('a)"
  shows "a AND push_bit n 1 \<noteq> 0 \<longleftrightarrow> bit (a :: 'a::len word) n"
proof -
  have "a AND push_bit n 1 = (if bit a n then push_bit n 1 else 0)"
    by (rule bit_word_eqI) (auto simp: bit_and_iff bit_exp_iff)
  moreover have "push_bit n (1 :: 'a word) \<noteq> 0"
    using bit_single [of n n, where 'a = 'a] assms by (metis bit_0_eq bot_apply bot_bool_def)
  ultimately show ?thesis by (metis (full_types))
qed

lemma add_run_ok:
  assumes "consts_ok x cs" "low < high" "high \<le> 64" "bit x low" "\<not> bit x high"
  shows "consts_ok (run_above x high) (add_run low high cs) \<and>
    fst (add_run low high cs) - snd (add_run low high cs) = fst cs - snd cs + (push_bit high 1 - push_bit low 1)"
proof -
  obtain add sub where cs: "cs = (add, sub)" by (cases cs)
  have disj: "\<not> (bit add i \<and> bit sub i)" and below: "bit add i \<or> bit sub i \<Longrightarrow> i < low" for i
    using assms(1,4) by (auto simp: consts_ok_def cs)
  have low: "low < LENGTH(64)" "low < 64" using assms(2,3) by simp_all
  have above: "bit (run_above x high) j \<Longrightarrow> high < j" for j
    using assms(5) by (cases "j = high") (auto simp: run_above_def bit_simps)
  let ?b = "\<lambda>n. push_bit n 1 :: 64 word"
  have orA: "add OR ?b n = add + ?b n" if "low \<le> n" for n
    using below [of n] that by (intro disjoint_or_add) (auto simp add: bit_single simp del: push_bit_of_1)
  have top: "(if high \<noteq> 64 then a OR ?b high else a) = a + ?b high" if "\<And>i. bit a i \<Longrightarrow> i < high" for a
  proof (cases "high = 64")
    case True
    have "?b high = 0" by (rule bit_word_eqI) (use True in \<open>simp add: bit_single del: push_bit_of_1\<close>)
    with True show ?thesis by simp
  next
    case False
    have "a OR ?b high = a + ?b high"
      using that [of high] by (intro disjoint_or_add) (auto simp only: bit_single)
    with False show ?thesis by simp
  qed
  have bits_top: "bit (if high \<noteq> 64 then a OR ?b high else a) i \<longleftrightarrow> bit a i \<or> i = high \<and> high < 64" for a i
    using assms(3) by (auto simp add: bit_or_iff bit_single simp del: push_bit_of_1)
  have half: "drop_bit 1 (?b low) = ?b (low - 1)" if "low \<noteq> 0"
    by (rule bit_word_eqI) (use that low in \<open>auto simp: bit_drop_bit_eq bit_single simp del: push_bit_of_1\<close>)
  have double: "?b (Suc n) = ?b n + ?b n" for n by (simp add: push_bit_of_1)
  consider (one) "high = low + 1" | (merge) "high \<noteq> low + 1" "low \<noteq> 0" "bit add (low - 1)"
    | (plain) "high \<noteq> low + 1" "low = 0 \<or> \<not> bit add (low - 1)" by argo
  then show ?thesis
  proof cases
    case one
    have r: "add_run low high cs = (add OR ?b low, sub)" by (simp add: add_run_def cs one Let_def)
    have "consts_ok (run_above x high) (add OR ?b low, sub)"
      using disj below above one unfolding consts_ok_def fst_conv snd_conv bit_or_iff bit_single by fastforce
    moreover have "?b high = ?b low + ?b low" using double [of low] one by (simp only: One_nat_def add_Suc_right add_0_right)
    ultimately show ?thesis unfolding r unfolding cs fst_conv snd_conv orA [OF order_refl] by (simp del: push_bit_of_1)
  next
    case merge
    let ?h = "low - 1"
    let ?add = "if high \<noteq> 64 then (add XOR ?b ?h) OR ?b high else add XOR ?b ?h" and ?sub = "sub XOR ?b ?h"
    have h: "?h < LENGTH(64)" "?h < low" using merge(2) low by simp_all
    have r: "add_run low high cs = (?add, ?sub)"
      using merge single_test [OF h(1), of add] by (simp add: add_run_def cs Let_def half del: push_bit_of_1)
    have ns: "\<not> bit sub ?h" using disj [of ?h] merge(3) by blast
    have ba: "bit (add XOR ?b ?h) i \<longleftrightarrow> bit add i \<and> i \<noteq> ?h" for i
      using merge(3) h(1) by (auto simp only: bit_xor_iff bit_single)
    have bs: "bit ?sub i \<longleftrightarrow> bit sub i \<or> i = ?h" for i
      using ns h(1) by (auto simp only: bit_xor_iff bit_single)
    have "consts_ok (run_above x high) (?add, ?sub)"
      unfolding consts_ok_def fst_conv snd_conv bits_top ba bs
    proof (intro conjI allI impI)
      fix i show "\<not> ((bit add i \<and> i \<noteq> ?h \<or> i = high \<and> high < 64) \<and> (bit sub i \<or> i = ?h))"
        using disj [of i] below [of i] h(2) assms(2) by auto
    next
      fix i j assume "(bit add i \<and> i \<noteq> ?h \<or> i = high \<and> high < 64) \<or> bit sub i \<or> i = ?h" "bit (run_above x high) j"
      then show "i < j" using below [of i] above [of j] h(2) assms(2) by auto
    qed
    moreover have "?add = add - ?b ?h + ?b high"
    proof -
      have e: "?add = (add XOR ?b ?h) + ?b high"
      proof (rule top)
        fix i assume "bit (add XOR ?b ?h) i"
        then show "i < high" using ba [of i] below [of i] assms(2) by simp
      qed
      then show ?thesis by (simp only: single_xor_sub [OF merge(3)])
    qed
    moreover have "?sub = sub + ?b ?h" by (rule single_xor_add [OF ns])
    moreover have "?b low = ?b ?h + ?b ?h" using double [of ?h] merge(2) by (simp only: One_nat_def Suc_pred neq0_conv)
    ultimately show ?thesis unfolding r unfolding cs fst_conv snd_conv by (simp del: push_bit_of_1)
  next
    case plain
    let ?add = "if high \<noteq> 64 then add OR ?b high else add" and ?sub = "sub OR ?b low"
    have "low \<noteq> 0 \<Longrightarrow> add AND drop_bit 1 (?b low) = 0"
      using plain(2) single_test [of "low - 1" add] low half by (metis less_imp_diff_less)
    then have r: "add_run low high cs = (?add, ?sub)"
      using plain(1) by (auto simp add: add_run_def cs Let_def simp del: push_bit_of_1)
    have bs: "bit ?sub i \<longleftrightarrow> bit sub i \<or> i = low" for i
      using low by (auto simp only: bit_or_iff bit_single)
    have "consts_ok (run_above x high) (?add, ?sub)"
      unfolding consts_ok_def fst_conv snd_conv bits_top bs
    proof (intro conjI allI impI)
      fix i show "\<not> ((bit add i \<or> i = high \<and> high < 64) \<and> (bit sub i \<or> i = low))"
        using disj [of i] below [of i] assms(2) by auto
    next
      fix i j assume "(bit add i \<or> i = high \<and> high < 64) \<or> bit sub i \<or> i = low" "bit (run_above x high) j"
      then show "i < j" using below [of i] above [of j] assms(2) by auto
    qed
    moreover have "?add = add + ?b high"
    proof (rule top)
      fix i assume "bit add i"
      then show "i < high" using below [of i] assms(2) by simp
    qed
    moreover have "?sub = sub + ?b low"
      using below [of low] by (intro disjoint_or_add) (auto simp only: bit_single)
    ultimately show ?thesis unfolding r unfolding cs fst_conv snd_conv by (simp del: push_bit_of_1)
  qed
qed


lemma mult_loop_correct:
  "consts_ok x cs \<Longrightarrow> \<exists>add sub. mult_loop x cs = Some (add, sub) \<and> consts_ok 0 (add, sub) \<and> add - sub = fst cs - snd cs + x"
proof (induction "unat x" arbitrary: x cs rule: less_induct)
  case less
  show ?case
  proof (cases "x = 0")
    case True
    then show ?thesis using less.prems by (cases cs) (auto simp: mult_loop.simps)
  next
    case False
    from mult_round [OF this] obtain low high where r: "low < high" "high \<le> 64" "indexOfRightmostBit64 x = Some low"
      "(let q = isolateRightmostBit (x + push_bit low 1) in if q \<noteq> 0 then indexOfSingleBit64 q else Some 64) = Some high"
      "(x + push_bit low 1) XOR isolateRightmostBit (x + push_bit low 1) = run_above x high"
      "x + push_bit low 1 = run_above x high + push_bit high 1" "bit x low" "\<not> bit x high"
      "unat (run_above x high) < unat x" by blast
    note step = add_run_ok [OF less.prems r(1,2,7,8)]
    from less.hyps [OF r(9) step [THEN conjunct1]] obtain add sub where
      IH: "mult_loop (run_above x high) (add_run low high cs) = Some (add, sub)" "consts_ok 0 (add, sub)"
        "add - sub = fst (add_run low high cs) - snd (add_run low high cs) + run_above x high" by blast
    have "mult_loop x cs = mult_loop (run_above x high) (add_run low high cs)"
      using False r(3,4,5) by (subst mult_loop.simps) (simp add: Let_def del: push_bit_of_1)
    moreover have "fst (add_run low high cs) - snd (add_run low high cs) + run_above x high = fst cs - snd cs + x"
    proof -
      have x: "x = run_above x high + push_bit high 1 - push_bit low 1"
        using r(6) by (simp only: eq_diff_eq)
      show ?thesis unfolding step [THEN conjunct2] by (subst (2) x) (simp only: algebra_simps)
    qed
    ultimately show ?thesis using IH by simp
  qed
qed

lemma ComputeMultConstants64_Some:
  "\<exists>add sub. ComputeMultConstants64 m = Some (add, sub) \<and> m = add - sub \<and> add AND sub = 0"
proof -
  have "consts_ok m (0, 0)" by (simp add: consts_ok_def)
  from mult_loop_correct [OF this] obtain add sub where
    a: "mult_loop m (0, 0) = Some (add, sub)" "consts_ok 0 (add, sub)" "add - sub = m" by auto
  have "add AND sub = 0"
    by (rule bit_word_eqI) (use a(2) in \<open>auto simp: consts_ok_def bit_and_iff\<close>)
  with a show ?thesis by (simp add: ComputeMultConstants64_def)
qed

text \<open>
  C37: The multiplication constants: for every 64-bit multiplicand the loop ends, the assertion at its end holds (the
  difference of the two constants is the multiplicand), and no bit is both added and subtracted, which is what the users
  of the constants assert.
\<close>

theorem mult_constants_correct:
  "\<exists>add sub. ComputeMultConstants64 m = Some (add, sub) \<and> m = add - sub \<and> add AND sub = 0"
  by (rule ComputeMultConstants64_Some)


subsection \<open>Logarithms\<close>

lemma smear_step:
  assumes "\<And>i. bit y i \<longleftrightarrow> (\<exists>j<n. bit x (i + j))"
  shows "bit (y OR drop_bit n y) i \<longleftrightarrow> (\<exists>j<n + n. bit (x :: 32 word) (i + j))"
proof -
  have "(\<exists>j<n + n. bit x (i + j)) \<longleftrightarrow> (\<exists>j<n. bit x (i + j)) \<or> (\<exists>j<n. bit x (n + i + j))"
  proof
    assume "\<exists>j<n + n. bit x (i + j)"
    then obtain j where j: "j < n + n" "bit x (i + j)" by blast
    then show "(\<exists>j<n. bit x (i + j)) \<or> (\<exists>j<n. bit x (n + i + j))"
      by (cases "j < n") (auto intro: exI [of _ "j - n"])
  next
    assume "(\<exists>j<n. bit x (i + j)) \<or> (\<exists>j<n. bit x (n + i + j))"
    then show "\<exists>j<n + n. bit x (i + j)"
    proof
      assume "\<exists>j<n. bit x (n + i + j)"
      then obtain j where j: "j < n" "bit x (n + i + j)" by blast
      then show ?thesis by (intro exI [of _ "n + j"]) (simp add: ac_simps)
    qed (auto intro: trans_less_add1)
  qed
  then show ?thesis by (simp add: bit_or_iff bit_drop_bit_eq assms)
qed

definition smear :: "32 word \<Rightarrow> 32 word" where
  "smear x =
     (let x = x OR drop_bit 1 x; x = x OR drop_bit 2 x; x = x OR drop_bit 4 x; x = x OR drop_bit 8 x
      in x OR drop_bit 16 x)"

lemma smear_bit: "bit (smear x) i \<longleftrightarrow> (\<exists>j<32. bit x (i + j))"
proof -
  have 0: "bit x i \<longleftrightarrow> (\<exists>j<1. bit x (i + j))" for i by auto
  note 1 = smear_step [OF 0, simplified one_add_one]
  note 2 = smear_step [OF 1, simplified numeral_plus_numeral Num.add_num_simps]
  note 3 = smear_step [OF 2, simplified numeral_plus_numeral Num.add_num_simps]
  note 4 = smear_step [OF 3, simplified numeral_plus_numeral Num.add_num_simps]
  show ?thesis unfolding smear_def Let_def
    using smear_step [OF 4, simplified numeral_plus_numeral Num.add_num_simps] .
qed

lemma ldz_smear: "ldz x = 32 - ones (smear x)"
  by (simp only: ldz_def smear_def Let_def)

lemma ones_masks: "list_all (\<lambda>k. ones (mask k) = of_nat k) [0..<33]"
  by code_simp

lemma ones_mask: "k \<le> 32 \<Longrightarrow> ones (mask k) = of_nat k"
  using ones_masks by (simp only: list_all_iff set_upt ball_simps atLeastLessThan_iff) simp

text \<open>The number of bits of a word: the least power of two above it.\<close>

lemma ldz_bounds:
  obtains k where "ldz x = 32 - of_nat k" "k \<le> 32" "unat x < 2 ^ k" "x \<noteq> 0 \<Longrightarrow> 0 < k \<and> 2 ^ (k - 1) \<le> unat x"
proof (cases "x = 0")
  case True
  have "smear 0 = mask 0" by (rule bit_word_eqI) (simp add: smear_bit)
  then have "ldz x = 32 - of_nat 0" using ones_mask [of 0] True by (simp only: ldz_smear)
  with True that [of 0] show thesis by simp
next
  case False
  then obtain j0 where j0: "bit x j0" by (auto simp: bit_eq_iff)
  define k where "k = Max {j. bit x j}"
  have fin: "finite {j. bit x j}" by (rule finite_subset [of _ "{..<32}"]) (auto dest: bit_imp_le_length)
  have k: "bit x k" using Max_in [OF fin] j0 by (auto simp: k_def)
  have top: "\<And>j. bit x j \<Longrightarrow> j \<le> k" using Max_ge [OF fin] by (auto simp: k_def)
  have "k < 32" using bit_imp_le_length [OF k] by simp
  have "smear x = mask (Suc k)"
  proof (rule bit_word_eqI)
    fix i assume "i < LENGTH(32)"
    have "(\<exists>j<32. bit x (i + j)) \<longleftrightarrow> i \<le> k"
    proof
      assume "i \<le> k" then show "\<exists>j<32. bit x (i + j)"
        using k \<open>k < 32\<close> by (intro exI [of _ "k - i"]) auto
    qed (use top in force)
    then show "bit (smear x) i \<longleftrightarrow> bit (mask (Suc k) :: 32 word) i"
      using \<open>i < LENGTH(32)\<close> by (simp add: smear_bit bit_mask_iff less_Suc_eq_le)
  qed
  then have "ldz x = 32 - of_nat (Suc k)" using ones_mask [of "Suc k"] \<open>k < 32\<close> by (simp only: ldz_smear)
  moreover have "unat x < 2 ^ Suc k"
  proof -
    have "take_bit (Suc k) x = x" by (rule bit_word_eqI) (use top in \<open>auto simp: bit_take_bit_iff less_Suc_eq_le\<close>)
    then have "unat x = take_bit (Suc k) (unat x)" by (metis unsigned_take_bit_eq)
    then show ?thesis by (metis take_bit_nat_less_exp)
  qed
  moreover have "2 ^ k \<le> unat x"
  proof -
    have "bit (unat x) k" using k by (simp add: bit_unsigned_iff)
    then have "odd (unat x div 2 ^ k)" by (simp add: bit_iff_odd)
    then have "0 < unat x div 2 ^ k" by (metis even_zero gr0I)
    then show ?thesis by (simp add: div_greater_zero_iff)
  qed
  ultimately show thesis using that [of "Suc k"] \<open>k < 32\<close> by simp
qed

lemma LOG2_CEIL_bounds:
  assumes "d \<noteq> 0"
  obtains l where "LOG2_CEIL d = of_nat l" "l \<le> 32" "unat d \<le> 2 ^ l" "l \<noteq> 0 \<Longrightarrow> 2 ^ (l - 1) < unat d"
proof -
  have d: "unat (d - 1) = unat d - 1" "0 < unat d"
    using assms by (simp_all add: unat_minus_one unat_gt_0)
  from ldz_bounds [of "d - 1"] obtain k where k: "ldz (d - 1) = 32 - of_nat k" "k \<le> 32" "unat (d - 1) < 2 ^ k"
    "d - 1 \<noteq> 0 \<longrightarrow> 0 < k \<and> 2 ^ (k - 1) \<le> unat (d - 1)" by metis
  show thesis
  proof (cases "d = 1")
    case True
    have "smear 0 = mask 0" by (rule bit_word_eqI) (simp add: smear_bit)
    then have "LOG2_CEIL d = of_nat 0" using ones_mask [of 0] True by (simp add: LOG2_CEIL_def ldz_smear)
    with True that [of 0] show thesis by simp
  next
    case False
    then have "0 < k" "2 ^ (k - 1) \<le> unat d - 1" using k(4) d by auto
    moreover have "LOG2_CEIL d = of_nat k" by (simp add: LOG2_CEIL_def k(1))
    moreover have "unat d \<le> 2 ^ k" using k(3) d by simp
    moreover have "2 ^ (k - 1) < unat d" using calculation(2) d(2) by linarith
    ultimately show thesis using that [of k] k(2) by blast
  qed
qed

lemma exp_base_2_list: "list_all (\<lambda>n. exp_base_2 (word_of_int (int n)) = (if n < 32 then push_bit n 1 else 0)) [0..<33]"
  by code_simp

lemma exp_base_2_value:
  assumes "n \<le> 32"
  shows "exp_base_2 (of_nat n) = of_nat (2 ^ n)"
proof -
  have "n \<in> set [0..<33]" using assms by simp
  then have e: "exp_base_2 (of_nat n) = (if n < 32 then push_bit n 1 else 0)"
    using exp_base_2_list unfolding list_all_iff of_int_of_nat_eq by blast
  show ?thesis
  proof (cases "n < 32")
    case True
    then show ?thesis using e by (simp add: push_bit_of_1)
  next
    case False
    then have n: "n = 32" using assms by simp
    have "(of_nat (2 ^ 32) :: 32 word) = 0"
      using word_exp_length_eq_0 [where 'a = 32]
      by (simp only: of_nat_power of_nat_numeral len_bit0 len_num1 mult_2 numeral_plus_numeral One_nat_def) simp
    then show ?thesis unfolding e unfolding n by (simp only: less_irrefl if_False)
  qed
qed

subsection \<open>Division\<close>

definition ComputeUDivConstants32 :: "32 word \<Rightarrow> (32 word \<times> 32 word \<times> 32 word) option" where
  "ComputeUDivConstants32 d =
     (let l = LOG2_CEIL d; mid = exp_base_2 l - d in
      if d = 0 then None
      else let mprime = ucast ((2 ^ 32 * ucast mid :: 64 word) div ucast d) + 1;
               sh1 = (if sint (1 :: 32 word) < sint l then 1 else l);
               sh2 = (if sint (l - 1) < 0 then 0 else l - 1)
           in Some (mprime, sh1, sh2))"

text \<open>The multiplier, as a number, and the division it stands for.\<close>

definition magic :: "nat \<Rightarrow> nat \<Rightarrow> nat" where
  "magic k d = 2 ^ k div d + 1"

lemma magic_mult:
  assumes "0 < d"
  obtains e where "magic k d * d = 2 ^ k + e" "0 < e" "e \<le> d"
proof -
  have "magic k d * d + 2 ^ k mod d = 2 ^ k + d"
    by (simp add: magic_def algebra_simps)
  moreover have "2 ^ k mod d < d" using assms by simp
  ultimately show thesis using that [of "d - 2 ^ k mod d"] by simp
qed

lemma magic_split:
  assumes d: "0 < (d::nat)"
  obtains e where "d * (n * magic k d) = d * (n div d * 2 ^ k) + (n mod d * 2 ^ k + n * e)" "0 < e" "e \<le> d"
proof -
  obtain e where e: "magic k d * d = 2 ^ k + e" "0 < e" "e \<le> d" using magic_mult [OF d] .
  have "d * (n * magic k d) = n * 2 ^ k + n * e" using e(1) by (metis distrib_left mult.assoc mult.commute)
  moreover have "n * 2 ^ k = d * (n div d * 2 ^ k) + n mod d * 2 ^ k"
    by (subst div_mult_mod_eq [of n d, symmetric]) (simp only: algebra_simps)
  ultimately have "d * (n * magic k d) = d * (n div d * 2 ^ k) + (n mod d * 2 ^ k + n * e)" by simp
  then show thesis using e(2,3) by (rule that)
qed

lemma mod_scaled: "0 < (d::nat) \<Longrightarrow> n mod d * 2 ^ k + 2 ^ k \<le> d * 2 ^ k"
  by (metis Suc_leI add.commute mod_less_divisor mult_Suc mult_le_mono1)

lemma magic_quotient:
  assumes d: "0 < (d::nat)" and n: "n * d < 2 ^ k"
  shows "n * magic k d div 2 ^ k = n div d"
proof -
  obtain e where e: "d * (n * magic k d) = d * (n div d * 2 ^ k) + (n mod d * 2 ^ k + n * e)" "0 < e" "e \<le> d"
    using magic_split [OF d] .
  have "n * e < 2 ^ k" using n e(3) by (meson le_less_trans mult_le_mono2)
  then have "d * (n * magic k d) < d * (Suc (n div d) * 2 ^ k)"
    using e(1) mod_scaled [OF d, of n k] by (simp add: algebra_simps)
  moreover have "d * (n div d * 2 ^ k) \<le> d * (n * magic k d)" using e(1) by linarith
  ultimately show ?thesis by (intro div_nat_eqI) (use d in \<open>simp_all add: mult.commute\<close>)
qed

lemma magic_negative:
  assumes d: "0 < (d::nat)" and n: "0 < n" "n * d \<le> 2 ^ k"
  shows "n div d * 2 ^ k < n * magic k d" "n * magic k d \<le> Suc (n div d) * 2 ^ k"
proof -
  obtain e where e: "d * (n * magic k d) = d * (n div d * 2 ^ k) + (n mod d * 2 ^ k + n * e)" "0 < e" "e \<le> d"
    using magic_split [OF d] .
  have "n * e \<le> 2 ^ k" using n(2) e(3) by (meson le_trans mult_le_mono2)
  then have "d * (n * magic k d) \<le> d * (Suc (n div d) * 2 ^ k)"
    using e(1) mod_scaled [OF d, of n k] by (simp add: algebra_simps)
  then show "n * magic k d \<le> Suc (n div d) * 2 ^ k" using d by simp
  have "0 < n * e" using n(1) e(2) by simp
  then have "d * (n div d * 2 ^ k) < d * (n * magic k d)" using e(1) by linarith
  then show "n div d * 2 ^ k < n * magic k d" using d by simp
qed

lemma magic_sdiv:
  assumes "0 < D" "D \<le> 2 ^ l" "- (2 ^ 31) \<le> n" "n < 2 ^ 31"
  shows "n * int (magic (31 + l) D) div 2 ^ (31 + l) = (if n < 0 then - int (nat (- n) div D) - 1 else int (nat n div D))"
proof (cases "n < 0")
  case False
  have "nat n * D < 2 ^ 31 * 2 ^ l" using assms False by (intro mult_less_le_imp_less) auto
  then have "nat n * magic (31 + l) D div 2 ^ (31 + l) = nat n div D"
    by (intro magic_quotient assms(1)) (simp only: power_add)
  then have "int (nat n * magic (31 + l) D div 2 ^ (31 + l)) = int (nat n div D)" by simp
  then show ?thesis using False by (simp add: zdiv_int)
next
  case True
  let ?k = "nat (- n)"
  have k: "0 < ?k" "n = - int ?k" using True by simp_all
  have "?k * D \<le> 2 ^ 31 * 2 ^ l" using assms by (intro mult_le_mono) auto
  then have kD: "?k * D \<le> 2 ^ (31 + l)" by (simp only: power_add)
  note b = magic_negative [OF assms(1) k(1) kD]
  have "int (?k div D) * 2 ^ (31 + l) < int ?k * int (magic (31 + l) D)"
    "int ?k * int (magic (31 + l) D) \<le> (int (?k div D) + 1) * 2 ^ (31 + l)"
    using b by (simp_all only: of_nat_less_iff [symmetric, where 'a = int] of_nat_le_iff [symmetric, where 'a = int]
      of_nat_mult of_nat_power of_nat_numeral of_nat_Suc add.commute)
  then have "n * int (magic (31 + l) D) div 2 ^ (31 + l) = - int (?k div D) - 1"
    by (intro int_div_pos_eq [where r = "n * int (magic (31 + l) D) + (int (?k div D) + 1) * 2 ^ (31 + l)"])
      (use k(2) in \<open>simp_all add: algebra_simps\<close>)
  with True show ?thesis by simp
qed

lemma shift_amounts:
  "list_all (\<lambda>l. unat (if sint (1 :: 32 word) < sint (of_int (int l) :: 32 word) then 1 else (of_int (int l) :: 32 word)) = min l 1) [0..<33]"
  "list_all (\<lambda>l. unat (if sint (of_int (int l) - 1 :: 32 word) < 0 then 0 else (of_int (int l) - 1 :: 32 word)) = l - 1) [0..<33]"
  by code_simp+

lemma udiv_constants:
  assumes d: "d \<noteq> 0"
  obtains l mprime sh1 sh2 where "ComputeUDivConstants32 d = Some (mprime, sh1, sh2)"
    "2 ^ 32 + unat mprime = magic (32 + l) (unat d)" "unat d \<le> 2 ^ l" "l \<le> 32"
    "unat sh1 = min l 1" "unat sh2 = l - 1"
proof -
  from LOG2_CEIL_bounds [OF d] obtain l where l: "LOG2_CEIL d = of_nat l" "l \<le> 32" "unat d \<le> 2 ^ l"
    "l \<noteq> 0 \<longrightarrow> 2 ^ (l - 1) < unat d" by metis
  let ?D = "unat d"
  have D: "0 < ?D" "?D < 2 ^ 32" using d unsigned_less [of d] by (simp_all add: unat_gt_0)
  have lD: "2 ^ l < 2 * ?D"
  proof (cases "l = 0")
    case False
    then have "2 ^ l = 2 * (2::nat) ^ (l - 1)" by (metis power_eq_if)
    with False l(4) show ?thesis by linarith
  qed (use D in simp)
  define mid where "mid = exp_base_2 (of_nat l) - d"
  have mid: "unat mid = 2 ^ l - ?D"
  proof -
    have "mid = of_nat (2 ^ l) - of_nat ?D" unfolding mid_def exp_base_2_value [OF l(2)] by simp
    also have "\<dots> = of_nat (2 ^ l - ?D)" using l(3) by (simp only: of_nat_diff)
    finally have "unat mid = take_bit LENGTH(32) (2 ^ l - ?D)" by (simp only: unsigned_of_nat of_nat_id)
    moreover have "2 ^ l - ?D < 2 ^ 32" using lD D by linarith
    ultimately show ?thesis by (simp only: take_bit_nat_eq_self len_bit0 len_num1 mult_2 numeral_plus_numeral) (simp add: take_bit_nat_eq_self)
  qed
  define M where "M = (2 ^ 32 * ucast mid :: 64 word) div ucast d"
  have d64: "unat (ucast d :: 64 word) = ?D" "unat (ucast mid :: 64 word) = unat mid"
    by (simp_all add: unsigned_ucast_eq take_bit_nat_eq_self less_trans [OF unsigned_less])
  have small: "2 ^ 32 * (2 ^ l - ?D) < (2::nat) ^ 64"
    using lD D(2) by (intro less_le_trans [OF mult_strict_left_mono, of _ "2 ^ 32"]) simp_all
  have "unat (2 ^ 32 * ucast mid :: 64 word) = take_bit 64 (2 ^ 32 * (2 ^ l - ?D))"
    by (simp add: unat_word_ariths d64 mid take_bit_eq_mod)
  then have p: "unat (2 ^ 32 * ucast mid :: 64 word) = 2 ^ 32 * (2 ^ l - ?D)"
    using small by (simp only: take_bit_nat_eq_self)
  have M: "unat M = 2 ^ 32 * (2 ^ l - ?D) div ?D"
    unfolding M_def unat_div_distrib p d64 ..
  have eq: "2 ^ 32 * (2 ^ l - ?D) + 2 ^ 32 * ?D = 2 ^ (32 + l)"
    unfolding distrib_left [symmetric] power_add using l(3) by (simp only: le_add_diff_inverse2)
  have "2 ^ (32 + l) div ?D = 2 ^ 32 * (2 ^ l - ?D) div ?D + 2 ^ 32"
    unfolding eq [symmetric] using D(1) by simp
  then have Mm: "2 ^ 32 + (unat M + 1) = magic (32 + l) ?D"
    unfolding magic_def M by (simp only: ac_simps)
  have "2 ^ 32 * (2 ^ l - ?D) \<le> 2 ^ 32 * (?D - 1)" using lD D(1) by simp
  also have "\<dots> < (2 ^ 32 - 1) * ?D" using D by (simp add: algebra_simps)
  finally have M32: "unat M < 2 ^ 32 - 1" unfolding M using D(1) by (simp add: div_less_iff_less_mult)
  have "unat (ucast M + 1 :: 32 word) = take_bit 32 (unat M + 1)"
    by (simp add: unat_word_ariths unsigned_ucast_eq take_bit_eq_mod mod_add_left_eq)
  then have mp: "unat (ucast M + 1 :: 32 word) = unat M + 1"
    using M32 by (simp only: take_bit_nat_eq_self)
  have l33: "l \<in> set [0..<33]" using l(2) by simp
  have sh1: "unat (if sint (1 :: 32 word) < sint (of_nat l :: 32 word) then 1 else (of_nat l :: 32 word)) = min l 1"
    using shift_amounts(1) l33 unfolding list_all_iff of_int_of_nat_eq by blast
  have sh2: "unat (if sint (of_nat l - 1 :: 32 word) < 0 then 0 else (of_nat l - 1 :: 32 word)) = l - 1"
    using shift_amounts(2) l33 unfolding list_all_iff of_int_of_nat_eq by blast
  have "ComputeUDivConstants32 d = Some (ucast M + 1,
      if sint (1 :: 32 word) < sint (of_nat l :: 32 word) then 1 else of_nat l,
      if sint (of_nat l - 1 :: 32 word) < 0 then 0 else of_nat l - 1)"
    using d by (simp only: ComputeUDivConstants32_def l(1) Let_def M_def mid_def if_False)
  from that [OF this _ l(3) l(2) sh1 sh2] mp Mm show thesis by simp
qed

lemma udiv_by_magic:
  assumes "0 < d" "d \<le> 2 ^ l" "2 ^ 32 + m = magic (32 + l) d" "n < 2 ^ 32" "m < 2 ^ 32"
  shows "n * m div 2 ^ 32 \<le> n" "(n - n * m div 2 ^ 32) div 2 ^ min l 1 + n * m div 2 ^ 32 \<le> n"
    "((n - n * m div 2 ^ 32) div 2 ^ min l 1 + n * m div 2 ^ 32) div 2 ^ (l - 1) = n div d"
proof -
  let ?t = "n * m div 2 ^ 32"
  have "n * m \<le> n * 2 ^ 32" using assms(5) by simp
  then have "?t \<le> n * 2 ^ 32 div 2 ^ 32" by (rule div_le_mono)
  then show t: "?t \<le> n" by simp
  have "(n - ?t) div 2 ^ min l 1 \<le> n - ?t" by simp
  with t show "(n - ?t) div 2 ^ min l 1 + ?t \<le> n" by linarith
  have "n * d < 2 ^ 32 * 2 ^ l"
    using assms(1,2,4) by (intro mult_less_le_imp_less) simp_all
  then have "n * d < 2 ^ (32 + l)" by (simp only: power_add)
  then have "n div d = n * magic (32 + l) d div 2 ^ (32 + l)" using magic_quotient assms(1) by simp
  also have "\<dots> = (n * 2 ^ 32 + n * m) div 2 ^ 32 div 2 ^ l"
    by (simp only: assms(3) [symmetric] distrib_left power_add div_mult2_eq)
  also have "\<dots> = (n + ?t) div 2 ^ l" by simp
  finally have q: "n div d = (n + ?t) div 2 ^ l" .
  show "((n - ?t) div 2 ^ min l 1 + ?t) div 2 ^ (l - 1) = n div d"
  proof (cases "l = 0")
    case True
    then have "d = 1" using assms(1,2) by simp
    with True show ?thesis using q t by simp
  next
    case False
    then have "(2::nat) ^ l = 2 * 2 ^ (l - 1)" "min l 1 = 1" by (simp_all add: power_eq_if)
    moreover have "(n - ?t) div 2 + ?t = (n + ?t) div 2" using t by linarith
    ultimately show ?thesis unfolding q by (simp only: power_one_right div_mult2_eq)
  qed
qed

definition ComputeSDivConstants32 :: "32 word \<Rightarrow> (32 word \<times> 32 word \<times> 32 word) option" where
  "ComputeSDivConstants32 d =
     (let d64 = (scast d :: 64 word);
          abs_d = (if 0 < sint d64 then d64 else - d64);
          k = LOG2_CEIL (ucast abs_d);
          l = (if 1 < k then k else 1);
          l = (if abs_d = 2 ^ 31 then 31 else l);
          mid = exp_base_2 (l - 1)
      in if abs_d = 0 then None
         else let m = 2 ^ 32 * ucast mid div abs_d + 1
              in Some (ucast (m - 2 ^ 32), signed_drop_bit 31 d, l - 1))"

lemma abs_word:
  "unat (if 0 < sint (scast d :: 64 word) then scast d else - scast d :: 64 word) = nat \<bar>sint (d :: 32 word)\<bar>"
proof -
  have r: "- (2 ^ 31) \<le> sint d" "sint d < 2 ^ 31" using sint_range_size [of d] by (simp_all add: word_size)
  have s: "sint (scast d :: 64 word) = sint d"
    using r by (simp add: signed_scast_eq signed_take_bit_int_eq_self)
  show ?thesis
  proof (cases "0 < sint d")
    case True
    have "uint (scast d :: 64 word) = take_bit LENGTH(64) (sint d)" by (simp only: scast_eq uint_word_of_int_eq)
    also have "\<dots> = sint d" using True r by (simp add: take_bit_int_eq_self)
    finally show ?thesis using True s by (simp add: unat_eq_nat_uint)
  next
    case False
    have "uint (- scast d :: 64 word) = take_bit LENGTH(64) (- sint d)"
      by (simp only: scast_eq uint_word_of_int_eq of_int_minus [symmetric])
    also have "\<dots> = - sint d" using False r by (simp add: take_bit_int_eq_self)
    finally show ?thesis using False s by (simp add: unat_eq_nat_uint)
  qed
qed

lemma ucast_word_of_int: "ucast (of_int z :: 64 word) = (of_int z :: 32 word)"
  by (rule bit_word_eqI) (simp add: bit_unsigned_iff bit_word_of_int_iff)

lemma sign_word: "signed_drop_bit 31 d = (if sint (d :: 32 word) < 0 then - 1 else 0)"
proof (rule signed_word_eqI)
  have r: "- (2 ^ 31) \<le> sint d" "sint d < 2 ^ 31" using sint_range_size [of d] by (simp_all add: word_size)
  have "sint (signed_drop_bit 31 d) = drop_bit 31 (sint d)" by (simp add: sint_signed_drop_bit_eq)
  also have "\<dots> = (if sint d < 0 then - 1 else 0)"
    using r by (auto simp: drop_bit_eq_div intro: int_div_pos_eq [where r = "sint d + 2 ^ 31"])
  finally show "sint (signed_drop_bit 31 d) = sint (if sint d < 0 then - 1 else 0 :: 32 word)" by simp
qed

lemma max_word:
  "list_all (\<lambda>k. (if 1 < (of_int (int k) :: 32 word) then of_int (int k) else 1) = (of_int (int (max k 1)) :: 32 word)) [0..<33]"
  by code_simp

lemma magic_bounds:
  assumes "0 < D" "D \<le> 2 ^ l" "1 \<le> l" "D \<noteq> 1 \<longrightarrow> 2 ^ (l - 1) < D" "D = 1 \<longrightarrow> l = 1"
  shows "2 ^ 31 < int (magic (31 + l) D)" "int (magic (31 + l) D) \<le> 2 ^ 32 + 1" "D \<noteq> 1 \<Longrightarrow> int (magic (31 + l) D) \<le> 2 ^ 32"
proof -
  have p: "(2::nat) ^ (31 + l) = 2 ^ 32 * 2 ^ (l - 1)"
    using assms(3) by (simp only: power_add [symmetric]) (rule arg_cong [where f = "power 2"], simp)
  have "2 ^ 31 \<le> (2::nat) ^ (31 + l) div D"
    using assms(1,2) by (simp add: less_eq_div_iff_mult_less_eq power_add)
  then have "2 ^ 31 < magic (31 + l) D" by (simp add: magic_def)
  then show "2 ^ 31 < int (magic (31 + l) D)" by (metis of_nat_less_iff of_nat_numeral of_nat_power)
  have less: "magic (31 + l) D \<le> 2 ^ 32" if "D \<noteq> 1"
  proof -
    have "(2::nat) ^ 32 * 2 ^ (l - 1) < 2 ^ 32 * D" using assms(4) that by simp
    then have "2 ^ (31 + l) div D < 2 ^ 32" unfolding p using assms(1) by (simp add: div_less_iff_less_mult)
    then show ?thesis by (simp add: magic_def)
  qed
  then show "D \<noteq> 1 \<Longrightarrow> int (magic (31 + l) D) \<le> 2 ^ 32"
    by (metis of_nat_le_iff of_nat_numeral of_nat_power)
  have "magic (31 + 1) 1 = 2 ^ 32 + 1" by (simp add: magic_def)
  then have "magic (31 + l) D \<le> 2 ^ 32 + 1" using less assms(5) 
    by (metis le_refl trans_le_add1)
  then have "int (magic (31 + l) D) \<le> int (2 ^ 32 + 1)" by (simp only: of_nat_le_iff)
  then show "int (magic (31 + l) D) \<le> 2 ^ 32 + 1" by simp
qed

lemma sdiv_constants:
  assumes d: "d \<noteq> 0"
  obtains l mprime dsign shpost where "ComputeSDivConstants32 d = Some (mprime, dsign, shpost)"
    "sint mprime = int (magic (31 + l) (nat \<bar>sint d\<bar>)) - 2 ^ 32" "nat \<bar>sint d\<bar> \<le> 2 ^ l" "1 \<le> l" "l \<le> 31"
    "nat \<bar>sint d\<bar> \<noteq> 1 \<longrightarrow> 2 ^ (l - 1) < nat \<bar>sint d\<bar>" "nat \<bar>sint d\<bar> = 1 \<longrightarrow> l = 1" "unat shpost = l - 1" "dsign = (if sint d < 0 then - 1 else 0)"
proof -
  let ?D = "nat \<bar>sint d\<bar>"
  define A where "A = (if 0 < sint (scast d :: 64 word) then scast d else - scast d :: 64 word)"
  have A: "unat A = ?D" unfolding A_def by (rule abs_word)
  have r: "- (2 ^ 31) \<le> sint d" "sint d < 2 ^ 31" using sint_range_size [of d] by (simp_all add: word_size)
  have "sint d \<noteq> 0" using d by (metis signed_0 signed_word_eqI)
  with r have D: "0 < ?D" "?D \<le> 2 ^ 31" by auto
  have "A \<noteq> 0" using A D(1) by auto
  define a where "a = (ucast A :: 32 word)"
  have a: "unat a = ?D" using A D by (simp add: a_def unsigned_ucast_eq take_bit_nat_eq_self)
  then have "a \<noteq> 0" using D(1) by auto
  from LOG2_CEIL_bounds [OF this] obtain k where k: "LOG2_CEIL a = of_nat k" "k \<le> 32" "?D \<le> 2 ^ k"
    "k \<noteq> 0 \<longrightarrow> 2 ^ (k - 1) < ?D" unfolding a by metis
  define l where "l = max k 1"
  have k31: "k \<le> 31"
  proof (rule ccontr)
    assume "\<not> k \<le> 31"
    then have "(2::nat) ^ 31 \<le> 2 ^ (k - 1)" by (intro power_increasing) simp_all
    with k(4) D(2) \<open>\<not> k \<le> 31\<close> show False by linarith
  qed
  have l: "1 \<le> l" "l \<le> 31" "?D \<le> 2 ^ l" "?D \<noteq> 1 \<longrightarrow> 2 ^ (l - 1) < ?D" "?D = 1 \<longrightarrow> l = 1"
  proof -
    show "1 \<le> l" "l \<le> 31" using k31 by (simp_all add: l_def)
    show "?D \<le> 2 ^ l" using k(3) by (rule order_trans) (simp only: power_increasing l_def max.cobounded1 one_le_numeral)
    show "?D \<noteq> 1 \<longrightarrow> 2 ^ (l - 1) < ?D"
    proof (cases "k = 0")
      case True
      then have "?D = 1" using k(3) D(1) by (simp only: power_0 le_antisym Suc_le_eq One_nat_def)
      then show ?thesis by blast
    next
      case False
      then have "l = k" by (simp add: l_def max_def)
      with k(4) False show ?thesis by blast
    qed
    have "k = 0" if "?D = 1" using k(4) unfolding that by (metis less_one power_not_zero zero_neq_numeral)
    then show "?D = 1 \<longrightarrow> l = 1" by (simp add: l_def)
  qed
  have "k \<in> set [0..<33]" using k(2) by simp
  then have "(if 1 < (of_nat k :: 32 word) then of_nat k else 1) = (of_nat l :: 32 word)"
    using max_word unfolding list_all_iff of_int_of_nat_eq l_def by blast
  moreover have "(if A = 2 ^ 31 then 31 else of_nat l) = (of_nat l :: 32 word)"
  proof (cases "A = 2 ^ 31")
    case True
    then have "?D = unat (of_nat (2 ^ 31) :: 64 word)" using A by (simp only: of_nat_power of_nat_numeral)
    also have "\<dots> = take_bit LENGTH(64) (2 ^ 31)" by (simp only: unsigned_of_nat of_nat_id)
    also have "\<dots> = 2 ^ 31" by (simp add: take_bit_nat_eq_self)
    finally have "(2::nat) ^ 31 \<le> 2 ^ l" using l(3) by simp
    then have "31 \<le> l" by (rule power_le_imp_le_exp [rotated]) simp
    with l(2) have "l = 31" by simp
    then show ?thesis by (simp only: of_nat_numeral if_cancel)
  qed simp
  ultimately have ll: "(let l = (if 1 < LOG2_CEIL a then LOG2_CEIL a else 1) in if A = 2 ^ 31 then 31 else l) = of_nat l"
    by (simp only: k(1) Let_def)
  define mid where "mid = exp_base_2 (of_nat l - 1)"
  have l1: "of_nat l - 1 = (of_nat (l - 1) :: 32 word)" using l(1) by (simp add: of_nat_diff)
  have l31: "(2::nat) ^ (l - 1) < 2 ^ 32" using l(2) by (intro power_strict_increasing) simp_all
  have "mid = of_nat (2 ^ (l - 1))" unfolding mid_def l1 using l(2) by (intro exp_base_2_value) simp
  then have "unat mid = take_bit LENGTH(32) (2 ^ (l - 1))" by (simp only: unsigned_of_nat of_nat_id)
  also have "\<dots> = 2 ^ (l - 1)" using l31 by (intro take_bit_nat_eq_self) simp
  finally have mid: "unat mid = 2 ^ (l - 1)" .
  define m where "m = 2 ^ 32 * ucast mid div A + (1 :: 64 word)"
  have u: "unat (ucast mid :: 64 word) = 2 ^ (l - 1)"
    by (simp add: unsigned_ucast_eq mid take_bit_nat_eq_self less_trans [OF l31] del: take_bit_of_exp)
  have e: "2 ^ 32 * 2 ^ (l - 1) = (2::nat) ^ (31 + l)"
    using l(1) by (simp only: power_add [symmetric]) (rule arg_cong [where f = "power 2"], simp)
  have b: "(2::nat) ^ (31 + l) < 2 ^ 63" using l(2) by (intro power_strict_increasing) simp_all
  have "unat (2 ^ 32 * ucast mid :: 64 word) = take_bit 64 (2 ^ 32 * 2 ^ (l - 1))"
    by (simp add: unat_word_ariths u take_bit_eq_mod)
  also have "\<dots> = 2 ^ (31 + l)" unfolding e by (intro take_bit_nat_eq_self less_trans [OF b]) simp
  finally have q: "unat (2 ^ 32 * ucast mid div A) = 2 ^ (31 + l) div ?D" unfolding unat_div_distrib A by simp
  have "X div D + 1 < 2 ^ 64" if "X < 2 ^ 63" for X D :: nat
    using le_less_trans [OF div_le_dividend that, of D] by simp
  from this [OF b] have "2 ^ (31 + l) div ?D + 1 < 2 ^ 64" .
  then have um: "unat m = magic (31 + l) ?D"
    unfolding m_def magic_def q [symmetric]
    by (simp only: unat_word_ariths unsigned_1 len_bit0 len_num1 mult_2 numeral_plus_numeral) simp
  have small: "- (2 ^ 31) \<le> int (magic (31 + l) ?D) - 2 ^ 32" "int (magic (31 + l) ?D) - 2 ^ 32 < 2 ^ 31"
    using magic_bounds [OF D(1) l(3,1,4,5)] by simp_all
  have "sint (ucast (m - 2 ^ 32) :: 32 word) = int (magic (31 + l) ?D) - 2 ^ 32"
  proof -
    have "m = of_int (int (magic (31 + l) ?D))" unfolding um [symmetric] by simp
    then have "m - 2 ^ 32 = of_int (int (magic (31 + l) ?D) - 2 ^ 32)"
      by (simp only: of_int_diff of_int_power of_int_numeral)
    then have "sint (ucast (m - 2 ^ 32) :: 32 word) = sint (of_int (int (magic (31 + l) ?D) - 2 ^ 32) :: 32 word)"
      by (simp only: ucast_word_of_int)
    also have "\<dots> = signed_take_bit 31 (int (magic (31 + l) ?D) - 2 ^ 32)"
      by (simp only: sint_sbintrunc' len_bit0 len_num1 mult_2 numeral_plus_numeral) simp
    also have "\<dots> = int (magic (31 + l) ?D) - 2 ^ 32" using small by (rule signed_take_bit_int_eq_self)
    finally show ?thesis .
  qed
  moreover note sign_word [of d]
  moreover have "unat (of_nat l - 1 :: 32 word) = l - 1"
    using l(2) by (simp add: l1 unsigned_of_nat take_bit_nat_eq_self)
  moreover have "ComputeSDivConstants32 d = Some (ucast (m - 2 ^ 32), signed_drop_bit 31 d, of_nat l - 1)"
    using \<open>A \<noteq> 0\<close> ll unfolding ComputeSDivConstants32_def Let_def
    by (simp only: A_def [symmetric] a_def [symmetric] m_def mid_def if_False)
  ultimately show thesis using that l by blast
qed

end
