(* ===== verification/STPBuilder.thy ===== *)
theory STPBuilder
  imports ConstantDivision ObjectState
begin

text \<open>
  The builder of STP terms, \<open>klee/lib/Solver/STPBuilder.cpp\<close> with the hash of arrays and update nodes of
  \<open>klee/include/klee/Expr/ArrayExprHash.h\<close>. STP is not part of the repository: the functions of its C interface that the
  builder calls are the record \<open>stp_ops\<close>, a parameter of every definition, and the locale \<open>stp_interface\<close> states
  what the builder relies on (the type of each term, and its value under a model that gives every array variable its
  contents). It leaves open what a division by zero gives and what an ill-typed call does.

  A failed assertion is \<open>None\<close>, as is the division by zero the machine traps on. The arguments of a call are evaluated
  from left to right. The key of the hash of update nodes is the node with its array; in the code it is the address of
  the node, which belongs to the list of one array. Deleting terms is not modelled.
\<close>

declare One_nat_def [simp del]

subsection \<open>The interface of STP\<close>

datatype vc_type = BoolType | BvType width | ArrayType width width

record 't stp_ops =
  vc_trueExpr :: 't
  vc_falseExpr :: 't
  vc_varExpr :: "string \<Rightarrow> vc_type \<Rightarrow> 't"
  vc_getBVLength :: "'t \<Rightarrow> width"
  vc_bvConstExprFromInt :: "width \<Rightarrow> int \<Rightarrow> 't"
  vc_bvConstExprFromLL :: "width \<Rightarrow> int \<Rightarrow> 't"
  vc_eqExpr :: "'t \<Rightarrow> 't \<Rightarrow> 't"
  vc_iffExpr :: "'t \<Rightarrow> 't \<Rightarrow> 't"
  vc_notExpr :: "'t \<Rightarrow> 't"
  vc_andExpr :: "'t \<Rightarrow> 't \<Rightarrow> 't"
  vc_orExpr :: "'t \<Rightarrow> 't \<Rightarrow> 't"
  vc_iteExpr :: "'t \<Rightarrow> 't \<Rightarrow> 't \<Rightarrow> 't"
  vc_bvConcatExpr :: "'t \<Rightarrow> 't \<Rightarrow> 't"
  vc_bvExtract :: "'t \<Rightarrow> nat \<Rightarrow> nat \<Rightarrow> 't"
  vc_bvSignExtend :: "'t \<Rightarrow> width \<Rightarrow> 't"
  vc_bvPlusExpr :: "width \<Rightarrow> 't \<Rightarrow> 't \<Rightarrow> 't"
  vc_bvMinusExpr :: "width \<Rightarrow> 't \<Rightarrow> 't \<Rightarrow> 't"
  vc_bvMultExpr :: "width \<Rightarrow> 't \<Rightarrow> 't \<Rightarrow> 't"
  vc_bvDivExpr :: "width \<Rightarrow> 't \<Rightarrow> 't \<Rightarrow> 't"
  vc_bvModExpr :: "width \<Rightarrow> 't \<Rightarrow> 't \<Rightarrow> 't"
  vc_sbvDivExpr :: "width \<Rightarrow> 't \<Rightarrow> 't \<Rightarrow> 't"
  vc_sbvRemExpr :: "width \<Rightarrow> 't \<Rightarrow> 't \<Rightarrow> 't"
  vc_bvUMinusExpr :: "'t \<Rightarrow> 't"
  vc_bvNotExpr :: "'t \<Rightarrow> 't"
  vc_bvAndExpr :: "'t \<Rightarrow> 't \<Rightarrow> 't"
  vc_bvOrExpr :: "'t \<Rightarrow> 't \<Rightarrow> 't"
  vc_bvXorExpr :: "'t \<Rightarrow> 't \<Rightarrow> 't"
  vc_bvLtExpr :: "'t \<Rightarrow> 't \<Rightarrow> 't"
  vc_bvLeExpr :: "'t \<Rightarrow> 't \<Rightarrow> 't"
  vc_sbvLtExpr :: "'t \<Rightarrow> 't \<Rightarrow> 't"
  vc_sbvLeExpr :: "'t \<Rightarrow> 't \<Rightarrow> 't"
  vc_readExpr :: "'t \<Rightarrow> 't \<Rightarrow> 't"
  vc_writeExpr :: "'t \<Rightarrow> 't \<Rightarrow> 't \<Rightarrow> 't"

subsection \<open>Constants\<close>

definition bvConst32 :: "'t stp_ops \<Rightarrow> width \<Rightarrow> int \<Rightarrow> 't" where
  "bvConst32 vc width value = vc_bvConstExprFromInt vc width value"

definition bvConst64 :: "'t stp_ops \<Rightarrow> width \<Rightarrow> int \<Rightarrow> 't" where
  "bvConst64 vc width value = vc_bvConstExprFromLL vc width value"

fun zext_chunks :: "'t stp_ops \<Rightarrow> 't \<Rightarrow> width \<Rightarrow> 't \<Rightarrow> 't" where
  "zext_chunks vc zero width expr =
     (if 64 < width then zext_chunks vc zero (width - 64) (vc_bvConcatExpr vc zero expr)
      else vc_bvConcatExpr vc (bvConst64 vc width 0) expr)"

declare zext_chunks.simps [simp del]

definition bvZExtConst :: "'t stp_ops \<Rightarrow> width \<Rightarrow> int \<Rightarrow> 't" where
  "bvZExtConst vc width value =
     (if width \<le> 64 then bvConst64 vc width value
      else zext_chunks vc (bvConst64 vc 64 0) (width - 64) (bvConst64 vc 64 value))"

definition bvSExtConst :: "'t stp_ops \<Rightarrow> width \<Rightarrow> int \<Rightarrow> 't" where
  "bvSExtConst vc width value =
     (if width \<le> 64 then bvConst64 vc width value else vc_bvSignExtend vc (bvConst64 vc 64 value) width)"

definition bvOne :: "'t stp_ops \<Rightarrow> width \<Rightarrow> 't" where
  "bvOne vc width = bvZExtConst vc width 1"

definition bvZero :: "'t stp_ops \<Rightarrow> width \<Rightarrow> 't" where
  "bvZero vc width = bvZExtConst vc width 0"

definition bvMinusOne :: "'t stp_ops \<Rightarrow> width \<Rightarrow> 't" where
  "bvMinusOne vc width = bvSExtConst vc width (2 ^ 64 - 1)"

definition bvExtract :: "'t stp_ops \<Rightarrow> 't \<Rightarrow> nat \<Rightarrow> nat \<Rightarrow> 't" where
  "bvExtract vc expr top_bit bottom = vc_bvExtract vc expr top_bit bottom"

definition bvBoolExtract :: "'t stp_ops \<Rightarrow> 't \<Rightarrow> nat \<Rightarrow> 't" where
  "bvBoolExtract vc expr b = vc_eqExpr vc (bvExtract vc expr b b) (bvOne vc 1)"

definition eqExpr :: "'t stp_ops \<Rightarrow> 't \<Rightarrow> 't \<Rightarrow> 't option" where
  "eqExpr vc a b = (if vc_getBVLength vc a = vc_getBVLength vc b then Some (vc_eqExpr vc a b) else None)"

subsection \<open>Shifts\<close>

definition bvRightShift :: "'t stp_ops \<Rightarrow> 't \<Rightarrow> nat \<Rightarrow> 't" where
  "bvRightShift vc expr shift =
     (let width = vc_getBVLength vc expr in
      if shift = 0 then expr
      else if width \<le> shift then bvZero vc width
      else vc_bvConcatExpr vc (bvZero vc shift) (bvExtract vc expr (width - 1) shift))"

definition bvLeftShift :: "'t stp_ops \<Rightarrow> 't \<Rightarrow> nat \<Rightarrow> 't" where
  "bvLeftShift vc expr shift =
     (let width = vc_getBVLength vc expr in
      if shift = 0 then expr
      else if width \<le> shift then bvZero vc width
      else vc_bvConcatExpr vc (bvExtract vc expr (width - shift - 1) 0) (bvZero vc shift))"

definition constructAShrByConstant :: "'t stp_ops \<Rightarrow> 't \<Rightarrow> nat \<Rightarrow> 't \<Rightarrow> 't" where
  "constructAShrByConstant vc expr shift isSigned =
     (let width = vc_getBVLength vc expr in
      if shift = 0 then expr
      else if width \<le> shift then bvZero vc width
      else vc_iteExpr vc isSigned (vc_bvConcatExpr vc (bvMinusOne vc shift) (bvExtract vc expr (width - 1) shift))
             (bvRightShift vc expr shift))"

text \<open>\<open>APInt::getActiveBits\<close> of the width.\<close>

fun activeBits :: "nat \<Rightarrow> nat" where
  "activeBits n = (if n = 0 then 0 else activeBits (n div 2) + 1)"

declare activeBits.simps [simp del]

definition extractPartialShiftValue :: "'t stp_ops \<Rightarrow> 't \<Rightarrow> width \<Rightarrow> 't \<times> nat" where
  "extractPartialShiftValue vc shift width =
     (let shiftBits = activeBits width in (vc_bvExtract vc shift (shiftBits - 1) 0, shiftBits))"

text \<open>The chain of cases that the three shifts by a variable amount build, one per amount in the list.\<close>

fun shift_cases :: "'t stp_ops \<Rightarrow> 't \<times> nat \<Rightarrow> (nat \<Rightarrow> 't) \<Rightarrow> nat list \<Rightarrow> 't \<Rightarrow> 't option" where
  "shift_cases vc ext by_const [] res = Some res"
| "shift_cases vc ext by_const (i # is) res = do {
     eq \<leftarrow> eqExpr vc (fst ext) (bvConst32 vc (snd ext) (int i));
     shift_cases vc ext by_const is (vc_iteExpr vc eq (by_const i) res) }"

definition shift_guard :: "'t stp_ops \<Rightarrow> 't \<Rightarrow> width \<Rightarrow> 't \<Rightarrow> 't" where
  "shift_guard vc shift width res =
     vc_iteExpr vc (vc_bvLtExpr vc shift (bvConst32 vc (vc_getBVLength vc shift) (int width))) res (bvZero vc width)"

definition bvVarLeftShift :: "'t stp_ops \<Rightarrow> 't \<Rightarrow> 't \<Rightarrow> 't option" where
  "bvVarLeftShift vc expr shift = do {
     let width = vc_getBVLength vc expr;
     res \<leftarrow> shift_cases vc (extractPartialShiftValue vc shift width) (bvLeftShift vc expr) (rev [0..<width]) (bvZero vc width);
     Some (shift_guard vc shift width res) }"

definition bvVarRightShift :: "'t stp_ops \<Rightarrow> 't \<Rightarrow> 't \<Rightarrow> 't option" where
  "bvVarRightShift vc expr shift = do {
     let width = vc_getBVLength vc expr;
     res \<leftarrow> shift_cases vc (extractPartialShiftValue vc shift width) (bvRightShift vc expr) (rev [0..<width]) (bvZero vc width);
     Some (shift_guard vc shift width res) }"

definition bvVarArithRightShift :: "'t stp_ops \<Rightarrow> 't \<Rightarrow> 't \<Rightarrow> 't option" where
  "bvVarArithRightShift vc expr shift = do {
     let width = vc_getBVLength vc expr;
     let signedBool = bvBoolExtract vc expr (width - 1);
     res \<leftarrow> shift_cases vc (extractPartialShiftValue vc shift width) (\<lambda>i. constructAShrByConstant vc expr i signedBool)
       (rev [0..<width - 1]) (constructAShrByConstant vc expr (width - 1) signedBool);
     Some (shift_guard vc shift width res) }"

subsection \<open>Multiplication and division by constants\<close>

fun mul_terms :: "'t stp_ops \<Rightarrow> 't \<Rightarrow> width \<Rightarrow> 64 word \<Rightarrow> 64 word \<Rightarrow> nat list \<Rightarrow> 't option \<Rightarrow> 't option option" where
  "mul_terms vc expr width add sub [] res = Some res"
| "mul_terms vc expr width add sub (j # js) res =
     (let b = push_bit j 1; op = bvLeftShift vc expr j in
      if add AND b \<noteq> 0 \<or> sub AND b \<noteq> 0 then
        if add AND b \<noteq> 0 \<and> sub AND b \<noteq> 0 then None
        else mul_terms vc expr width add sub js
          (if add AND b \<noteq> 0
           then (case res of Some r \<Rightarrow> Some (vc_bvPlusExpr vc width r op) | None \<Rightarrow> Some op)
           else (case res of Some r \<Rightarrow> Some (vc_bvMinusExpr vc width r op) | None \<Rightarrow> Some (vc_bvUMinusExpr vc op)))
      else mul_terms vc expr width add sub js res)"

definition constructMulByConstant :: "'t stp_ops \<Rightarrow> 't \<Rightarrow> width \<Rightarrow> int \<Rightarrow> 't option" where
  "constructMulByConstant vc expr width x = do {
     (add, sub) \<leftarrow> ComputeMultConstants64 (of_int x);
     add \<leftarrow> truncateToNBits add width;
     sub \<leftarrow> truncateToNBits sub width;
     res \<leftarrow> mul_terms vc expr width add sub (rev [0..<64]) None;
     Some (case res of Some r \<Rightarrow> r | None \<Rightarrow> bvZero vc width) }"

definition constructUDivByConstant :: "'t stp_ops \<Rightarrow> 't \<Rightarrow> width \<Rightarrow> int \<Rightarrow> 't option" where
  "constructUDivByConstant vc expr_n width d = do {
     _ \<leftarrow> if width = 32 then Some () else None;
     (mprime, sh1, sh2) \<leftarrow> ComputeUDivConstants32 (of_int d);
     let expr_sh1 = bvConst32 vc 32 (uint sh1);
     let expr_sh2 = bvConst32 vc 32 (uint sh2);
     let expr_n_64 = vc_bvConcatExpr vc (bvZero vc 32) expr_n;
     t1_64bits \<leftarrow> constructMulByConstant vc expr_n_64 64 (uint mprime);
     let t1 = vc_bvExtract vc t1_64bits 63 32;
     let n_minus_t1 = vc_bvMinusExpr vc width expr_n t1;
     shift_sh1 \<leftarrow> bvVarRightShift vc n_minus_t1 expr_sh1;
     let plus_t1 = vc_bvPlusExpr vc width shift_sh1 t1;
     bvVarRightShift vc plus_t1 expr_sh2 }"

definition constructSDivByConstant :: "'t stp_ops \<Rightarrow> 't \<Rightarrow> width \<Rightarrow> int \<Rightarrow> 't option" where
  "constructSDivByConstant vc expr_n width d = do {
     _ \<leftarrow> if width = 32 then Some () else None;
     (mprime, dsign, shpost) \<leftarrow> ComputeSDivConstants32 (of_int d);
     let expr_dsign = bvConst32 vc 32 (uint dsign);
     let expr_shpost = bvConst32 vc 32 (uint shpost);
     let expr_n_64 = vc_bvSignExtend vc expr_n 64;
     mult_64 \<leftarrow> constructMulByConstant vc expr_n_64 64 (uint (scast mprime :: 64 word));
     let mulsh = vc_bvExtract vc mult_64 63 32;
     let n_plus_mulsh = vc_bvPlusExpr vc width expr_n mulsh;
     let extend_npm = vc_bvSignExtend vc n_plus_mulsh 64;
     shift_npm \<leftarrow> bvVarRightShift vc extend_npm expr_shpost;
     let shift_shpost = vc_bvExtract vc shift_npm 31 0;
     let is_signed = bvBoolExtract vc expr_n 31;
     let xsign_of_n = vc_iteExpr vc is_signed (bvMinusOne vc 32) (bvZero vc 32);
     let q0 = vc_bvMinusExpr vc width shift_shpost xsign_of_n;
     let q0_xor_dsign = vc_bvXorExpr vc q0 expr_dsign;
     Some (vc_bvMinusExpr vc width q0_xor_dsign expr_dsign) }"

subsection \<open>Arrays\<close>

record stp_options =
  optimizeDivides :: bool
  UseConstructHash :: bool

record 't stp_builder =
  constructed :: "expr \<rightharpoonup> 't \<times> width"
  array_hash :: "(array \<times> 't) list"
  update_node_hash :: "array \<times> updates \<rightharpoonup> 't"

definition new_builder :: "'t stp_builder" where
  "new_builder = \<lparr>constructed = Map.empty, array_hash = [], update_node_hash = Map.empty\<rparr>"

function const_chunks :: "'t stp_ops \<Rightarrow> apint \<Rightarrow> 't \<Rightarrow> 't" where
  "const_chunks vc Tmp Res =
     (if 64 < getBitWidth Tmp then
        let Tmp = CE_Extract Tmp 64 (getBitWidth Tmp - 64); Width = min 64 (getBitWidth Tmp)
        in const_chunks vc Tmp (vc_bvConcatExpr vc (bvConst64 vc Width (getZExtValue (CE_Extract Tmp 0 Width))) Res)
      else Res)"
  by pat_completeness auto
termination
  by (relation "measure (\<lambda>(vc, Tmp, Res). getBitWidth Tmp)") (auto simp: CE_Extract_def zextOrTrunc_def mkAPInt_def)

declare const_chunks.simps [simp del]

definition constructConstant :: "'t stp_ops \<Rightarrow> apint \<Rightarrow> 't" where
  "constructConstant vc CE =
     (let width = getBitWidth CE in
      if width = 1 then if isTrue CE then vc_trueExpr vc else vc_falseExpr vc
      else if width \<le> 32 then bvConst32 vc width (getZExtValue CE)
      else if width \<le> 64 then bvConst64 vc width (getZExtValue CE)
      else const_chunks vc CE (bvConst64 vc 64 (getZExtValue (CE_Extract CE 0 64))))"

definition buildArray :: "'t stp_ops \<Rightarrow> string \<Rightarrow> width \<Rightarrow> width \<Rightarrow> 't" where
  "buildArray vc name indexWidth valueWidth = vc_varExpr vc name (ArrayType indexWidth valueWidth)"

definition unique_name :: "string \<Rightarrow> nat \<Rightarrow> string" where
  "unique_name name n =
     (let unique_id = utostr n; uid_length = length unique_id;
          space = (if 32 - uid_length < length name then 32 - uid_length else length name)
      in take space name @ unique_id)"

definition initialArray :: "'t stp_ops \<Rightarrow> array \<Rightarrow> string \<Rightarrow> 't" where
  "initialArray vc root name =
     (let array_expr = buildArray vc name (arr_domain root) (arr_range root) in
      if isConstantArray root
      then foldl (\<lambda>prev i. vc_writeExpr vc prev (constructConstant vc (mkAPInt (arr_domain root) (int i)))
                   (constructConstant vc (constantValues root ! i))) array_expr [0..<arr_size root]
      else array_expr)"

definition getInitialArray :: "'t stp_ops \<Rightarrow> array \<Rightarrow> 't stp_builder \<Rightarrow> 't \<times> 't stp_builder" where
  "getInitialArray vc root st =
     (case map_of (array_hash st) root of
        Some array_expr \<Rightarrow> (array_expr, st)
      | None \<Rightarrow>
          let array_expr = initialArray vc root (unique_name (arr_name root) (length (array_hash st)))
          in (array_expr, st\<lparr>array_hash := (root, array_expr) # array_hash st\<rparr>))"

definition getInitialRead :: "'t stp_ops \<Rightarrow> array \<Rightarrow> nat \<Rightarrow> 't stp_builder \<Rightarrow> 't \<times> 't stp_builder" where
  "getInitialRead vc root index st =
     (let (array_expr, st) = getInitialArray vc root st in (vc_readExpr vc array_expr (bvConst32 vc 32 (int index)), st))"

subsection \<open>Construction\<close>

type_synonym 't build = "'t stp_builder \<Rightarrow> (('t \<times> width) \<times> 't stp_builder) option"

definition unsigned_limited :: "apint \<Rightarrow> nat" where
  "unsigned_limited CE = nat (take_bit 32 (getLimitedValue CE (2 ^ 64 - 1)))"

definition constructArith :: "'t stp_ops \<Rightarrow> (width \<Rightarrow> 't \<Rightarrow> 't \<Rightarrow> 't) \<Rightarrow> 't build \<Rightarrow> 't build \<Rightarrow> 't build" where
  "constructArith vc oper left right st = do {
     ((l, _), st) \<leftarrow> left st;
     ((r, width_out), st) \<leftarrow> right st;
     if width_out = 1 then None else Some ((oper width_out l r, width_out), st) }"

definition constructMul :: "'t stp_ops \<Rightarrow> expr \<Rightarrow> 't build \<Rightarrow> 't build \<Rightarrow> 't build" where
  "constructMul vc le left right st = do {
     ((r, width_out), st) \<leftarrow> right st;
     if width_out = 1 then None
     else case asConst le of
       Some CE \<Rightarrow>
         if getBitWidth CE \<le> 64
         then do { res \<leftarrow> constructMulByConstant vc r width_out (getZExtValue CE); Some ((res, width_out), st) }
         else do { ((l, width_out), st) \<leftarrow> left st; Some ((vc_bvMultExpr vc width_out l r, width_out), st) }
     | None \<Rightarrow> do { ((l, width_out), st) \<leftarrow> left st; Some ((vc_bvMultExpr vc width_out l r, width_out), st) } }"

definition constructUDiv :: "'t stp_ops \<Rightarrow> stp_options \<Rightarrow> expr \<Rightarrow> 't build \<Rightarrow> 't build \<Rightarrow> 't build" where
  "constructUDiv vc opts re left right st = do {
     ((l, width_out), st) \<leftarrow> left st;
     let general = do { ((r, width_out), st) \<leftarrow> right st; Some ((vc_bvDivExpr vc width_out l r, width_out), st) };
     if width_out = 1 then None
     else case asConst re of
       None \<Rightarrow> general
     | Some CE \<Rightarrow>
         if getBitWidth CE \<le> 64 then
           let divisor = getZExtValue CE in
           if isPowerOfTwo (of_int divisor :: 64 word)
           then do { n \<leftarrow> indexOfSingleBit64 (of_int divisor); Some ((bvRightShift vc l n, width_out), st) }
           else if optimizeDivides opts \<and> width_out = 32
           then do { res \<leftarrow> constructUDivByConstant vc l width_out (take_bit 32 divisor); Some ((res, width_out), st) }
           else general
         else general }"

definition constructSDiv :: "'t stp_ops \<Rightarrow> stp_options \<Rightarrow> expr \<Rightarrow> 't build \<Rightarrow> 't build \<Rightarrow> 't build" where
  "constructSDiv vc opts re left right st = do {
     ((l, width_out), st) \<leftarrow> left st;
     let general = do { ((r, width_out), st) \<leftarrow> right st; Some ((vc_sbvDivExpr vc width_out l r, width_out), st) };
     if width_out = 1 then None
     else case asConst re of
       None \<Rightarrow> general
     | Some CE \<Rightarrow>
         if optimizeDivides opts \<and> CE \<noteq> mkAPInt (getBitWidth CE) 1 \<and> CE \<noteq> mkAPInt (getBitWidth CE) (- 1) \<and> width_out = 32
         then if 32 < getBitWidth CE then None
           else do { res \<leftarrow> constructSDivByConstant vc l width_out (getZExtValue CE); Some ((res, width_out), st) }
         else general }"

definition constructURem :: "'t stp_ops \<Rightarrow> stp_options \<Rightarrow> expr \<Rightarrow> 't build \<Rightarrow> 't build \<Rightarrow> 't build" where
  "constructURem vc opts re left right st = do {
     ((l, width_out), st) \<leftarrow> left st;
     let general = do { ((r, width_out), st) \<leftarrow> right st; Some ((vc_bvModExpr vc width_out l r, width_out), st) };
     if width_out = 1 then None
     else case asConst re of
       None \<Rightarrow> general
     | Some CE \<Rightarrow>
         if getBitWidth CE \<le> 64 then
           let divisor = getZExtValue CE in
           if isPowerOfTwo (of_int divisor :: 64 word)
           then do {
             bits \<leftarrow> indexOfSingleBit64 (of_int divisor);
             if bits = 0 then Some ((bvZero vc width_out, width_out), st)
             else Some ((vc_bvConcatExpr vc (bvZero vc (width_out - bits)) (bvExtract vc l (bits - 1) 0), width_out), st) }
           else if optimizeDivides opts \<and> width_out = 32
           then do {
             quotient \<leftarrow> constructUDivByConstant vc l width_out (take_bit 32 divisor);
             quot_times_divisor \<leftarrow> constructMulByConstant vc quotient width_out divisor;
             Some ((vc_bvMinusExpr vc width_out l quot_times_divisor, width_out), st) }
           else general
         else general }"

definition constructBitwise :: "'t stp_ops \<Rightarrow> ('t \<Rightarrow> 't \<Rightarrow> 't) \<Rightarrow> ('t \<Rightarrow> 't \<Rightarrow> 't) \<Rightarrow> 't build \<Rightarrow> 't build \<Rightarrow> 't build" where
  "constructBitwise vc on_bool on_bv left right st = do {
     ((l, _), st) \<leftarrow> left st;
     ((r, width_out), st) \<leftarrow> right st;
     Some ((if width_out = 1 then on_bool l r else on_bv l r, width_out), st) }"

definition constructShift ::
  "'t stp_ops \<Rightarrow> ('t \<Rightarrow> width \<Rightarrow> nat \<Rightarrow> 't) \<Rightarrow> ('t \<Rightarrow> 't \<Rightarrow> 't option) \<Rightarrow> expr \<Rightarrow> 't build \<Rightarrow> 't build \<Rightarrow> 't build" where
  "constructShift vc by_const by_var re left right st = do {
     ((l, width_out), st) \<leftarrow> left st;
     if width_out = 1 then None
     else case asConst re of
       Some CE \<Rightarrow> Some ((by_const l width_out (unsigned_limited CE), width_out), st)
     | None \<Rightarrow> do {
         ((amount, _), st) \<leftarrow> right st;
         res \<leftarrow> by_var l amount;
         Some ((res, width_out), st) } }"

definition constructEq :: "'t stp_ops \<Rightarrow> expr \<Rightarrow> 't build \<Rightarrow> 't build \<Rightarrow> 't build" where
  "constructEq vc le left right st = do {
     ((l, _), st) \<leftarrow> left st;
     ((r, width_out), st) \<leftarrow> right st;
     if width_out = 1 then
       case asConst le of
         Some CE \<Rightarrow> Some ((if isTrue CE then r else vc_notExpr vc r, width_out), st)
       | None \<Rightarrow> Some ((vc_iffExpr vc l r, width_out), st)
     else Some ((vc_eqExpr vc l r, 1), st) }"

definition constructOrder :: "'t stp_ops \<Rightarrow> ('t \<Rightarrow> 't \<Rightarrow> 't) \<Rightarrow> 't build \<Rightarrow> 't build \<Rightarrow> 't build" where
  "constructOrder vc oper left right st = do {
     ((l, _), st) \<leftarrow> left st;
     ((r, width_out), st) \<leftarrow> right st;
     if width_out = 1 then None else Some ((oper l r, 1), st) }"

fun constructBinary :: "'t stp_ops \<Rightarrow> stp_options \<Rightarrow> bkind \<Rightarrow> expr \<Rightarrow> expr \<Rightarrow> 't build \<Rightarrow> 't build \<Rightarrow> 't build" where
  "constructBinary vc opts Add le re = constructArith vc (vc_bvPlusExpr vc)"
| "constructBinary vc opts Sub le re = constructArith vc (vc_bvMinusExpr vc)"
| "constructBinary vc opts Mul le re = constructMul vc le"
| "constructBinary vc opts UDiv le re = constructUDiv vc opts re"
| "constructBinary vc opts SDiv le re = constructSDiv vc opts re"
| "constructBinary vc opts URem le re = constructURem vc opts re"
| "constructBinary vc opts SRem le re = constructArith vc (vc_sbvRemExpr vc)"
| "constructBinary vc opts And le re = constructBitwise vc (vc_andExpr vc) (vc_bvAndExpr vc)"
| "constructBinary vc opts Or le re = constructBitwise vc (vc_orExpr vc) (vc_bvOrExpr vc)"
| "constructBinary vc opts Xor le re =
     constructBitwise vc (\<lambda>l r. vc_iteExpr vc l (vc_notExpr vc r) r) (vc_bvXorExpr vc)"
| "constructBinary vc opts Shl le re = constructShift vc (\<lambda>l w. bvLeftShift vc l) (bvVarLeftShift vc) re"
| "constructBinary vc opts LShr le re = constructShift vc (\<lambda>l w. bvRightShift vc l) (bvVarRightShift vc) re"
| "constructBinary vc opts AShr le re =
     constructShift vc (\<lambda>l w shift. constructAShrByConstant vc l shift (bvBoolExtract vc l (w - 1)))
       (bvVarArithRightShift vc) re"
| "constructBinary vc opts Eq le re = constructEq vc le"
| "constructBinary vc opts Ult le re = constructOrder vc (vc_bvLtExpr vc)"
| "constructBinary vc opts Ule le re = constructOrder vc (vc_bvLeExpr vc)"
| "constructBinary vc opts Slt le re = constructOrder vc (vc_sbvLtExpr vc)"
| "constructBinary vc opts Sle le re = constructOrder vc (vc_sbvLeExpr vc)"
| "constructBinary vc opts _ le re = (\<lambda>left right st. None)"

function construct :: "'t stp_ops \<Rightarrow> stp_options \<Rightarrow> expr \<Rightarrow> 't build"
  and constructActual :: "'t stp_ops \<Rightarrow> stp_options \<Rightarrow> expr \<Rightarrow> 't build"
  and getArrayForUpdate :: "'t stp_ops \<Rightarrow> stp_options \<Rightarrow> array \<Rightarrow> updates \<Rightarrow> 't stp_builder \<Rightarrow> ('t \<times> 't stp_builder) option"
where
  "construct vc opts e =
     (\<lambda>st. if \<not> UseConstructHash opts \<or> isConst e then constructActual vc opts e st
           else case constructed st e of
             Some res \<Rightarrow> Some (res, st)
           | None \<Rightarrow> do {
               (res, st) \<leftarrow> constructActual vc opts e st;
               Some (res, st\<lparr>constructed := (constructed st)(e \<mapsto> res)\<rparr>) })"
| "constructActual vc opts (ConstantExpr CE) = (\<lambda>st. Some ((constructConstant vc CE, getBitWidth CE), st))"
| "constructActual vc opts (NotOptimizedExpr src) = construct vc opts src"
| "constructActual vc opts (ReadExpr root us index) = (\<lambda>st. do {
     (array_expr, st) \<leftarrow> getArrayForUpdate vc opts root us st;
     ((i, _), st) \<leftarrow> construct vc opts index st;
     Some ((vc_readExpr vc array_expr i, arr_range root), st) })"
| "constructActual vc opts (SelectExpr c t f) = (\<lambda>st. do {
     ((cond, _), st) \<leftarrow> construct vc opts c st;
     ((tExpr, _), st) \<leftarrow> construct vc opts t st;
     ((fExpr, width_out), st) \<leftarrow> construct vc opts f st;
     Some ((vc_iteExpr vc cond tExpr fExpr, width_out), st) })"
| "constructActual vc opts (ConcatExpr l r) = (\<lambda>st. do {
     ((res, _), st) \<leftarrow> construct vc opts r st;
     ((kid, _), st) \<leftarrow> construct vc opts l st;
     Some ((vc_bvConcatExpr vc kid res, getWidth (ConcatExpr l r)), st) })"
| "constructActual vc opts (ExtractExpr e off w) = (\<lambda>st. do {
     ((src, _), st) \<leftarrow> construct vc opts e st;
     Some ((if w = 1 then bvBoolExtract vc src off else vc_bvExtract vc src (off + w - 1) off, w), st) })"
| "constructActual vc opts (NotExpr e) = (\<lambda>st. do {
     ((expr, width_out), st) \<leftarrow> construct vc opts e st;
     Some ((if width_out = 1 then vc_notExpr vc expr else vc_bvNotExpr vc expr, width_out), st) })"
| "constructActual vc opts (ZExtExpr e w) = (\<lambda>st. do {
     ((src, srcWidth), st) \<leftarrow> construct vc opts e st;
     Some ((if srcWidth = 1 then vc_iteExpr vc src (bvOne vc w) (bvZero vc w)
            else vc_bvConcatExpr vc (bvZero vc (w - srcWidth)) src, w), st) })"
| "constructActual vc opts (SExtExpr e w) = (\<lambda>st. do {
     ((src, srcWidth), st) \<leftarrow> construct vc opts e st;
     Some ((if srcWidth = 1 then vc_iteExpr vc src (bvMinusOne vc w) (bvZero vc w)
            else vc_bvSignExtend vc src w, w), st) })"
| "constructActual vc opts (BinaryExpr k l r) =
     constructBinary vc opts k l r (construct vc opts l) (construct vc opts r)"
| "getArrayForUpdate vc opts root NullNode = (\<lambda>st. Some (getInitialArray vc root st))"
| "getArrayForUpdate vc opts root (UpdateNode i v n) = (\<lambda>st.
     case update_node_hash st (root, UpdateNode i v n) of
       Some un_expr \<Rightarrow> Some (un_expr, st)
     | None \<Rightarrow> do {
         (array_expr, st) \<leftarrow> getArrayForUpdate vc opts root n st;
         ((index, _), st) \<leftarrow> construct vc opts i st;
         ((val, _), st) \<leftarrow> construct vc opts v st;
         let un_expr = vc_writeExpr vc array_expr index val;
         Some (un_expr, st\<lparr>update_node_hash := (update_node_hash st)((root, UpdateNode i v n) \<mapsto> un_expr)\<rparr>) })"
  by pat_completeness auto

termination
  by (relation "measure (\<lambda>x. case x of Inl (vc, opts, e) \<Rightarrow> 2 * size e + 1 | Inr (Inl (vc, opts, e)) \<Rightarrow> 2 * size e
        | Inr (Inr (vc, opts, root, us)) \<Rightarrow> 2 * size us)") auto

declare construct.simps [simp del] constructActual.simps [simp del]

definition build :: "'t stp_ops \<Rightarrow> stp_options \<Rightarrow> expr \<Rightarrow> 't stp_builder \<Rightarrow> ('t \<times> 't stp_builder) option" where
  "build vc opts e st = do {
     ((res, _), st) \<leftarrow> construct vc opts e st;
     Some (res, st\<lparr>constructed := Map.empty\<rparr>) }"

subsection \<open>Arithmetic of shifts\<close>

lemma full_drop: "take_bit w f = f \<Longrightarrow> w \<le> s \<Longrightarrow> drop_bit s f = (0 :: int)"
  by (metis diff_is_0_eq drop_bit_take_bit take_bit_0)

lemma ashr_signed:
  assumes "take_bit w f = (f :: int)" "bit f (w - 1)" "s < w"
  shows "push_bit (w - s) (take_bit s (- 1)) + drop_bit s f = take_bit w (drop_bit s (sgn_val w f))"
proof -
  have f: "bit f i \<Longrightarrow> i < w" for i
    using assms(1) by (metis bit_take_bit_iff)
  have "push_bit (w - s) (take_bit s (- 1)) + drop_bit s f = push_bit (w - s) (take_bit s (- 1)) OR drop_bit s f"
    by (rule disjunctive_add_eq_or, rule bit_eqI) (auto simp: bit_simps dest: f)
  also have "\<dots> = take_bit w (drop_bit s (sgn_val w f))"
  proof (rule bit_eqI)
    fix i
    show "bit (push_bit (w - s) (take_bit s (- 1)) OR drop_bit s f) i \<longleftrightarrow> bit (take_bit w (drop_bit s (sgn_val w f))) i"
      using assms(2,3) f [of "s + i"]
      by (cases "s + i < w - 1"; cases "s + i = w - 1") (auto simp: bit_simps sgn_val_def min_def)
  qed
  finally show ?thesis .
qed

lemma ashr_unsigned:
  assumes "take_bit w f = (f :: int)" "\<not> bit f (w - 1)" "0 < w"
  shows "drop_bit s f = take_bit w (drop_bit s (sgn_val w f))"
proof -
  have f: "bit f i \<Longrightarrow> i < w" for i
    using assms(1) by (metis bit_take_bit_iff)
  have "sgn_val w f = f"
  proof (rule bit_eqI)
    fix i show "bit (sgn_val w f) i = bit f i"
      using assms(2,3) f [of i] by (cases "i < w - 1"; cases "i = w - 1") (auto simp: bit_simps sgn_val_def min_def)
  qed
  then show ?thesis using assms(1)
    by (metis add.commute le_add2 take_bit_drop_bit take_bit_wider)
qed

lemma activeBits_step: "0 < n \<Longrightarrow> activeBits n = Suc (activeBits (n div 2))"
  using activeBits.simps [of n] by simp

lemma activeBits_less: "n < 2 ^ activeBits n"
proof (induction n rule: activeBits.induct)
  case (1 n)
  show ?case
  proof (cases "n = 0")
    case False
    then have "n div 2 < 2 ^ activeBits (n div 2)" by (rule 1)
    moreover have "activeBits n = Suc (activeBits (n div 2))" using False by (intro activeBits_step) simp
    ultimately show ?thesis by simp
  qed simp
qed

lemma activeBits_least: "0 < n \<Longrightarrow> 2 ^ activeBits n \<le> 2 * n"
proof (induction n rule: activeBits.induct)
  case (1 n)
  have s: "activeBits n = Suc (activeBits (n div 2))" using 1(2) by (rule activeBits_step)
  show ?case
  proof (cases "n = 1")
    case True
    then show ?thesis unfolding s by (simp add: activeBits.simps [of 0])
  next
    case False
    then have "2 ^ activeBits (n div 2) \<le> 2 * (n div 2)" using 1 by simp
    also have "\<dots> \<le> n" by simp
    finally show ?thesis by (simp add: s)
  qed
qed

lemma activeBits_le: "0 < w \<Longrightarrow> activeBits w \<le> w"
proof -
  assume w: "0 < w"
  have "w \<le> 2 ^ (w - 1)" using less_exp [of "w - 1"] w by linarith
  then have "2 * w \<le> 2 ^ w" using w by (simp add: power_eq_if [of 2 w])
  with activeBits_least [OF w] have "(2::nat) ^ activeBits w \<le> 2 ^ w" by (rule order_trans)
  then show ?thesis by (rule power_le_imp_le_exp [rotated]) simp
qed

lemma activeBits_64: "activeBits 64 \<le> 32"
proof -
  have "(2::nat) ^ activeBits 64 \<le> 2 ^ 7" using activeBits_least [of 64] by simp
  then have "activeBits 64 \<le> 7" by (rule power_le_imp_le_exp [rotated]) simp
  then show ?thesis by simp
qed

subsection \<open>Signed division by the multiplier\<close>

lemma sgn_val_bounds: "0 < w \<Longrightarrow> - (2 ^ (w - 1)) \<le> sgn_val w x" "0 < w \<Longrightarrow> sgn_val w x < 2 ^ (w - 1)"
  by (simp_all add: sgn_val_def signed_take_bit_int_greater_eq_minus_exp signed_take_bit_int_less_exp)

lemma sgn_val_in: "- (2 ^ (w - 1)) \<le> x \<Longrightarrow> x < 2 ^ (w - 1) \<Longrightarrow> sgn_val w x = x"
  by (simp add: sgn_val_def signed_take_bit_int_eq_self)

lemma sgn_val_neg: "sgn_val w x < 0 \<longleftrightarrow> bit x (w - 1)"
  by (simp add: sgn_val_def signed_take_bit_negative_iff)

text \<open>The quotient before the sign of the divisor is applied.\<close>

definition trunc_quot :: "int \<Rightarrow> nat \<Rightarrow> int" where
  "trunc_quot s D = (if s < 0 then - int (nat (- s) div D) else int (nat s div D))"

lemma trunc_quot_sdiv:
  assumes "d \<noteq> 0"
  shows "s sdiv d = (if d < 0 then - trunc_quot s (nat \<bar>d\<bar>) else trunc_quot s (nat \<bar>d\<bar>))"
  using assms by (auto simp: signed_divide_int_def trunc_quot_def zdiv_int sgn_if)

lemma negate_by_xor: "take_bit 32 ((take_bit 32 q XOR take_bit 32 (- 1)) - take_bit 32 (- 1)) = take_bit 32 (- q :: int)"
proof -
  have "take_bit 32 q XOR take_bit 32 (- 1) = take_bit 32 (- q - 1)"
    by (simp only: take_bit_xor [symmetric] bit.xor_one_right not_eq_complement)
  then have "take_bit 32 ((take_bit 32 q XOR take_bit 32 (- 1)) - take_bit 32 (- 1)) = take_bit 32 (- q - 1 - - 1)"
    by (simp only: take_bit_absorb)
  then show ?thesis by simp
qed

lemma magic_shift:
  assumes "0 < D" "D \<le> 2 ^ l" "1 \<le> l" "l \<le> 31" "D \<noteq> 1 \<longrightarrow> 2 ^ (l - 1) < D" "D = 1 \<longrightarrow> l = 1"
    and s: "- (2 ^ 31) \<le> s" "s < 2 ^ 31"
  shows "take_bit 32 (drop_bit (l - 1) (sgn_val 32 (s * int (magic (31 + l) D) div 2 ^ 32))) =
    take_bit 32 (trunc_quot s D - of_bool (s < 0))"
proof -
  let ?M = "int (magic (31 + l) D)"
  let ?X = "s * ?M div 2 ^ 32"
  have "take_bit 32 (drop_bit (l - 1) (sgn_val 32 ?X)) = take_bit 32 (drop_bit (l - 1) ?X)"
  proof (cases "D = 1")
    case True
    then show ?thesis using assms(6) by simp
  next
    case False
    note b = magic_bounds [OF assms(1,2,3,5,6)]
    have "?X < 2 ^ 31 \<and> - (2 ^ 31) \<le> ?X"
    proof (cases "0 \<le> s")
      case True
      have "s * ?M \<le> s * 2 ^ 32" using True b(3) [OF False] by (intro mult_left_mono)
      then have "?X \<le> s * 2 ^ 32 div 2 ^ 32" by (rule zdiv_mono1) simp
      moreover have "0 \<le> ?X" using True by (simp add: pos_imp_zdiv_nonneg_iff)
      ultimately show ?thesis using s by simp
    next
      case False
      have "s * 2 ^ 32 \<le> s * ?M" using False b(3) [OF \<open>D \<noteq> 1\<close>] by (intro mult_left_mono_neg) simp_all
      then have "s * 2 ^ 32 div 2 ^ 32 \<le> ?X" by (rule zdiv_mono1) simp
      moreover have "?X < 0" using False by (simp add: pos_imp_zdiv_neg_iff mult_less_0_iff magic_def)
      ultimately show ?thesis using s by simp
    qed
    then have "sgn_val 32 ?X = ?X" by (intro sgn_val_in) simp_all
    then show ?thesis by simp
  qed
  also have "drop_bit (l - 1) ?X = s * ?M div 2 ^ (31 + l)"
  proof -
    have "(2 :: int) ^ (31 + l) = 2 ^ 32 * 2 ^ (l - 1)"
      using assms(3) by (simp only: power_add [symmetric]) (rule arg_cong [where f = "power 2"], simp)
    then show ?thesis by (simp only: drop_bit_eq_div zdiv_zmult2_eq zero_le_power zero_le_numeral)
  qed
  also have "\<dots> = trunc_quot s D - of_bool (s < 0)"
    unfolding magic_sdiv [OF assms(1,2) s] by (simp add: trunc_quot_def)
  finally show ?thesis .
qed

subsection \<open>The sum of the multiplication loop\<close>

definition bit_sum :: "64 word \<Rightarrow> 64 word \<Rightarrow> nat list \<Rightarrow> int" where
  "bit_sum add sub js = (\<Sum>j\<leftarrow>js. (of_bool (bit add j) - of_bool (bit sub j)) * 2 ^ j)"

lemma uint_bits: "(\<Sum>j<64. of_bool (bit a j) * 2 ^ j) = uint (a :: 64 word)"
proof -
  have "(\<Sum>j<64. of_bool (bit (uint a) j) * 2 ^ j) = take_bit 64 (uint a)"
    using horner_sum_bit_eq_take_bit [of "uint a" 64] by (simp add: horner_sum_eq_sum lessThan_atLeast0)
  moreover have "take_bit 64 (uint a) = uint a" using take_bit_eq_iff [of 64 "uint a"] unsigned_less [of a] by simp
  moreover have "(\<Sum>j<64. of_bool (bit (uint a) j) * 2 ^ j) = (\<Sum>j<64. of_bool (bit a j) * (2 :: int) ^ j)"
    by (rule sum.cong) (simp_all add: bit_uint_iff)
  ultimately show ?thesis by simp
qed

lemma bit_sum_all: "bit_sum add sub (rev [0..<64]) = uint add - uint sub"
proof -
  have "bit_sum add sub (rev [0..<64]) = (\<Sum>j<64. (of_bool (bit add j) - of_bool (bit sub j)) * 2 ^ j)"
    unfolding bit_sum_def by (simp only: rev_map [symmetric] sum_list_rev interv_sum_list_conv_sum_set_nat set_upt lessThan_atLeast0)
  also have "\<dots> = (\<Sum>j<64. of_bool (bit add j) * 2 ^ j) - (\<Sum>j<64. of_bool (bit sub j) * 2 ^ j)"
    by (simp only: left_diff_distrib sum_subtractf)
  finally show ?thesis by (simp only: uint_bits)
qed

lemma truncate_uint:
  assumes "0 < w" "w \<le> 64"
  shows "\<exists>y. truncateToNBits (a :: 64 word) w = Some y \<and> uint y = take_bit w (uint a) \<and> (\<forall>j. bit y j \<longrightarrow> bit a j)"
proof -
  have "a AND mask w = take_bit w a" by (simp only: take_bit_eq_mask)
  moreover have "uint (take_bit w a) = take_bit w (uint a)" using assms(2) by (simp add: unsigned_take_bit_eq)
  ultimately show ?thesis using assms by (auto simp: truncateToNBits_def drop_all_ones bit_simps)
qed

subsection \<open>What the builder relies on\<close>

text \<open>A model gives every array variable its contents, by name.\<close>

type_synonym stp_model = "string \<Rightarrow> int \<Rightarrow> int"

locale stp_interface =
  fixes vc :: "'t stp_ops" and ty :: "'t \<Rightarrow> vc_type" and tru :: "stp_model \<Rightarrow> 't \<Rightarrow> bool"
    and val :: "stp_model \<Rightarrow> 't \<Rightarrow> int" and cont :: "stp_model \<Rightarrow> 't \<Rightarrow> int \<Rightarrow> int"
  assumes length_of: "ty t = BvType w \<Longrightarrow> vc_getBVLength vc t = w"
    and val_range: "ty t = BvType w \<Longrightarrow> take_bit w (val \<sigma> t) = val \<sigma> t"
    and cont_range: "ty t = ArrayType iw vw \<Longrightarrow> take_bit vw (cont \<sigma> t x) = cont \<sigma> t x"
    and true_term: "ty (vc_trueExpr vc) = BoolType \<and> tru \<sigma> (vc_trueExpr vc)"
    and false_term: "ty (vc_falseExpr vc) = BoolType \<and> \<not> tru \<sigma> (vc_falseExpr vc)"
    and var_term: "ty (vc_varExpr vc name (ArrayType iw vw)) = ArrayType iw vw \<and>
      cont \<sigma> (vc_varExpr vc name (ArrayType iw vw)) x = take_bit vw (\<sigma> name x)"
    and int_term: "0 < w \<Longrightarrow> 0 \<le> v \<Longrightarrow> v < 2 ^ w \<Longrightarrow> v < 2 ^ 32 \<Longrightarrow>
      ty (vc_bvConstExprFromInt vc w v) = BvType w \<and> val \<sigma> (vc_bvConstExprFromInt vc w v) = v"
    and ll_term: "0 < w \<Longrightarrow> w \<le> 64 \<Longrightarrow> 0 \<le> v \<Longrightarrow> v < 2 ^ 64 \<Longrightarrow>
      ty (vc_bvConstExprFromLL vc w v) = BvType w \<and> val \<sigma> (vc_bvConstExprFromLL vc w v) = take_bit w v"
    and eq_term: "ty a = BvType w \<Longrightarrow> ty b = BvType w \<Longrightarrow>
      ty (vc_eqExpr vc a b) = BoolType \<and> tru \<sigma> (vc_eqExpr vc a b) = (val \<sigma> a = val \<sigma> b)"
    and iff_term: "ty a = BoolType \<Longrightarrow> ty b = BoolType \<Longrightarrow>
      ty (vc_iffExpr vc a b) = BoolType \<and> tru \<sigma> (vc_iffExpr vc a b) = (tru \<sigma> a = tru \<sigma> b)"
    and not_term: "ty a = BoolType \<Longrightarrow> ty (vc_notExpr vc a) = BoolType \<and> tru \<sigma> (vc_notExpr vc a) = (\<not> tru \<sigma> a)"
    and and_term: "ty a = BoolType \<Longrightarrow> ty b = BoolType \<Longrightarrow>
      ty (vc_andExpr vc a b) = BoolType \<and> tru \<sigma> (vc_andExpr vc a b) = (tru \<sigma> a \<and> tru \<sigma> b)"
    and or_term: "ty a = BoolType \<Longrightarrow> ty b = BoolType \<Longrightarrow>
      ty (vc_orExpr vc a b) = BoolType \<and> tru \<sigma> (vc_orExpr vc a b) = (tru \<sigma> a \<or> tru \<sigma> b)"
    and ite_bool_term: "ty c = BoolType \<Longrightarrow> ty a = BoolType \<Longrightarrow> ty b = BoolType \<Longrightarrow>
      ty (vc_iteExpr vc c a b) = BoolType \<and> tru \<sigma> (vc_iteExpr vc c a b) = (if tru \<sigma> c then tru \<sigma> a else tru \<sigma> b)"
    and ite_term: "ty c = BoolType \<Longrightarrow> ty a = BvType w \<Longrightarrow> ty b = BvType w \<Longrightarrow>
      ty (vc_iteExpr vc c a b) = BvType w \<and> val \<sigma> (vc_iteExpr vc c a b) = (if tru \<sigma> c then val \<sigma> a else val \<sigma> b)"
    and concat_term: "ty a = BvType m \<Longrightarrow> ty b = BvType n \<Longrightarrow>
      ty (vc_bvConcatExpr vc a b) = BvType (m + n) \<and> val \<sigma> (vc_bvConcatExpr vc a b) = push_bit n (val \<sigma> a) + val \<sigma> b"
    and extract_term: "ty a = BvType w \<Longrightarrow> lo \<le> hi \<Longrightarrow> hi < w \<Longrightarrow>
      ty (vc_bvExtract vc a hi lo) = BvType (hi - lo + 1) \<and>
      val \<sigma> (vc_bvExtract vc a hi lo) = take_bit (hi - lo + 1) (drop_bit lo (val \<sigma> a))"
    and sext_term: "ty a = BvType n \<Longrightarrow> 0 < n \<Longrightarrow> n \<le> w \<Longrightarrow>
      ty (vc_bvSignExtend vc a w) = BvType w \<and> val \<sigma> (vc_bvSignExtend vc a w) = take_bit w (sgn_val n (val \<sigma> a))"
    and plus_term: "ty a = BvType w \<Longrightarrow> ty b = BvType w \<Longrightarrow>
      ty (vc_bvPlusExpr vc w a b) = BvType w \<and> val \<sigma> (vc_bvPlusExpr vc w a b) = take_bit w (val \<sigma> a + val \<sigma> b)"
    and minus_term: "ty a = BvType w \<Longrightarrow> ty b = BvType w \<Longrightarrow>
      ty (vc_bvMinusExpr vc w a b) = BvType w \<and> val \<sigma> (vc_bvMinusExpr vc w a b) = take_bit w (val \<sigma> a - val \<sigma> b)"
    and mult_term: "ty a = BvType w \<Longrightarrow> ty b = BvType w \<Longrightarrow>
      ty (vc_bvMultExpr vc w a b) = BvType w \<and> val \<sigma> (vc_bvMultExpr vc w a b) = take_bit w (val \<sigma> a * val \<sigma> b)"
    and div_term: "ty a = BvType w \<Longrightarrow> ty b = BvType w \<Longrightarrow> ty (vc_bvDivExpr vc w a b) = BvType w \<and>
      (val \<sigma> b \<noteq> 0 \<longrightarrow> val \<sigma> (vc_bvDivExpr vc w a b) = val \<sigma> a div val \<sigma> b)"
    and mod_term: "ty a = BvType w \<Longrightarrow> ty b = BvType w \<Longrightarrow> ty (vc_bvModExpr vc w a b) = BvType w \<and>
      (val \<sigma> b \<noteq> 0 \<longrightarrow> val \<sigma> (vc_bvModExpr vc w a b) = val \<sigma> a mod val \<sigma> b)"
    and sdiv_term: "ty a = BvType w \<Longrightarrow> ty b = BvType w \<Longrightarrow> ty (vc_sbvDivExpr vc w a b) = BvType w \<and>
      (val \<sigma> b \<noteq> 0 \<longrightarrow> val \<sigma> (vc_sbvDivExpr vc w a b) = take_bit w (sgn_val w (val \<sigma> a) sdiv sgn_val w (val \<sigma> b)))"
    and srem_term: "ty a = BvType w \<Longrightarrow> ty b = BvType w \<Longrightarrow> ty (vc_sbvRemExpr vc w a b) = BvType w \<and>
      (val \<sigma> b \<noteq> 0 \<longrightarrow> val \<sigma> (vc_sbvRemExpr vc w a b) = take_bit w (sgn_val w (val \<sigma> a) smod sgn_val w (val \<sigma> b)))"
    and uminus_term: "ty a = BvType w \<Longrightarrow>
      ty (vc_bvUMinusExpr vc a) = BvType w \<and> val \<sigma> (vc_bvUMinusExpr vc a) = take_bit w (- val \<sigma> a)"
    and bvnot_term: "ty a = BvType w \<Longrightarrow>
      ty (vc_bvNotExpr vc a) = BvType w \<and> val \<sigma> (vc_bvNotExpr vc a) = take_bit w (NOT (val \<sigma> a))"
    and bvand_term: "ty a = BvType w \<Longrightarrow> ty b = BvType w \<Longrightarrow>
      ty (vc_bvAndExpr vc a b) = BvType w \<and> val \<sigma> (vc_bvAndExpr vc a b) = val \<sigma> a AND val \<sigma> b"
    and bvor_term: "ty a = BvType w \<Longrightarrow> ty b = BvType w \<Longrightarrow>
      ty (vc_bvOrExpr vc a b) = BvType w \<and> val \<sigma> (vc_bvOrExpr vc a b) = val \<sigma> a OR val \<sigma> b"
    and bvxor_term: "ty a = BvType w \<Longrightarrow> ty b = BvType w \<Longrightarrow>
      ty (vc_bvXorExpr vc a b) = BvType w \<and> val \<sigma> (vc_bvXorExpr vc a b) = val \<sigma> a XOR val \<sigma> b"
    and lt_term: "ty a = BvType w \<Longrightarrow> ty b = BvType w \<Longrightarrow>
      ty (vc_bvLtExpr vc a b) = BoolType \<and> tru \<sigma> (vc_bvLtExpr vc a b) = (val \<sigma> a < val \<sigma> b)"
    and le_term: "ty a = BvType w \<Longrightarrow> ty b = BvType w \<Longrightarrow>
      ty (vc_bvLeExpr vc a b) = BoolType \<and> tru \<sigma> (vc_bvLeExpr vc a b) = (val \<sigma> a \<le> val \<sigma> b)"
    and slt_term: "ty a = BvType w \<Longrightarrow> ty b = BvType w \<Longrightarrow>
      ty (vc_sbvLtExpr vc a b) = BoolType \<and> tru \<sigma> (vc_sbvLtExpr vc a b) = (sgn_val w (val \<sigma> a) < sgn_val w (val \<sigma> b))"
    and sle_term: "ty a = BvType w \<Longrightarrow> ty b = BvType w \<Longrightarrow>
      ty (vc_sbvLeExpr vc a b) = BoolType \<and> tru \<sigma> (vc_sbvLeExpr vc a b) = (sgn_val w (val \<sigma> a) \<le> sgn_val w (val \<sigma> b))"
    and read_term: "ty a = ArrayType iw vw \<Longrightarrow> ty i = BvType iw \<Longrightarrow>
      ty (vc_readExpr vc a i) = BvType vw \<and> val \<sigma> (vc_readExpr vc a i) = cont \<sigma> a (val \<sigma> i)"
    and write_term: "ty a = ArrayType iw vw \<Longrightarrow> ty i = BvType iw \<Longrightarrow> ty u = BvType vw \<Longrightarrow>
      ty (vc_writeExpr vc a i u) = ArrayType iw vw \<and>
      cont \<sigma> (vc_writeExpr vc a i u) = (cont \<sigma> a)(val \<sigma> i := val \<sigma> u)"
begin

lemmas typing = true_term [THEN conjunct1] false_term [THEN conjunct1] var_term [THEN conjunct1]
  int_term [THEN conjunct1] ll_term [THEN conjunct1] eq_term [THEN conjunct1] iff_term [THEN conjunct1]
  not_term [THEN conjunct1] and_term [THEN conjunct1] or_term [THEN conjunct1] ite_bool_term [THEN conjunct1]
  ite_term [THEN conjunct1] concat_term [THEN conjunct1] extract_term [THEN conjunct1] sext_term [THEN conjunct1]
  plus_term [THEN conjunct1] minus_term [THEN conjunct1] mult_term [THEN conjunct1] uminus_term [THEN conjunct1]
  bvnot_term [THEN conjunct1] bvand_term [THEN conjunct1] bvor_term [THEN conjunct1] bvxor_term [THEN conjunct1]
  lt_term [THEN conjunct1] le_term [THEN conjunct1] slt_term [THEN conjunct1] sle_term [THEN conjunct1]
  read_term [THEN conjunct1] write_term [THEN conjunct1]
  div_term [THEN conjunct1] mod_term [THEN conjunct1] sdiv_term [THEN conjunct1] srem_term [THEN conjunct1]

lemmas meaning = true_term [THEN conjunct2] false_term [THEN conjunct2] var_term [THEN conjunct2]
  int_term [THEN conjunct2] ll_term [THEN conjunct2] eq_term [THEN conjunct2] iff_term [THEN conjunct2]
  not_term [THEN conjunct2] and_term [THEN conjunct2] or_term [THEN conjunct2] ite_bool_term [THEN conjunct2]
  ite_term [THEN conjunct2] concat_term [THEN conjunct2] extract_term [THEN conjunct2] sext_term [THEN conjunct2]
  plus_term [THEN conjunct2] minus_term [THEN conjunct2] mult_term [THEN conjunct2] uminus_term [THEN conjunct2]
  bvnot_term [THEN conjunct2] bvand_term [THEN conjunct2] bvor_term [THEN conjunct2] bvxor_term [THEN conjunct2]
  lt_term [THEN conjunct2] le_term [THEN conjunct2] slt_term [THEN conjunct2] sle_term [THEN conjunct2]
  read_term [THEN conjunct2] write_term [THEN conjunct2]
  div_term [THEN conjunct2, rule_format] mod_term [THEN conjunct2, rule_format]
  sdiv_term [THEN conjunct2, rule_format] srem_term [THEN conjunct2, rule_format]

text \<open>A term of a bit-vector type and its value under every model.\<close>

definition bv :: "'t \<Rightarrow> width \<Rightarrow> (stp_model \<Rightarrow> int) \<Rightarrow> bool" where
  "bv t w f \<longleftrightarrow> ty t = BvType w \<and> (\<forall>\<sigma>. val \<sigma> t = f \<sigma>)"

lemma bvD: "bv t w f \<Longrightarrow> ty t = BvType w" "bv t w f \<Longrightarrow> val \<sigma> t = f \<sigma>"
  by (simp_all add: bv_def)

lemma bv_range: "bv t w f \<Longrightarrow> take_bit w (f \<sigma>) = f \<sigma>"
  unfolding bv_def using val_range by metis

lemma bv_self: "ty t = BvType w \<Longrightarrow> bv t w (\<lambda>\<sigma>. val \<sigma> t)"
  by (simp add: bv_def)

lemma bv_cong: "bv t w f \<Longrightarrow> (\<And>\<sigma>. f \<sigma> = g \<sigma>) \<Longrightarrow> bv t w g"
  by (simp add: bv_def)

subsection \<open>Constants\<close>

lemma bvConst32_bv: "0 < w \<Longrightarrow> 0 \<le> v \<Longrightarrow> v < 2 ^ w \<Longrightarrow> v < 2 ^ 32 \<Longrightarrow> bv (bvConst32 vc w v) w (\<lambda>_. v)"
  by (simp add: bv_def bvConst32_def typing meaning)

lemma bvConst64_bv: "0 < w \<Longrightarrow> w \<le> 64 \<Longrightarrow> 0 \<le> v \<Longrightarrow> v < 2 ^ 64 \<Longrightarrow> bv (bvConst64 vc w v) w (\<lambda>_. take_bit w v)"
  by (simp add: bv_def bvConst64_def typing meaning)

lemma concat_bv: "bv a m f \<Longrightarrow> bv b n g \<Longrightarrow> bv (vc_bvConcatExpr vc a b) (m + n) (\<lambda>\<sigma>. push_bit n (f \<sigma>) + g \<sigma>)"
  by (simp add: bv_def typing meaning)

lemma extract_bv: "bv a w f \<Longrightarrow> lo \<le> hi \<Longrightarrow> hi < w \<Longrightarrow>
    bv (vc_bvExtract vc a hi lo) (hi - lo + 1) (\<lambda>\<sigma>. take_bit (hi - lo + 1) (drop_bit lo (f \<sigma>)))"
  by (simp add: bv_def typing meaning)

lemma zext_chunks_bv:
  "bv zero 64 (\<lambda>_. 0) \<Longrightarrow> bv expr n (\<lambda>_. v) \<Longrightarrow> 0 < w \<Longrightarrow> bv (zext_chunks vc zero w expr) (w + n) (\<lambda>_. v)"
proof (induction w arbitrary: expr n rule: less_induct)
  case (less w)
  show ?case
  proof (cases "64 < w")
    case True
    have "bv (vc_bvConcatExpr vc zero expr) (64 + n) (\<lambda>_. v)"
      by (rule bv_cong [OF concat_bv [OF less.prems(1,2)]]) simp
    from less.IH [OF _ less.prems(1) this, of "w - 64"] True show ?thesis by (simp add: zext_chunks.simps [of _ _ w])
  next
    case False
    then have "bv (bvConst64 vc w 0) w (\<lambda>_. 0)" using bvConst64_bv [of w 0] less.prems(3) by simp
    from concat_bv [OF this less.prems(2)] False show ?thesis by (simp add: zext_chunks.simps [of _ _ w])
  qed
qed

lemma bvZExtConst_bv:
  assumes "0 < w" "0 \<le> v" "v < 2 ^ 64"
  shows "bv (bvZExtConst vc w v) w (\<lambda>_. take_bit w v)"
proof (cases "w \<le> 64")
  case False
  have v: "take_bit 64 v = v" using assms by (simp add: take_bit_eq_iff)
  have "take_bit w v = v" using False by (intro take_bit_wider [OF _ v]) simp
  moreover have "bv (bvConst64 vc 64 0) 64 (\<lambda>_. 0)" "bv (bvConst64 vc 64 v) 64 (\<lambda>_. v)"
    using bvConst64_bv [of 64 0] bvConst64_bv [of 64 v] assms v by simp_all
  ultimately show ?thesis using zext_chunks_bv [of _ _ 64 v "w - 64"] False by (simp add: bvZExtConst_def)
qed (use assms bvConst64_bv in \<open>simp add: bvZExtConst_def\<close>)

lemma bvOne_bv: "0 < w \<Longrightarrow> bv (bvOne vc w) w (\<lambda>_. 1)"
  using bvZExtConst_bv [of w 1] by (simp add: bvOne_def)

lemma bvZero_bv: "0 < w \<Longrightarrow> bv (bvZero vc w) w (\<lambda>_. 0)"
  using bvZExtConst_bv [of w 0] by (simp add: bvZero_def)

lemma bvMinusOne_bv: "0 < w \<Longrightarrow> bv (bvMinusOne vc w) w (\<lambda>_. take_bit w (- 1))"
proof (cases "w \<le> 64")
  case True
  have e: "(2 ^ 64 - 1 :: int) = take_bit 64 (- 1)" by (simp add: take_bit_minus_one_eq_mask mask_eq_exp_minus_1)
  assume "0 < w"
  then have "bv (bvMinusOne vc w) w (\<lambda>_. take_bit w (2 ^ 64 - 1))"
    using bvConst64_bv [of w "2 ^ 64 - 1"] True by (simp add: bvMinusOne_def bvSExtConst_def)
  moreover have "take_bit w (2 ^ 64 - 1 :: int) = take_bit w (- 1)"
    unfolding e using True by (simp add: min_def)
  ultimately show ?thesis by simp
next
  case False
  have e: "(2 ^ 64 - 1 :: int) = take_bit 64 (- 1)" by (simp add: take_bit_minus_one_eq_mask mask_eq_exp_minus_1)
  have c: "bv (bvConst64 vc 64 (2 ^ 64 - 1)) 64 (\<lambda>_. 2 ^ 64 - 1)"
    by (rule bv_cong [OF bvConst64_bv take_bit_id]) simp_all
  have "sgn_val 64 (2 ^ 64 - 1) = - 1"
    unfolding e by (simp only: sgn_val_take_bit zero_less_numeral) (simp add: sgn_val_def)
  with c False show ?thesis
    by (simp add: bvMinusOne_def bvSExtConst_def bv_def typing meaning)
qed

lemma bvBoolExtract_bool:
  assumes "bv t w f" "b < w"
  shows "ty (bvBoolExtract vc t b) = BoolType" "tru \<sigma> (bvBoolExtract vc t b) = bit (f \<sigma>) b"
proof -
  have e: "bv (bvExtract vc t b b) 1 (\<lambda>\<sigma>. take_bit 1 (drop_bit b (f \<sigma>)))"
    using extract_bv [OF assms(1) order_refl assms(2)] by (simp add: bvExtract_def)
  note o = bvOne_bv [of 1]
  show "ty (bvBoolExtract vc t b) = BoolType"
    using eq_term [OF bvD(1) [OF e] bvD(1)] o by (simp add: bvBoolExtract_def)
  have "tru \<sigma> (bvBoolExtract vc t b) = (take_bit 1 (drop_bit b (f \<sigma>)) = 1)"
    using eq_term [OF bvD(1) [OF e] bvD(1)] o bvD(2) [OF e] bvD(2) [OF o] by (simp add: bvBoolExtract_def)
  also have "\<dots> = bit (f \<sigma>) b"
    by (simp add: bit_iff_odd_drop_bit odd_iff_mod_2_eq_one take_bit_eq_mod)
  finally show "tru \<sigma> (bvBoolExtract vc t b) = bit (f \<sigma>) b" .
qed

subsection \<open>Shifts\<close>

lemma bvRightShift_bv:
  assumes "bv t w f" "0 < w"
  shows "bv (bvRightShift vc t s) w (\<lambda>\<sigma>. drop_bit s (f \<sigma>))"
proof -
  have len: "vc_getBVLength vc t = w" using length_of bvD(1) [OF assms(1)] .
  note r = bv_range [OF assms(1)]
  consider "s = 0" | "s \<noteq> 0" "w \<le> s" | "s \<noteq> 0" "s < w" by linarith
  then show ?thesis
  proof cases
    case 3
    have p: "take_bit (w - s) (drop_bit s (f \<sigma>)) = drop_bit s (f \<sigma>)" for \<sigma>
      using r by (metis drop_bit_take_bit)
    have "bv (vc_bvConcatExpr vc (bvZero vc s) (bvExtract vc t (w - 1) s)) w (\<lambda>\<sigma>. drop_bit s (f \<sigma>))"
      using concat_bv [OF bvZero_bv extract_bv [OF assms(1)], of s s "w - 1"] 3
      by (simp add: bvExtract_def p)
    with 3 show ?thesis by (simp add: bvRightShift_def len)
  qed (use assms bvZero_bv full_drop [OF r] in \<open>simp_all add: bvRightShift_def len\<close>)
qed

lemma bvLeftShift_bv:
  assumes "bv t w f" "0 < w"
  shows "bv (bvLeftShift vc t s) w (\<lambda>\<sigma>. take_bit w (push_bit s (f \<sigma>)))"
proof -
  have len: "vc_getBVLength vc t = w" using length_of bvD(1) [OF assms(1)] .
  note r = bv_range [OF assms(1)]
  consider "s = 0" | "s \<noteq> 0" "w \<le> s" | "s \<noteq> 0" "s < w" by linarith
  then show ?thesis
  proof cases
    case 3
    have "bv (vc_bvConcatExpr vc (bvExtract vc t (w - s - 1) 0) (bvZero vc s)) w (\<lambda>\<sigma>. take_bit w (push_bit s (f \<sigma>)))"
      using concat_bv [OF extract_bv [OF assms(1)] bvZero_bv, of 0 "w - s - 1" s] 3
      by (simp add: bvExtract_def take_bit_push_bit)
    with 3 show ?thesis by (simp add: bvLeftShift_def len)
  qed (use assms bvZero_bv r in \<open>simp_all add: bvLeftShift_def len take_bit_push_bit\<close>)
qed

lemma constructAShr_bv:
  assumes "bv t w f" "0 < w" "ty b = BoolType" "\<And>\<sigma>. tru \<sigma> b = bit (f \<sigma>) (w - 1)"
  shows "bv (constructAShrByConstant vc t s b) w (\<lambda>\<sigma>. if s < w then take_bit w (drop_bit s (sgn_val w (f \<sigma>))) else 0)"
proof -
  have len: "vc_getBVLength vc t = w" using length_of bvD(1) [OF assms(1)] .
  note r = bv_range [OF assms(1)]
  consider "s = 0" | "s \<noteq> 0" "w \<le> s" | "s \<noteq> 0" "s < w" by linarith
  then show ?thesis
  proof cases
    case 3
    have d: "take_bit (w - s) (drop_bit s (f \<sigma>)) = drop_bit s (f \<sigma>)" for \<sigma>
      using r by (metis drop_bit_take_bit)
    have p: "bv (vc_bvConcatExpr vc (bvMinusOne vc s) (bvExtract vc t (w - 1) s)) w
        (\<lambda>\<sigma>. push_bit (w - s) (take_bit s (- 1)) + drop_bit s (f \<sigma>))"
      using concat_bv [OF bvMinusOne_bv extract_bv [OF assms(1)], of s s "w - 1"] 3
      by (simp add: bvExtract_def d)
    note q = bvRightShift_bv [OF assms(1,2), of s]
    have "bv (vc_iteExpr vc b (vc_bvConcatExpr vc (bvMinusOne vc s) (bvExtract vc t (w - 1) s)) (bvRightShift vc t s)) w
        (\<lambda>\<sigma>. take_bit w (drop_bit s (sgn_val w (f \<sigma>))))"
      unfolding bv_def using ite_term [OF assms(3) bvD(1) [OF p] bvD(1) [OF q]] bvD(2) [OF p] bvD(2) [OF q] assms(4)
        ashr_signed [OF r _ 3(2)] ashr_unsigned [OF r _ assms(2)] by simp
    with 3 show ?thesis by (simp add: constructAShrByConstant_def len)
  qed (use assms(1,2) bvZero_bv r in \<open>simp_all add: constructAShrByConstant_def len\<close>)
qed

lemma ite_bv:
  assumes "ty c = BoolType" "bv a w f" "bv b w g" "\<And>\<sigma>. tru \<sigma> c = p \<sigma>"
  shows "bv (vc_iteExpr vc c a b) w (\<lambda>\<sigma>. if p \<sigma> then f \<sigma> else g \<sigma>)"
  using ite_term [OF assms(1) bvD(1) [OF assms(2)] bvD(1) [OF assms(3)]] bvD(2) [OF assms(2)] bvD(2) [OF assms(3)] assms(4)
  by (simp add: bv_def)

lemma shift_cases_bv:
  assumes "bv (fst ext) (snd ext) g" "0 < snd ext"
  shows "(\<And>i. i \<in> set is \<Longrightarrow> int i < 2 ^ snd ext \<and> int i < 2 ^ 32 \<and> bv (by_const i) w (h i)) \<Longrightarrow> bv res w k \<Longrightarrow>
    \<exists>t. shift_cases vc ext by_const is res = Some t \<and>
      bv t w (\<lambda>\<sigma>. if nat (g \<sigma>) \<in> set is then h (nat (g \<sigma>)) \<sigma> else k \<sigma>)"
proof (induction "is" arbitrary: res k)
  case (Cons i "is")
  have i: "int i < 2 ^ snd ext" "int i < 2 ^ 32" "bv (by_const i) w (h i)" using Cons.prems(1) [of i] by simp_all
  note c = bvConst32_bv [OF assms(2) _ i(1,2)]
  have eq: "eqExpr vc (fst ext) (bvConst32 vc (snd ext) (int i)) = Some (vc_eqExpr vc (fst ext) (bvConst32 vc (snd ext) (int i)))"
    using length_of [OF bvD(1) [OF assms(1)]] length_of [OF bvD(1) [OF c]] by (simp add: eqExpr_def)
  have t: "ty (vc_eqExpr vc (fst ext) (bvConst32 vc (snd ext) (int i))) = BoolType"
    "tru \<sigma> (vc_eqExpr vc (fst ext) (bvConst32 vc (snd ext) (int i))) = (g \<sigma> = int i)" for \<sigma>
    using eq_term [OF bvD(1) [OF assms(1)] bvD(1) [OF c]] bvD(2) [OF assms(1)] bvD(2) [OF c] by simp_all
  note ite = ite_bv [OF t(1) i(3) Cons.prems(2) t(2)]
  have nn: "0 \<le> g \<sigma>" for \<sigma> using bv_range [OF assms(1), of \<sigma>] take_bit_eqD by metis
  from Cons.IH [OF Cons.prems(1) ite] obtain t where
    "shift_cases vc ext by_const is (vc_iteExpr vc (vc_eqExpr vc (fst ext) (bvConst32 vc (snd ext) (int i))) (by_const i) res) = Some t"
    "bv t w (\<lambda>\<sigma>. if nat (g \<sigma>) \<in> set is then h (nat (g \<sigma>)) \<sigma> else if g \<sigma> = int i then h i \<sigma> else k \<sigma>)"
    by auto
  moreover from this(2) have "bv t w (\<lambda>\<sigma>. if nat (g \<sigma>) \<in> set (i # is) then h (nat (g \<sigma>)) \<sigma> else k \<sigma>)"
    by (rule bv_cong) (use nn in \<open>auto simp: nat_eq_iff\<close>)
  ultimately show ?case by (simp add: eq)
qed simp

text \<open>The chain of cases followed by the test for an amount that is too large.\<close>

lemma var_shift_bv:
  assumes sh: "bv sh sw g" "activeBits w \<le> sw" "0 < w" "w < 2 ^ sw" "w < 2 ^ 32"
    and cases: "\<And>i. i < w \<Longrightarrow> bv (by_const i) w (h i)" and res: "bv res w k" "set is \<subseteq> {..<w}"
      "\<And>i \<sigma>. i < w \<Longrightarrow> i \<notin> set is \<Longrightarrow> k \<sigma> = h i \<sigma>"
  shows "\<exists>t. shift_cases vc (extractPartialShiftValue vc sh w) by_const is res = Some t \<and>
    bv (shift_guard vc sh w t) w (\<lambda>\<sigma>. if g \<sigma> < int w then h (nat (g \<sigma>)) \<sigma> else 0)"
proof -
  let ?b = "activeBits w"
  have b: "0 < ?b" "w < 2 ^ ?b" using activeBits_step [OF sh(3)] activeBits_less [of w] by (simp_all only: zero_less_Suc)
  have ext: "bv (fst (extractPartialShiftValue vc sh w)) (snd (extractPartialShiftValue vc sh w)) (\<lambda>\<sigma>. take_bit ?b (g \<sigma>))"
    using extract_bv [OF sh(1), of 0 "?b - 1"] sh(2) b(1) by (simp add: extractPartialShiftValue_def Let_def)
  have e: "snd (extractPartialShiftValue vc sh w) = ?b" by (simp add: extractPartialShiftValue_def Let_def)
  have small: "int i < 2 ^ ?b \<and> int i < 2 ^ 32 \<and> bv (by_const i) w (h i)" if "i \<in> set is" for i
  proof -
    have "i < w" using that res(2) by auto
    then have "i < 2 ^ ?b" "i < 2 ^ 32" using b(2) sh(5) by linarith+
    then have "int i < int (2 ^ ?b)" "int i < int (2 ^ 32)" by (simp_all only: of_nat_less_iff)
    with cases [OF \<open>i < w\<close>] show ?thesis by simp
  qed
  have "0 < snd (extractPartialShiftValue vc sh w)" using b(1) by (simp only: e)
  from shift_cases_bv [OF ext this _ res(1), of "is" by_const h] small obtain t where
    t: "shift_cases vc (extractPartialShiftValue vc sh w) by_const is res = Some t"
    "bv t w (\<lambda>\<sigma>. if nat (take_bit ?b (g \<sigma>)) \<in> set is then h (nat (take_bit ?b (g \<sigma>))) \<sigma> else k \<sigma>)"
    unfolding e by blast
  have len: "vc_getBVLength vc sh = sw" using length_of bvD(1) [OF sh(1)] .
  have "int w < int (2 ^ sw)" "int w < int (2 ^ 32)" using sh(4,5) by (simp_all only: of_nat_less_iff)
  then have w: "int w < 2 ^ sw" "int w < 2 ^ 32" by simp_all
  have "0 < sw" using sh(3,4) by (cases "sw = 0") auto
  note c = bvConst32_bv [OF this _ w]
  have g: "ty (vc_bvLtExpr vc sh (bvConst32 vc sw (int w))) = BoolType"
    "tru \<sigma> (vc_bvLtExpr vc sh (bvConst32 vc sw (int w))) = (g \<sigma> < int w)" for \<sigma>
    using lt_term [OF bvD(1) [OF sh(1)] bvD(1) [OF c]] bvD(2) [OF sh(1)] bvD(2) [OF c] by simp_all
  have "bv (shift_guard vc sh w t) w (\<lambda>\<sigma>. if g \<sigma> < int w then h (nat (g \<sigma>)) \<sigma> else 0)"
  proof (unfold shift_guard_def len, rule bv_cong [OF ite_bv [OF g(1) t(2) bvZero_bv [OF sh(3)] g(2)]])
    fix \<sigma>
    have nn: "0 \<le> g \<sigma>" using bv_range [OF sh(1), of \<sigma>] take_bit_eqD by metis
    have "take_bit ?b (g \<sigma>) = g \<sigma>" if "g \<sigma> < int w"
    proof (rule take_bit_id [OF nn])
      have "int w < int (2 ^ ?b)" using b(2) by (simp only: of_nat_less_iff)
      from less_trans [OF that this] show "g \<sigma> < 2 ^ ?b" by (simp only: of_nat_power of_nat_numeral)
    qed
    then show "(if g \<sigma> < int w then if nat (take_bit ?b (g \<sigma>)) \<in> set is then h (nat (take_bit ?b (g \<sigma>))) \<sigma> else k \<sigma> else 0) =
        (if g \<sigma> < int w then h (nat (g \<sigma>)) \<sigma> else 0)"
      using res(3) [of "nat (g \<sigma>)" \<sigma>] nn by (simp add: nat_less_iff)
  qed
  with t(1) show ?thesis by blast
qed

lemma bvVarRightShift_bv:
  assumes "bv t w f" "bv sh sw g" "activeBits w \<le> sw" "0 < w" "w < 2 ^ sw" "w < 2 ^ 32"
  shows "\<exists>r. bvVarRightShift vc t sh = Some r \<and> bv r w (\<lambda>\<sigma>. if g \<sigma> < int w then drop_bit (nat (g \<sigma>)) (f \<sigma>) else 0)"
proof -
  have len: "vc_getBVLength vc t = w" using length_of bvD(1) [OF assms(1)] .
  have "\<exists>r. shift_cases vc (extractPartialShiftValue vc sh w) (bvRightShift vc t) (rev [0..<w]) (bvZero vc w) = Some r \<and>
      bv (shift_guard vc sh w r) w (\<lambda>\<sigma>. if g \<sigma> < int w then drop_bit (nat (g \<sigma>)) (f \<sigma>) else 0)"
    by (rule var_shift_bv [OF assms(2-6), where h = "\<lambda>i \<sigma>. drop_bit i (f \<sigma>)", OF bvRightShift_bv [OF assms(1,4)] bvZero_bv [OF assms(4)]]) auto
  then show ?thesis by (auto simp: bvVarRightShift_def len Let_def)
qed

lemma bvVarLeftShift_bv:
  assumes "bv t w f" "bv sh sw g" "activeBits w \<le> sw" "0 < w" "w < 2 ^ sw" "w < 2 ^ 32"
  shows "\<exists>r. bvVarLeftShift vc t sh = Some r \<and>
    bv r w (\<lambda>\<sigma>. if g \<sigma> < int w then take_bit w (push_bit (nat (g \<sigma>)) (f \<sigma>)) else 0)"
proof -
  have len: "vc_getBVLength vc t = w" using length_of bvD(1) [OF assms(1)] .
  have "\<exists>r. shift_cases vc (extractPartialShiftValue vc sh w) (bvLeftShift vc t) (rev [0..<w]) (bvZero vc w) = Some r \<and>
      bv (shift_guard vc sh w r) w (\<lambda>\<sigma>. if g \<sigma> < int w then take_bit w (push_bit (nat (g \<sigma>)) (f \<sigma>)) else 0)"
    by (rule var_shift_bv [OF assms(2-6), where h = "\<lambda>i \<sigma>. take_bit w (push_bit i (f \<sigma>))", OF bvLeftShift_bv [OF assms(1,4)] bvZero_bv [OF assms(4)]]) auto
  then show ?thesis by (auto simp: bvVarLeftShift_def len Let_def)
qed

lemma bvVarArithRightShift_bv:
  assumes "bv t w f" "bv sh sw g" "activeBits w \<le> sw" "0 < w" "w < 2 ^ sw" "w < 2 ^ 32"
  shows "\<exists>r. bvVarArithRightShift vc t sh = Some r \<and>
    bv r w (\<lambda>\<sigma>. if g \<sigma> < int w then take_bit w (drop_bit (nat (g \<sigma>)) (sgn_val w (f \<sigma>))) else 0)"
proof -
  have len: "vc_getBVLength vc t = w" using length_of bvD(1) [OF assms(1)] .
  let ?b = "bvBoolExtract vc t (w - 1)" and ?h = "\<lambda>i \<sigma>. take_bit w (drop_bit i (sgn_val w (f \<sigma>)))"
  have b: "ty ?b = BoolType" "\<And>\<sigma>. tru \<sigma> ?b = bit (f \<sigma>) (w - 1)"
    using bvBoolExtract_bool [OF assms(1), of "w - 1"] assms(4) by simp_all
  have c: "bv (constructAShrByConstant vc t i ?b) w (?h i)" if "i < w" for i
    using constructAShr_bv [OF assms(1,4) b, of i] that by simp
  have "\<exists>r. shift_cases vc (extractPartialShiftValue vc sh w) (\<lambda>i. constructAShrByConstant vc t i ?b)
        (rev [0..<w - 1]) (constructAShrByConstant vc t (w - 1) ?b) = Some r \<and>
      bv (shift_guard vc sh w r) w (\<lambda>\<sigma>. if g \<sigma> < int w then ?h (nat (g \<sigma>)) \<sigma> else 0)"
  proof (rule var_shift_bv [OF assms(2-6) c c])
    fix i \<sigma> assume "i < w" "i \<notin> set (rev [0..<w - 1])"
    then have "i = w - 1" by auto
    then show "?h (w - 1) \<sigma> = ?h i \<sigma>" by simp
  qed (use assms(4) in auto)
  then show ?thesis by (auto simp: bvVarArithRightShift_def len Let_def)
qed

subsection \<open>Multiplication and division by constants\<close>

definition acc_bv :: "'t option \<Rightarrow> width \<Rightarrow> (stp_model \<Rightarrow> int) \<Rightarrow> bool" where
  "acc_bv res w k \<longleftrightarrow> (case res of None \<Rightarrow> \<forall>\<sigma>. k \<sigma> = 0 | Some r \<Rightarrow> bv r w (\<lambda>\<sigma>. take_bit w (k \<sigma>)))"

lemma plus_bv: "bv a w f \<Longrightarrow> bv b w g \<Longrightarrow> bv (vc_bvPlusExpr vc w a b) w (\<lambda>\<sigma>. take_bit w (f \<sigma> + g \<sigma>))"
  by (simp add: bv_def typing meaning)

lemma minus_bv: "bv a w f \<Longrightarrow> bv b w g \<Longrightarrow> bv (vc_bvMinusExpr vc w a b) w (\<lambda>\<sigma>. take_bit w (f \<sigma> - g \<sigma>))"
  by (simp add: bv_def typing meaning)

lemma mul_terms_bv:
  assumes t: "bv t w f" "0 < w" and disj: "\<And>j. \<not> (bit add j \<and> bit sub j)"
  shows "set js \<subseteq> {..<64} \<Longrightarrow> acc_bv res w k \<Longrightarrow>
    \<exists>res'. mul_terms vc t w add sub js res = Some res' \<and> acc_bv res' w (\<lambda>\<sigma>. k \<sigma> + f \<sigma> * bit_sum add sub js)"
proof (induction js arbitrary: res k)
  case Nil
  then show ?case by (simp add: bit_sum_def)
next
  case (Cons j js)
  have j: "add AND push_bit j 1 = 0 \<longleftrightarrow> \<not> bit add j" "sub AND push_bit j 1 = 0 \<longleftrightarrow> \<not> bit sub j" and js: "set js \<subseteq> {..<64}"
    using Cons.prems(1) single_test [of j add] single_test [of j sub] by auto
  note op = bvLeftShift_bv [OF t, of j]
  let ?s = "of_bool (bit add j) - of_bool (bit sub j) :: int"
  define res' where "res' = (if bit add j then (case res of Some r \<Rightarrow> Some (vc_bvPlusExpr vc w r (bvLeftShift vc t j)) | None \<Rightarrow> Some (bvLeftShift vc t j))
    else if bit sub j then (case res of Some r \<Rightarrow> Some (vc_bvMinusExpr vc w r (bvLeftShift vc t j)) | None \<Rightarrow> Some (vc_bvUMinusExpr vc (bvLeftShift vc t j)))
    else res)"
  have step: "mul_terms vc t w add sub (j # js) res = mul_terms vc t w add sub js res'"
    using disj [of j] by (simp add: Let_def j res'_def del: push_bit_of_1)
  have "acc_bv res' w (\<lambda>\<sigma>. k \<sigma> + f \<sigma> * (?s * 2 ^ j))"
  proof (cases res)
    case None
    have k: "k \<sigma> = 0" for \<sigma> using Cons.prems(2) by (simp add: acc_bv_def None)
    have neg: "bv (vc_bvUMinusExpr vc (bvLeftShift vc t j)) w (\<lambda>\<sigma>. take_bit w (- (f \<sigma> * 2 ^ j)))"
      using op by (simp add: bv_def typing meaning push_bit_eq_mult take_bit_minus)
    show ?thesis using disj [of j] op neg by (auto simp: acc_bv_def res'_def None k push_bit_eq_mult)
  next
    case (Some r)
    have r: "bv r w (\<lambda>\<sigma>. take_bit w (k \<sigma>))" using Cons.prems(2) by (simp add: acc_bv_def Some)
    have "bv (vc_bvPlusExpr vc w r (bvLeftShift vc t j)) w (\<lambda>\<sigma>. take_bit w (k \<sigma> + f \<sigma> * 2 ^ j))"
      "bv (vc_bvMinusExpr vc w r (bvLeftShift vc t j)) w (\<lambda>\<sigma>. take_bit w (k \<sigma> - f \<sigma> * 2 ^ j))"
      using plus_bv [OF r op] minus_bv [OF r op] by (simp_all add: push_bit_eq_mult bv_simps)
    then show ?thesis using disj [of j] r by (auto simp: acc_bv_def res'_def Some)
  qed
  from Cons.IH [OF js this] show ?case unfolding step by (simp add: bit_sum_def algebra_simps)
qed

lemma constructMulByConstant_bv:
  assumes t: "bv t w f" "0 < w" "w \<le> 64"
  shows "\<exists>r. constructMulByConstant vc t w x = Some r \<and> bv r w (\<lambda>\<sigma>. take_bit w (f \<sigma> * x))"
proof -
  obtain add sub where c: "ComputeMultConstants64 (of_int x) = Some (add, sub)" "of_int x = add - sub" "add AND sub = 0"
    using ComputeMultConstants64_Some by blast
  obtain a b where ab: "truncateToNBits add w = Some a" "uint a = take_bit w (uint add)"
    "truncateToNBits sub w = Some b" "uint b = take_bit w (uint sub)" "\<forall>j. bit a j \<longrightarrow> bit add j" "\<forall>j. bit b j \<longrightarrow> bit sub j"
    using truncate_uint [OF t(2,3)] by metis
  have disj: "\<not> (bit a j \<and> bit b j)" for j
    using c(3) ab(5,6) bit_and_iff [of add sub j] by auto
  have "acc_bv None w (\<lambda>_. 0)" by (simp add: acc_bv_def)
  from mul_terms_bv [OF t(1,2) disj _ this, of "rev [0..<64]"] obtain res where
    res: "mul_terms vc t w a b (rev [0..<64]) None = Some res" "acc_bv res w (\<lambda>\<sigma>. f \<sigma> * (uint a - uint b))"
    unfolding bit_sum_all by (auto simp: lessThan_atLeast0)
  have "uint (of_int x :: 64 word) = uint (add - sub)" by (simp only: c(2))
  then have "take_bit 64 x = take_bit 64 (uint add - uint sub)"
    by (simp add: uint_word_of_int_eq uint_word_ariths take_bit_eq_mod)
  then have "take_bit w (take_bit 64 x) = take_bit w (take_bit 64 (uint add - uint sub))" by simp
  then have "take_bit w x = take_bit w (uint a - uint b)"
    using t(3) by (simp add: ab(2,4) bv_simps min_def)
  then have "take_bit w (f \<sigma> * (uint a - uint b)) = take_bit w (f \<sigma> * x)" for \<sigma>
    unfolding take_bit_eq_mod by (metis mod_mult_right_eq)
  then have "bv (case res of Some r \<Rightarrow> r | None \<Rightarrow> bvZero vc w) w (\<lambda>\<sigma>. take_bit w (f \<sigma> * x))"
    using res(2) bvZero_bv [OF t(2)] by (auto simp: acc_bv_def split: option.splits)
  then show ?thesis by (simp add: constructMulByConstant_def c(1) ab res(1))
qed

text \<open>Shifting a 32-bit or 64-bit term by a constant that is itself a term.\<close>

lemma shift_by_const_bv:
  assumes "bv t w f" "w = 32 \<or> w = 64" "s < 32" "v = int s"
  shows "\<exists>r. bvVarRightShift vc t (bvConst32 vc 32 v) = Some r \<and> bv r w (\<lambda>\<sigma>. drop_bit s (f \<sigma>))"
proof -
  have c: "bv (bvConst32 vc 32 v) 32 (\<lambda>_. int s)"
    using bvConst32_bv [of 32 v] assms(3,4) by simp
  have "activeBits w \<le> 32" using assms(2) activeBits_le [of 32] activeBits_64 by auto
  with bvVarRightShift_bv [OF assms(1) c] assms(2,3) obtain r where
    "bvVarRightShift vc t (bvConst32 vc 32 v) = Some r"
    "bv r w (\<lambda>\<sigma>. if int s < int w then drop_bit (nat (int s)) (f \<sigma>) else 0)" by auto
  with assms(2,3) show ?thesis by (intro exI [of _ r]) auto
qed

lemma small_nat: "n < 2 ^ 32 \<Longrightarrow> take_bit 32 (int n) = int n"
  by (rule take_bit_id) simp_all

lemma drop_bit_int_nat: "drop_bit s (int n) = int (n div 2 ^ s)"
  by (simp add: drop_bit_eq_div zdiv_int)

lemma high_half: "0 \<le> x \<Longrightarrow> x < 2 ^ 64 \<Longrightarrow> take_bit 32 (drop_bit 32 (take_bit 64 x)) = x div (2 ^ 32 :: int)"
proof -
  assume x: "0 \<le> x" "x < 2 ^ 64"
  then have "take_bit 64 x = x" by (rule take_bit_id)
  moreover have "take_bit 32 (x div 2 ^ 32) = x div 2 ^ 32"
    using x by (intro take_bit_id) (simp_all add: pos_imp_zdiv_nonneg_iff div_less_iff_less_mult)
  ultimately show ?thesis by (simp only: drop_bit_eq_div)
qed

lemma constructUDivByConstant_bv:
  assumes t: "bv t 32 f" and d: "0 < d" "d < 2 ^ 32"
  shows "\<exists>r. constructUDivByConstant vc t 32 d = Some r \<and> bv r 32 (\<lambda>\<sigma>. f \<sigma> div d)"
proof -
  define D where "D = nat d"
  have ud: "unat (of_int d :: 32 word) = D"
    using d by (simp add: D_def unat_eq_nat_uint uint_word_of_int_eq take_bit_id)
  have D: "0 < D" "d = int D" using d(1) by (simp_all add: D_def)
  then have "(of_int d :: 32 word) \<noteq> 0" using ud by auto
  from udiv_constants [OF this] obtain l mprime sh1 sh2 where
    c: "ComputeUDivConstants32 (of_int d) = Some (mprime, sh1, sh2)" "2 ^ 32 + unat mprime = magic (32 + l) D" "D \<le> 2 ^ l"
      "l \<le> 32" "unat sh1 = min l 1" "unat sh2 = l - 1" unfolding ud by metis
  define N where "N \<sigma> = nat (f \<sigma>)" for \<sigma>
  define T where "T \<sigma> = N \<sigma> * unat mprime div 2 ^ 32" for \<sigma>
  have r: "0 \<le> f \<sigma>" "f \<sigma> < 2 ^ 32" for \<sigma> using bv_range [OF t, of \<sigma>] take_bit_eqD by metis+
  then have N: "f \<sigma> = int (N \<sigma>)" "N \<sigma> < 2 ^ 32" for \<sigma> by (simp_all add: N_def nat_less_iff)
  have m: "unat mprime < 2 ^ 32" using unsigned_less [of mprime] by simp
  note q = udiv_by_magic [OF D(1) c(3,2) N(2) m, folded T_def]
  have n64: "bv (vc_bvConcatExpr vc (bvZero vc 32) t) 64 f"
    using concat_bv [OF bvZero_bv t, of 32] by simp
  from constructMulByConstant_bv [OF n64, of "uint mprime"] obtain t64 where
    t64: "constructMulByConstant vc (vc_bvConcatExpr vc (bvZero vc 32) t) 64 (uint mprime) = Some t64"
      "bv t64 64 (\<lambda>\<sigma>. take_bit 64 (f \<sigma> * uint mprime))" by auto
  have t1: "bv (vc_bvExtract vc t64 63 32) 32 (\<lambda>\<sigma>. int (T \<sigma>))"
  proof (rule bv_cong)
    show "bv (vc_bvExtract vc t64 63 32) 32 (\<lambda>\<sigma>. take_bit 32 (drop_bit 32 (take_bit 64 (f \<sigma> * uint mprime))))"
      using extract_bv [OF t64(2), of 32 63] by simp
    fix \<sigma>
    have e: "f \<sigma> * uint mprime = int (N \<sigma> * unat mprime)" by (simp only: N(1) uint_nat of_nat_mult)
    have "N \<sigma> * unat mprime < 2 ^ 32 * 2 ^ 32" using N(2) m by (intro mult_strict_mono) simp_all
    then have "int (N \<sigma> * unat mprime) < int (2 ^ 32 * 2 ^ 32)" by (simp only: of_nat_less_iff)
    then have "f \<sigma> * uint mprime < 2 ^ 64" unfolding e by simp
    then show "take_bit 32 (drop_bit 32 (take_bit 64 (f \<sigma> * uint mprime))) = int (T \<sigma>)"
      using high_half [of "f \<sigma> * uint mprime"] r(1) unfolding T_def e by (simp add: zdiv_int)
  qed
  let ?n = "vc_bvMinusExpr vc 32 t (vc_bvExtract vc t64 63 32)"
  have nm: "bv ?n 32 (\<lambda>\<sigma>. int (N \<sigma> - T \<sigma>))"
  proof (rule bv_cong [OF minus_bv [OF t t1]])
    fix \<sigma>
    have "N \<sigma> - T \<sigma> < 2 ^ 32" using N(2) [of \<sigma>] by linarith
    then show "take_bit 32 (f \<sigma> - int (T \<sigma>)) = int (N \<sigma> - T \<sigma>)"
      using small_nat q(1) [of \<sigma>] unfolding N(1) by (simp only: of_nat_diff [symmetric])
  qed
  have s: "min l 1 < 32" "l - 1 < 32" "uint sh1 = int (min l 1)" "uint sh2 = int (l - 1)"
    using c(4) by (simp_all only: uint_nat c(5,6))
  from shift_by_const_bv [OF nm _ s(1,3)] obtain s1 where
    s1: "bvVarRightShift vc ?n (bvConst32 vc 32 (uint sh1)) = Some s1" "bv s1 32 (\<lambda>\<sigma>. drop_bit (min l 1) (int (N \<sigma> - T \<sigma>)))"
    by auto
  let ?p = "vc_bvPlusExpr vc 32 s1 (vc_bvExtract vc t64 63 32)"
  have pl: "bv ?p 32 (\<lambda>\<sigma>. int ((N \<sigma> - T \<sigma>) div 2 ^ min l 1 + T \<sigma>))"
  proof (rule bv_cong [OF plus_bv [OF s1(2) t1]])
    fix \<sigma>
    have "(N \<sigma> - T \<sigma>) div 2 ^ min l 1 + T \<sigma> < 2 ^ 32" using N(2) [of \<sigma>] q(2) [of \<sigma>] by linarith
    from small_nat [OF this]
    show "take_bit 32 (drop_bit (min l 1) (int (N \<sigma> - T \<sigma>)) + int (T \<sigma>)) = int ((N \<sigma> - T \<sigma>) div 2 ^ min l 1 + T \<sigma>)"
      unfolding drop_bit_int_nat by (simp only: of_nat_add)
  qed
  from shift_by_const_bv [OF pl _ s(2,4)] obtain s2 where
    s2: "bvVarRightShift vc ?p (bvConst32 vc 32 (uint sh2)) = Some s2"
      "bv s2 32 (\<lambda>\<sigma>. drop_bit (l - 1) (int ((N \<sigma> - T \<sigma>) div 2 ^ min l 1 + T \<sigma>)))"
    by auto
  have "bv s2 32 (\<lambda>\<sigma>. f \<sigma> div d)"
    by (rule bv_cong [OF s2(2)]) (simp only: drop_bit_int_nat q(3) N(1) D(2) zdiv_int)
  then show ?thesis by (simp add: constructUDivByConstant_def c(1) t64(1) s1(1) s2(1) Let_def)
qed

lemma sext_bv: "bv t n f \<Longrightarrow> 0 < n \<Longrightarrow> n \<le> w \<Longrightarrow> bv (vc_bvSignExtend vc t w) w (\<lambda>\<sigma>. take_bit w (sgn_val n (f \<sigma>)))"
  by (simp add: bv_def typing meaning)

lemma xor_bv: "bv a w f \<Longrightarrow> bv b w g \<Longrightarrow> bv (vc_bvXorExpr vc a b) w (\<lambda>\<sigma>. f \<sigma> XOR g \<sigma>)"
  by (simp add: bv_def typing meaning)

lemma constructSDivByConstant_bv:
  assumes t: "bv t 32 f" and d: "take_bit 32 d \<noteq> 0"
  shows "\<exists>r. constructSDivByConstant vc t 32 d = Some r \<and>
    bv r 32 (\<lambda>\<sigma>. take_bit 32 (sgn_val 32 (f \<sigma>) sdiv sgn_val 32 d))"
proof -
  define D where "D = nat \<bar>sgn_val 32 d\<bar>"
  have sd: "sint (of_int d :: 32 word) = sgn_val 32 d"
    by (simp only: sint_sbintrunc' sgn_val_def len_bit0 len_num1 mult_2 numeral_plus_numeral) simp
  have "uint (of_int d :: 32 word) = take_bit 32 d" by (simp add: uint_word_of_int_eq)
  then have nz: "(of_int d :: 32 word) \<noteq> 0" using d by auto
  then have sd0: "sgn_val 32 d \<noteq> 0" unfolding sd [symmetric] by (metis signed_0 signed_word_eqI)
  then have D: "0 < D" by (simp add: D_def)
  from sdiv_constants [OF nz] obtain l mprime dsign shpost where
    c: "ComputeSDivConstants32 (of_int d) = Some (mprime, dsign, shpost)" "sint mprime = int (magic (31 + l) D) - 2 ^ 32"
      "D \<le> 2 ^ l" "1 \<le> l" "l \<le> 31" "D \<noteq> 1 \<longrightarrow> 2 ^ (l - 1) < D" "D = 1 \<longrightarrow> l = 1" "unat shpost = l - 1"
      "dsign = (if sgn_val 32 d < 0 then - 1 else 0)" unfolding sd D_def [symmetric] by metis
  define S where "S \<sigma> = sgn_val 32 (f \<sigma>)" for \<sigma>
  have S: "- (2 ^ 31) \<le> S \<sigma>" "S \<sigma> < 2 ^ 31" for \<sigma>
    using sgn_val_bounds [of 32 "f \<sigma>"] by (simp_all add: S_def)
  have fS: "take_bit 32 (S \<sigma>) = f \<sigma>" for \<sigma> using bv_range [OF t] by (simp add: S_def)
  define X where "X \<sigma> = S \<sigma> * int (magic (31 + l) D) div 2 ^ 32" for \<sigma>
  have n64: "bv (vc_bvSignExtend vc t 64) 64 (\<lambda>\<sigma>. take_bit 64 (S \<sigma>))"
    using sext_bv [OF t, of 64] by (simp add: S_def)
  from constructMulByConstant_bv [OF n64, of "uint (scast mprime :: 64 word)"] obtain t64 where
    t64: "constructMulByConstant vc (vc_bvSignExtend vc t 64) 64 (uint (scast mprime :: 64 word)) = Some t64"
      "bv t64 64 (\<lambda>\<sigma>. take_bit 64 (take_bit 64 (S \<sigma>) * uint (scast mprime :: 64 word)))" by auto
  have mulsh: "bv (vc_bvExtract vc t64 63 32) 32 (\<lambda>\<sigma>. take_bit 32 (S \<sigma> * sint mprime div 2 ^ 32))"
  proof (rule bv_cong)
    show "bv (vc_bvExtract vc t64 63 32) 32
        (\<lambda>\<sigma>. take_bit 32 (drop_bit 32 (take_bit 64 (take_bit 64 (S \<sigma>) * uint (scast mprime :: 64 word)))))"
      using extract_bv [OF t64(2), of 32 63] by simp
    fix \<sigma>
    have "uint (scast mprime :: 64 word) = take_bit LENGTH(64) (sint mprime)" by (simp only: scast_eq uint_word_of_int_eq)
    then have e: "take_bit 64 (take_bit 64 (S \<sigma>) * uint (scast mprime :: 64 word)) = take_bit 64 (S \<sigma> * sint mprime)"
      by (simp add: take_bit_eq_mod mod_mult_eq)
    show "take_bit 32 (drop_bit 32 (take_bit 64 (take_bit 64 (S \<sigma>) * uint (scast mprime :: 64 word)))) =
        take_bit 32 (S \<sigma> * sint mprime div 2 ^ 32)"
      unfolding e drop_bit_take_bit take_bit_take_bit by (simp add: drop_bit_eq_div)
  qed
  let ?npm = "vc_bvPlusExpr vc 32 t (vc_bvExtract vc t64 63 32)"
  have npm: "bv ?npm 32 (\<lambda>\<sigma>. take_bit 32 (X \<sigma>))"
  proof (rule bv_cong [OF plus_bv [OF t mulsh]])
    fix \<sigma>
    have "S \<sigma> * int (magic (31 + l) D) = S \<sigma> * sint mprime + S \<sigma> * 2 ^ 32"
      unfolding c(2) by (simp add: algebra_simps)
    then have "X \<sigma> = S \<sigma> * sint mprime div 2 ^ 32 + S \<sigma>" by (simp add: X_def)
    then show "take_bit 32 (f \<sigma> + take_bit 32 (S \<sigma> * sint mprime div 2 ^ 32)) = take_bit 32 (X \<sigma>)"
      unfolding fS [symmetric] by (simp add: bv_simps add.commute)
  qed
  have ext: "bv (vc_bvSignExtend vc ?npm 64) 64 (\<lambda>\<sigma>. take_bit 64 (sgn_val 32 (X \<sigma>)))"
    using sext_bv [OF npm, of 64] by simp
  have l: "l - 1 < 32" "uint shpost = int (l - 1)" using c(5) by (simp_all only: uint_nat c(8))
  from shift_by_const_bv [OF ext _ l] obtain r where
    r: "bvVarRightShift vc (vc_bvSignExtend vc ?npm 64) (bvConst32 vc 32 (uint shpost)) = Some r"
      "bv r 64 (\<lambda>\<sigma>. drop_bit (l - 1) (take_bit 64 (sgn_val 32 (X \<sigma>))))" by auto
  have sh: "bv (vc_bvExtract vc r 31 0) 32 (\<lambda>\<sigma>. take_bit 32 (trunc_quot (S \<sigma>) D - of_bool (S \<sigma> < 0)))"
  proof (rule bv_cong)
    show "bv (vc_bvExtract vc r 31 0) 32 (\<lambda>\<sigma>. take_bit 32 (drop_bit (l - 1) (take_bit 64 (sgn_val 32 (X \<sigma>)))))"
      using extract_bv [OF r(2), of 0 31] by simp
    fix \<sigma>
    have "min 32 (64 - (l - 1)) = 32" using c(5) by simp
    then show "take_bit 32 (drop_bit (l - 1) (take_bit 64 (sgn_val 32 (X \<sigma>)))) =
        take_bit 32 (trunc_quot (S \<sigma>) D - of_bool (S \<sigma> < 0))"
      unfolding magic_shift [OF D c(3-7) S, symmetric] X_def
      by (simp only: drop_bit_take_bit take_bit_take_bit)
  qed
  let ?xs = "vc_iteExpr vc (bvBoolExtract vc t 31) (bvMinusOne vc 32) (bvZero vc 32)"
  have xs: "bv ?xs 32 (\<lambda>\<sigma>. take_bit 32 (- of_bool (S \<sigma> < 0)))"
  proof (rule bv_cong [OF ite_bv [OF _ bvMinusOne_bv bvZero_bv]])
    show "ty (bvBoolExtract vc t 31) = BoolType" "tru \<sigma> (bvBoolExtract vc t 31) = (S \<sigma> < 0)" for \<sigma>
      using bvBoolExtract_bool [OF t, of 31] sgn_val_neg [of 32 "f \<sigma>"] by (simp_all add: S_def)
  qed simp_all
  let ?q0 = "vc_bvMinusExpr vc 32 (vc_bvExtract vc r 31 0) ?xs"
  have q0: "bv ?q0 32 (\<lambda>\<sigma>. take_bit 32 (trunc_quot (S \<sigma>) D))"
    by (rule bv_cong [OF minus_bv [OF sh xs]]) (simp add: bv_simps)
  have ds: "bv (bvConst32 vc 32 (uint dsign)) 32 (\<lambda>_. take_bit 32 (- of_bool (sgn_val 32 d < 0)))"
  proof (rule bv_cong)
    have "uint dsign < 2 ^ 32" using unsigned_less [of dsign] by simp
    then show "bv (bvConst32 vc 32 (uint dsign)) 32 (\<lambda>_. uint dsign)" by (intro bvConst32_bv) simp_all
    have "uint (- 1 :: 32 word) = take_bit 32 (- 1)" by (simp add: unsigned_minus_1_eq_mask take_bit_minus_one_eq_mask)
    then show "uint dsign = take_bit 32 (- of_bool (sgn_val 32 d < 0))" by (simp add: c(9))
  qed
  let ?x = "vc_bvXorExpr vc ?q0 (bvConst32 vc 32 (uint dsign))"
  have "bv (vc_bvMinusExpr vc 32 ?x (bvConst32 vc 32 (uint dsign))) 32
      (\<lambda>\<sigma>. take_bit 32 (sgn_val 32 (f \<sigma>) sdiv sgn_val 32 d))"
  proof (rule bv_cong [OF minus_bv [OF xor_bv [OF q0 ds] ds]])
    fix \<sigma>
    show "take_bit 32 ((take_bit 32 (trunc_quot (S \<sigma>) D) XOR take_bit 32 (- of_bool (sgn_val 32 d < 0))) -
          take_bit 32 (- of_bool (sgn_val 32 d < 0))) = take_bit 32 (sgn_val 32 (f \<sigma>) sdiv sgn_val 32 d)"
    proof (cases "sgn_val 32 d < 0")
      case True
      then show ?thesis
        by (simp only: trunc_quot_sdiv [OF sd0] D_def [symmetric] S_def [symmetric] of_bool_eq negate_by_xor if_True)
    qed (simp add: trunc_quot_sdiv [OF sd0] D_def S_def)
  qed
  then show ?thesis by (simp add: constructSDivByConstant_def c(1) t64(1) r(1) Let_def)
qed

end

end
