(* ===== verification/STPSound.thy ===== *)
theory STPSound
  imports STPBuilder
begin

text \<open>
  The terms of the STP builder mean what the expressions mean. For an expression that meets the builder's assertions
  (\<open>stp_ok\<close>), from every state the builder can be in, a term is built, and in every model its value is that of the
  expression, where an array has the contents the model gives the name under which the builder declared it. Two kinds of
  evaluation are excluded by \<open>term_safe\<close>: a division by zero, and an arithmetic right shift by at least the width, for
  which the builder produces zero.
\<close>

declare One_nat_def [simp del]

subsection \<open>Expressions the builder accepts\<close>

definition stp_array :: "array \<Rightarrow> bool" where
  "stp_array a \<longleftrightarrow> arr_domain a \<noteq> 1 \<and> arr_range a \<noteq> 1 \<and> (isConstantArray a \<longrightarrow> arr_size a \<le> 2 ^ arr_domain a)"

definition isShift :: "bkind \<Rightarrow> bool" where
  "isShift k \<longleftrightarrow> k \<in> {Shl, LShr, AShr}"

definition stp_binary :: "bkind \<Rightarrow> expr \<Rightarrow> expr \<Rightarrow> bool" where
  "stp_binary k l r \<longleftrightarrow> k \<notin> {Ne, Ugt, Uge, Sgt, Sge} \<and> (k \<notin> {And, Or, Xor, Eq} \<longrightarrow> getWidth l \<noteq> 1) \<and>
     (isShift k \<longrightarrow> getWidth l < 2 ^ 32 \<and> (\<forall>c. asConst r = Some c \<longrightarrow> uval c < 2 ^ 32)) \<and>
     (isDiv k \<longrightarrow> (\<forall>c. asConst r = Some c \<longrightarrow> uval c \<noteq> 0))"

primrec stp_ok :: "expr \<Rightarrow> bool" and stp_okU :: "updates \<Rightarrow> bool" where
  "stp_ok (ConstantExpr c) = True"
| "stp_ok (NotOptimizedExpr e) = stp_ok e"
| "stp_ok (ReadExpr a us i) = (stp_array a \<and> stp_okU us \<and> stp_ok i)"
| "stp_ok (SelectExpr c t f) = (stp_ok c \<and> stp_ok t \<and> stp_ok f)"
| "stp_ok (ConcatExpr l r) = (stp_ok l \<and> stp_ok r \<and> getWidth l \<noteq> 1 \<and> getWidth r \<noteq> 1)"
| "stp_ok (ExtractExpr e off w) = (stp_ok e \<and> getWidth e \<noteq> 1)"
| "stp_ok (NotExpr e) = stp_ok e"
| "stp_ok (ZExtExpr e w) = (stp_ok e \<and> getWidth e < w)"
| "stp_ok (SExtExpr e w) = (stp_ok e \<and> getWidth e < w)"
| "stp_ok (BinaryExpr k l r) = (stp_ok l \<and> stp_ok r \<and> stp_binary k l r)"
| "stp_okU NullNode = True"
| "stp_okU (UpdateNode i v n) = (stp_ok i \<and> stp_ok v \<and> stp_okU n)"

text \<open>Evaluations in which no divisor is zero and no arithmetic right shift exceeds the width.\<close>

primrec term_safe :: "env \<Rightarrow> expr \<Rightarrow> bool" and term_safeU :: "env \<Rightarrow> updates \<Rightarrow> bool" where
  "term_safe \<rho> (ConstantExpr c) = True"
| "term_safe \<rho> (NotOptimizedExpr e) = term_safe \<rho> e"
| "term_safe \<rho> (ReadExpr a us i) = (term_safeU \<rho> us \<and> term_safe \<rho> i)"
| "term_safe \<rho> (SelectExpr c t f) = (term_safe \<rho> c \<and> term_safe \<rho> t \<and> term_safe \<rho> f)"
| "term_safe \<rho> (ConcatExpr l r) = (term_safe \<rho> l \<and> term_safe \<rho> r)"
| "term_safe \<rho> (ExtractExpr e off w) = term_safe \<rho> e"
| "term_safe \<rho> (NotExpr e) = term_safe \<rho> e"
| "term_safe \<rho> (ZExtExpr e w) = term_safe \<rho> e"
| "term_safe \<rho> (SExtExpr e w) = term_safe \<rho> e"
| "term_safe \<rho> (BinaryExpr k l r) =
     (term_safe \<rho> l \<and> term_safe \<rho> r \<and> (isDiv k \<longrightarrow> eval \<rho> r \<noteq> 0) \<and> (k = AShr \<longrightarrow> eval \<rho> r < int (getWidth l)))"
| "term_safeU \<rho> NullNode = True"
| "term_safeU \<rho> (UpdateNode i v n) = (term_safe \<rho> i \<and> term_safe \<rho> v \<and> term_safeU \<rho> n)"

subsection \<open>Names\<close>

text \<open>The name under which each hashed array was declared.\<close>

fun array_name :: "(array \<times> 't) list \<Rightarrow> array \<Rightarrow> string" where
  "array_name [] a = ''''"
| "array_name ((b, t) # hash) a = (if a = b then unique_name (arr_name a) (length hash) else array_name hash a)"

text \<open>The environment that a model stands for.\<close>

definition env_of :: "(array \<Rightarrow> string) \<Rightarrow> stp_model \<Rightarrow> env" where
  "env_of nm \<sigma> a i = \<sigma> (nm a) (int i)"

text \<open>Powers of two among the 64-bit constants.\<close>

lemma power_of_two_const:
  assumes "apint_ok c" "getBitWidth c \<le> 64" "isPowerOfTwo (of_int (uval c) :: 64 word)"
  obtains n where "indexOfSingleBit64 (of_int (uval c)) = Some n" "uval c = 2 ^ n" "n < getBitWidth c"
proof -
  obtain n where n: "n < LENGTH(64)" "of_int (uval c) = (push_bit n 1 :: 64 word)"
    using assms(3) isPowerOfTwo_iff by blast
  have "(2::int) ^ getBitWidth c \<le> 2 ^ 64" using assms(2) by (intro power_increasing) simp_all
  then have "uval c < 2 ^ 64" using apint_okD(3) [OF assms(1)] by linarith
  then have "uint (of_int (uval c) :: 64 word) = uval c"
    using apint_okD(2) [OF assms(1)] by (simp add: uint_word_of_int_eq take_bit_id)
  moreover have "uint (push_bit n 1 :: 64 word) = 2 ^ n"
  proof -
    have "(push_bit n 1 :: 64 word) = of_int (2 ^ n)" by simp
    then have "uint (push_bit n 1 :: 64 word) = take_bit 64 (2 ^ n)"
      by (simp only: uint_word_of_int_eq len_bit0 len_num1 mult_2 numeral_plus_numeral) simp
    moreover have "(2 :: int) ^ n < 2 ^ 64" using n(1) by (intro power_strict_increasing) simp_all
    then have "take_bit 64 (2 ^ n :: int) = 2 ^ n" by (intro take_bit_id) simp_all
    ultimately show ?thesis by simp
  qed
  ultimately have e: "uval c = 2 ^ n" using n(2) by simp
  with apint_okD(3) [OF assms(1)] have "n < getBitWidth c" by simp
  moreover have "indexOfSingleBit64 (of_int (uval c)) = Some n"
    unfolding n(2) by (rule indexOfSingleBit64_push) (use n(1) in simp)
  ultimately show thesis using that e by blast
qed

text \<open>Quotients and remainders stay inside the width.\<close>

lemma quotient_range:
  assumes "take_bit w a = a" "take_bit w b = b" "b \<noteq> (0 :: int)"
  shows "take_bit w (a div b) = a div b" "take_bit w (a mod b) = a mod b"
proof -
  have a: "0 \<le> a" "a < 2 ^ w" and b: "0 < b" using assms take_bit_eqD by (metis order_le_less)+
  have "a div b \<le> a div 1" using a b by (intro zdiv_mono2) simp_all
  then show "take_bit w (a div b) = a div b"
    using a b by (intro take_bit_id) (simp_all add: pos_imp_zdiv_nonneg_iff)
  have "a mod b \<le> a" using a b by (simp add: zmod_le_nonneg_dividend)
  then show "take_bit w (a mod b) = a mod b"
    using a b by (intro take_bit_id) simp_all
qed

context stp_interface
begin

definition typed :: "'t \<Rightarrow> width \<Rightarrow> bool" where
  "typed t w \<longleftrightarrow> ty t = (if w = 1 then BoolType else BvType w)"

definition denotes :: "stp_model \<Rightarrow> 't \<Rightarrow> width \<Rightarrow> int \<Rightarrow> bool" where
  "denotes \<sigma> t w v \<longleftrightarrow> (if w = 1 then tru \<sigma> t \<longleftrightarrow> v = 1 else val \<sigma> t = v)"

definition term_for :: "(array \<Rightarrow> string) \<Rightarrow> 't \<Rightarrow> expr \<Rightarrow> bool" where
  "term_for nm t e \<longleftrightarrow> typed t (getWidth e) \<and>
     (\<forall>\<sigma>. term_safe (env_of nm \<sigma>) e \<longrightarrow> denotes \<sigma> t (getWidth e) (eval (env_of nm \<sigma>) e))"

definition array_for :: "(array \<Rightarrow> string) \<Rightarrow> 't \<Rightarrow> array \<Rightarrow> updates \<Rightarrow> bool" where
  "array_for nm t a us \<longleftrightarrow> ty t = ArrayType (arr_domain a) (arr_range a) \<and>
     (\<forall>\<sigma> x. term_safeU (env_of nm \<sigma>) us \<longrightarrow> 0 \<le> x \<longrightarrow> x < 2 ^ arr_domain a \<longrightarrow> cont \<sigma> t x = evalU (env_of nm \<sigma>) a x us)"

definition agrees :: "(array \<Rightarrow> string) \<Rightarrow> (array \<times> 't) list \<Rightarrow> bool" where
  "agrees nm hash \<longleftrightarrow> (\<forall>a t. map_of hash a = Some t \<longrightarrow> t = initialArray vc a (nm a))"

text \<open>What a state of the builder owes: the hashed terms are right under every naming that fits the hashed arrays.\<close>

definition builder_inv :: "'t stp_builder \<Rightarrow> bool" where
  "builder_inv st \<longleftrightarrow> agrees (array_name (array_hash st)) (array_hash st) \<and>
     (\<forall>nm. agrees nm (array_hash st) \<longrightarrow>
       (\<forall>e t w. constructed st e = Some (t, w) \<longrightarrow> w = getWidth e \<and> term_for nm t e) \<and>
       (\<forall>a us t. update_node_hash st (a, us) = Some t \<longrightarrow> array_for nm t a us))"

definition extends :: "'t stp_builder \<Rightarrow> 't stp_builder \<Rightarrow> bool" where
  "extends st st' \<longleftrightarrow> map_of (array_hash st) \<subseteq>\<^sub>m map_of (array_hash st')"

lemma extends_refl: "extends st st"
  by (simp add: extends_def)

lemma extends_trans: "extends st st' \<Longrightarrow> extends st' st'' \<Longrightarrow> extends st st''"
  unfolding extends_def by (rule map_le_trans)

lemma agrees_extends: "agrees nm (array_hash st') \<Longrightarrow> extends st st' \<Longrightarrow> agrees nm (array_hash st)"
  unfolding agrees_def extends_def map_le_def by (metis domI)

subsection \<open>Constants\<close>

lemma const_chunks_bv:
  "apint_ok c \<Longrightarrow> 64 < getBitWidth c \<Longrightarrow> bv res n (\<lambda>_. r) \<Longrightarrow>
    bv (const_chunks vc c res) (n + getBitWidth c - 64) (\<lambda>_. push_bit n (drop_bit 64 (uval c)) + r)"
proof (induction "getBitWidth c" arbitrary: c res n r rule: less_induct)
  case less
  let ?m = "getBitWidth c"
  define c' where "c' = CE_Extract c 64 (?m - 64)"
  define W where "W = min 64 (getBitWidth c')"
  have w: "getBitWidth c' = ?m - 64" by (simp add: c'_def)
  have d: "take_bit (?m - 64) (drop_bit 64 (uval c)) = drop_bit 64 (uval c)"
    using apint_okD(4) [OF less.prems(1)] by (metis drop_bit_take_bit)
  then have v: "uval c' = drop_bit 64 (uval c)"
    using CE_Extract_uval [OF less.prems(1), of 64 "?m - 64"] less.prems(2) by (simp add: c'_def)
  have ok: "apint_ok c'" using less.prems(2) d by (simp add: apint_ok_def w v)
  have W: "0 < W" "W \<le> 64" using less.prems(2) by (auto simp: W_def w)
  have g: "getZExtValue (CE_Extract c' 0 W) = take_bit W (uval c')"
    using CE_Extract_uval [OF ok, of 0 W] by (simp add: getZExtValue_def W_def)
  have "bv (bvConst64 vc W (take_bit W (uval c'))) W (\<lambda>_. take_bit W (uval c'))"
  proof (rule bv_cong [OF bvConst64_bv [OF W]])
    have "take_bit W (uval c') < 2 ^ W" by simp
    also have "\<dots> \<le> (2 :: int) ^ 64" using W(2) by (intro power_increasing) simp_all
    finally show "take_bit W (uval c') < 2 ^ 64" .
  qed simp_all
  from concat_bv [OF this less.prems(3)]
  have step: "bv (vc_bvConcatExpr vc (bvConst64 vc W (take_bit W (uval c'))) res) (W + n) (\<lambda>_. push_bit n (take_bit W (uval c')) + r)" .
  have unfold: "const_chunks vc c res = const_chunks vc c' (vc_bvConcatExpr vc (bvConst64 vc W (take_bit W (uval c'))) res)"
    using less.prems(2) g by (subst const_chunks.simps) (simp add: Let_def c'_def [symmetric] W_def [symmetric])
  show ?case
  proof (cases "64 < getBitWidth c'")
    case True
    then have W64: "W = 64" by (simp add: W_def)
    have e: "push_bit (W + n) (drop_bit 64 (uval c')) + (push_bit n (take_bit W (uval c')) + r) = push_bit n (uval c') + r"
    proof -
      have "push_bit (W + n) (drop_bit 64 (uval c')) = push_bit n (push_bit 64 (drop_bit 64 (uval c')))"
        by (simp add: W64 add.commute)
      moreover have "push_bit n (push_bit 64 (drop_bit 64 (uval c')) + take_bit 64 (uval c')) = push_bit n (uval c')"
        by (simp only: bits_ident)
      ultimately show ?thesis by (simp only: W64 push_bit_add)
    qed
    have "getBitWidth c' < ?m" using less.prems(2) w by simp
    from less.hyps [OF this ok True step] show ?thesis
      unfolding unfold e v [symmetric] using True by (simp add: w W64 algebra_simps)
  next
    case False
    then have "W = ?m - 64" "take_bit W (uval c') = uval c'" using ok w by (simp_all add: W_def apint_ok_def)
    moreover have "const_chunks vc c' t = t" for t using False by (subst const_chunks.simps) simp
    ultimately show ?thesis using step less.prems(2) by (simp add: unfold v algebra_simps)
  qed
qed

lemma constructConstant_bv:
  assumes "apint_ok c" "getBitWidth c \<noteq> 1"
  shows "bv (constructConstant vc c) (getBitWidth c) (\<lambda>_. uval c)"
proof -
  let ?w = "getBitWidth c"
  note ok = apint_okD [OF assms(1)]
  consider "?w \<le> 32" | "\<not> ?w \<le> 32" "?w \<le> 64" | "64 < ?w" by linarith
  then show ?thesis
  proof cases
    case 1
    have "(2 :: int) ^ ?w \<le> 2 ^ 32" using 1 by (intro power_increasing) simp_all
    then have "uval c < 2 ^ 32" using ok(3) by linarith
    from bvConst32_bv [OF ok(1,2,3) this] 1 assms(2) show ?thesis
      by (simp add: constructConstant_def getZExtValue_def)
  next
    case 2
    have "(2 :: int) ^ ?w \<le> 2 ^ 64" using 2 by (intro power_increasing) simp_all
    then have "uval c < 2 ^ 64" using ok(3) by linarith
    from bv_cong [OF bvConst64_bv [OF ok(1) 2(2) ok(2) this] ok(4)] 2 assms(2) show ?thesis
      by (simp add: constructConstant_def getZExtValue_def)
  next
    case 3
    have "uval (CE_Extract c 0 64) = take_bit 64 (uval c)" using CE_Extract_uval [OF assms(1), of 0 64] 3 by simp
    then have "bv (bvConst64 vc 64 (getZExtValue (CE_Extract c 0 64))) 64 (\<lambda>_. take_bit 64 (uval c))"
      using bvConst64_bv [of 64 "take_bit 64 (uval c)"] take_bit_range(2) [of 64 "uval c"]
      by (simp add: getZExtValue_def)
    from bv_cong [OF const_chunks_bv [OF assms(1) 3 this]] 3 show ?thesis
      by (simp add: constructConstant_def bits_ident)
  qed
qed

lemma constructConstant_typed:
  assumes "apint_ok c"
  shows "typed (constructConstant vc c) (getBitWidth c) \<and> denotes \<sigma> (constructConstant vc c) (getBitWidth c) (uval c)"
proof (cases "getBitWidth c = 1")
  case True
  then show ?thesis using apint_ok_isTrue [OF assms True] apint_ok_bool_cases [OF assms True]
    by (auto simp: typed_def denotes_def constructConstant_def typing meaning)
next
  case False
  with constructConstant_bv [OF assms] show ?thesis by (auto simp: typed_def denotes_def bv_def)
qed

subsection \<open>Arrays\<close>

lemma initial_writes:
  assumes a: "array_ok a" "stp_array a" "isConstantArray a" and t: "ty t = ArrayType (arr_domain a) (arr_range a)"
  shows "m \<le> arr_size a \<Longrightarrow> t' = foldl (\<lambda>prev i. vc_writeExpr vc prev (constructConstant vc (mkAPInt (arr_domain a) (int i)))
                   (constructConstant vc (constantValues a ! i))) t [0..<m] \<Longrightarrow>
    ty t' = ArrayType (arr_domain a) (arr_range a) \<and>
    cont \<sigma> t' x = (if 0 \<le> x \<and> x < int m then uval (constantValues a ! nat x) else cont \<sigma> t x)"
proof (induction m arbitrary: t' x)
  case 0
  then show ?case using t by simp
next
  case (Suc m)
  let ?p = "foldl (\<lambda>prev i. vc_writeExpr vc prev (constructConstant vc (mkAPInt (arr_domain a) (int i)))
                   (constructConstant vc (constantValues a ! i))) t [0..<m]"
  let ?i = "mkAPInt (arr_domain a) (int m)" and ?v = "constantValues a ! m"
  have m: "m < arr_size a" using Suc.prems(1) by simp
  have "length (constantValues a) = arr_size a" using a(1,3) by (auto simp: array_ok_def isConstantArray_def)
  then have "?v \<in> set (constantValues a)" using m by simp
  then have v: "apint_ok ?v" "getBitWidth ?v = arr_range a" using a(1) by (auto simp: array_ok_def)
  have dom: "0 < arr_domain a" "arr_domain a \<noteq> 1" "arr_range a \<noteq> 1" using a(1,2) by (simp_all add: array_ok_def stp_array_def)
  have "m < 2 ^ arr_domain a" using m a(2,3) by (auto simp: stp_array_def)
  then have "int m < int (2 ^ arr_domain a)" by (simp only: of_nat_less_iff)
  then have im: "take_bit (arr_domain a) (int m) = int m" by (intro take_bit_id) simp_all
  have i: "bv (constructConstant vc ?i) (arr_domain a) (\<lambda>_. int m)"
    using constructConstant_bv [of ?i] dom im by simp
  have vb: "bv (constructConstant vc ?v) (arr_range a) (\<lambda>_. uval ?v)"
    using constructConstant_bv [OF v(1)] v(2) dom by simp
  have IH: "ty ?p = ArrayType (arr_domain a) (arr_range a)"
    "cont \<sigma> ?p y = (if 0 \<le> y \<and> y < int m then uval (constantValues a ! nat y) else cont \<sigma> t y)" for y
    using Suc.IH [OF _ refl, of y] m by simp_all
  have t': "t' = vc_writeExpr vc ?p (constructConstant vc ?i) (constructConstant vc ?v)"
    using Suc.prems(2) by simp
  have "ty t' = ArrayType (arr_domain a) (arr_range a) \<and> cont \<sigma> t' = (cont \<sigma> ?p)(int m := uval ?v)"
    unfolding t' using write_term [OF IH(1) bvD(1) [OF i] bvD(1) [OF vb]] bvD(2) [OF i] bvD(2) [OF vb] by simp
  then show ?case by (auto simp: IH(2))
qed

lemma initialArray_for:
  assumes "array_ok a" "stp_array a"
  shows "array_for nm (initialArray vc a (nm a)) a NullNode"
proof -
  let ?t = "buildArray vc (nm a) (arr_domain a) (arr_range a)"
  have t: "ty ?t = ArrayType (arr_domain a) (arr_range a)" "cont \<sigma> ?t x = take_bit (arr_range a) (\<sigma> (nm a) x)" for \<sigma> x
    by (simp_all add: buildArray_def typing meaning)
  show ?thesis
  proof (cases "isConstantArray a")
    case True
    from initial_writes [OF assms True t(1) order_refl refl]
    show ?thesis using True by (auto simp: array_for_def initialArray_def initial_value_def env_of_def t nat_less_iff)
  next
    case False
    then show ?thesis by (simp add: array_for_def initialArray_def initial_value_def env_of_def t)
  qed
qed

lemma agrees_Cons:
  assumes "map_of hash a = None"
  shows "agrees nm ((a, t) # hash) \<longleftrightarrow> t = initialArray vc a (nm a) \<and> agrees nm hash"
  using assms unfolding agrees_def by (auto split: if_splits)

lemma array_name_fresh:
  assumes "map_of hash a = None" "agrees (array_name hash) hash"
  shows "agrees (array_name ((a, t) # hash)) hash"
  using assms unfolding agrees_def by (auto split: if_splits)

lemma getInitialArray_builds:
  assumes inv: "builder_inv st" and a: "array_ok a" "stp_array a"
  obtains t st' where "getInitialArray vc a st = (t, st')" "builder_inv st'" "extends st st'"
    "\<And>nm. agrees nm (array_hash st') \<Longrightarrow> array_for nm t a NullNode"
proof (cases "map_of (array_hash st) a")
  case (Some t)
  have "array_for nm t a NullNode" if "agrees nm (array_hash st)" for nm
    using that Some initialArray_for [OF a, of nm] by (simp add: agrees_def)
  then show thesis using that [of t st] inv Some extends_refl by (simp add: getInitialArray_def)
next
  case None
  let ?n = "unique_name (arr_name a) (length (array_hash st))"
  let ?t = "initialArray vc a ?n"
  let ?st = "st\<lparr>array_hash := (a, ?t) # array_hash st\<rparr>"
  have ag: "agrees nm (array_hash ?st) \<longleftrightarrow> ?t = initialArray vc a (nm a) \<and> agrees nm (array_hash st)" for nm
    using agrees_Cons [OF None] by simp
  have "agrees (array_name (array_hash ?st)) (array_hash ?st)"
    using array_name_fresh [OF None] inv unfolding ag by (simp add: builder_inv_def)
  moreover have "extends st ?st" using None by (auto simp: extends_def map_le_def)
  moreover have "array_for nm ?t a NullNode" if "agrees nm (array_hash ?st)" for nm
    using that initialArray_for [OF a, of nm] unfolding ag by simp
  moreover have "builder_inv ?st"
    unfolding builder_inv_def using calculation(1) inv ag by (auto simp: builder_inv_def)
  ultimately show thesis using that [of ?t ?st] None by (simp add: getInitialArray_def Let_def)
qed

subsection \<open>Steps of the construction\<close>

definition builds :: "'t build \<Rightarrow> expr \<Rightarrow> bool" where
  "builds m e \<longleftrightarrow> (\<forall>st. builder_inv st \<longrightarrow> (\<exists>t st'. m st = Some ((t, getWidth e), st') \<and> builder_inv st' \<and>
     extends st st' \<and> (\<forall>nm. agrees nm (array_hash st') \<longrightarrow> term_for nm t e)))"

lemma buildsD:
  assumes "builds m e" "builder_inv st"
  obtains t st' where "m st = Some ((t, getWidth e), st')" "builder_inv st'" "extends st st'"
    "\<And>nm. agrees nm (array_hash st') \<Longrightarrow> term_for nm t e"
  using assms unfolding builds_def by blast

lemma buildsI:
  assumes "\<And>st. builder_inv st \<Longrightarrow> \<exists>t st'. m st = Some ((t, getWidth e), st') \<and> builder_inv st' \<and> extends st st' \<and>
     (\<forall>nm. agrees nm (array_hash st') \<longrightarrow> term_for nm t e)"
  shows "builds m e"
  using assms unfolding builds_def by blast

text \<open>Two operands, in the order in which they are built.\<close>

lemma builds_pair:
  assumes "builds m e" "builds m' e'" "builder_inv st"
  obtains t st1 t' st2 where "m st = Some ((t, getWidth e), st1)" "m' st1 = Some ((t', getWidth e'), st2)" "builder_inv st2"
    "extends st st2" "\<And>nm. agrees nm (array_hash st2) \<Longrightarrow> term_for nm t e"
    "\<And>nm. agrees nm (array_hash st2) \<Longrightarrow> term_for nm t' e'"
proof -
  obtain t st1 where 1: "m st = Some ((t, getWidth e), st1)" "builder_inv st1" "extends st st1"
    "\<And>nm. agrees nm (array_hash st1) \<Longrightarrow> term_for nm t e" using buildsD [OF assms(1,3)] by blast
  obtain t' st2 where 2: "m' st1 = Some ((t', getWidth e'), st2)" "builder_inv st2" "extends st1 st2"
    "\<And>nm. agrees nm (array_hash st2) \<Longrightarrow> term_for nm t' e'" using buildsD [OF assms(2) 1(2)] by blast
  show thesis
    using that [OF 1(1) 2(1,2) extends_trans [OF 1(3) 2(3)]] 1(4) agrees_extends [OF _ 2(3)] 2(4) by blast
qed

text \<open>The cache of constructed terms.\<close>

lemma construct_builds:
  assumes "builds (constructActual vc opts e) e"
  shows "builds (construct vc opts e) e"
proof (rule buildsI)
  fix st assume inv: "builder_inv st"
  obtain t st' where a: "constructActual vc opts e st = Some ((t, getWidth e), st')" "builder_inv st'" "extends st st'"
    "\<And>nm. agrees nm (array_hash st') \<Longrightarrow> term_for nm t e" using buildsD [OF assms inv] by blast
  show "\<exists>t st'. construct vc opts e st = Some ((t, getWidth e), st') \<and> builder_inv st' \<and> extends st st' \<and>
     (\<forall>nm. agrees nm (array_hash st') \<longrightarrow> term_for nm t e)"
  proof (cases "\<not> UseConstructHash opts \<or> isConst e")
    case True
    then show ?thesis using a by (subst construct.simps) auto
  next
    case False
    show ?thesis
    proof (cases "constructed st e")
      case (Some res)
      obtain t w where res: "res = (t, w)" by (cases res)
      have "w = getWidth e \<and> term_for nm t e" if "agrees nm (array_hash st)" for nm
        using inv that Some unfolding builder_inv_def res by blast
      moreover have "agrees (array_name (array_hash st)) (array_hash st)" using inv by (simp add: builder_inv_def)
      ultimately show ?thesis
        using False Some inv extends_refl by (subst construct.simps) (auto simp: res)
    next
      case None
      let ?st = "st'\<lparr>constructed := (constructed st')(e \<mapsto> (t, getWidth e))\<rparr>"
      have "builder_inv ?st" using a(2,4) unfolding builder_inv_def by auto
      moreover have "extends st ?st" using a(3) by (simp add: extends_def)
      moreover have "construct vc opts e st = Some ((t, getWidth e), ?st)"
        using False None a(1) by (subst construct.simps) simp
      ultimately show ?thesis using a(4) by auto
    qed
  qed
qed

lemma constant_builds:
  assumes "apint_ok c"
  shows "builds (construct vc opts (ConstantExpr c)) (ConstantExpr c)"
  using constructConstant_typed [OF assms]
  by (intro construct_builds buildsI) (auto simp: constructActual.simps term_for_def extends_refl)

subsection \<open>Binary operations\<close>

lemma term_for_bv:
  assumes "getWidth e \<noteq> 1"
  shows "term_for nm t e \<longleftrightarrow> ty t = BvType (getWidth e) \<and> (\<forall>\<sigma>. term_safe (env_of nm \<sigma>) e \<longrightarrow> val \<sigma> t = eval (env_of nm \<sigma>) e)"
  using assms by (simp add: term_for_def typed_def denotes_def)

lemma term_for_bool:
  assumes "getWidth e = 1"
  shows "term_for nm t e \<longleftrightarrow> ty t = BoolType \<and> (\<forall>\<sigma>. term_safe (env_of nm \<sigma>) e \<longrightarrow> tru \<sigma> t = (eval (env_of nm \<sigma>) e = 1))"
  using assms by (simp add: term_for_def typed_def denotes_def)

lemma binary_term:
  assumes "term_for nm tL l" "term_for nm tR r" and w: "getWidth l = w" "getWidth r = w" "w \<noteq> 1" "\<not> isCmp k"
    and t: "ty tL = BvType w \<Longrightarrow> ty tR = BvType w \<Longrightarrow> ty t = BvType w"
      "\<And>\<sigma>. ty tL = BvType w \<Longrightarrow> ty tR = BvType w \<Longrightarrow> isDiv k \<longrightarrow> val \<sigma> tR \<noteq> 0 \<Longrightarrow> k = AShr \<longrightarrow> val \<sigma> tR < int w \<Longrightarrow>
        term_safe (env_of nm \<sigma>) r \<Longrightarrow> val \<sigma> t = sem_bin k w (val \<sigma> tL) (val \<sigma> tR)"
  shows "term_for nm t (BinaryExpr k l r)"
  using assms by (auto simp: term_for_bv)

lemma compare_term:
  assumes "term_for nm tL l" "term_for nm tR r" and w: "getWidth l = w" "getWidth r = w" "w \<noteq> 1" "isCmp k"
    and t: "ty tL = BvType w \<Longrightarrow> ty tR = BvType w \<Longrightarrow> ty t = BoolType"
      "\<And>\<sigma>. ty tL = BvType w \<Longrightarrow> ty tR = BvType w \<Longrightarrow> tru \<sigma> t = (sem_bin k w (val \<sigma> tL) (val \<sigma> tR) = 1)"
  shows "term_for nm t (BinaryExpr k l r)"
proof -
  have "isDiv k \<or> k = AShr \<Longrightarrow> False" using w(4) by (auto simp: isCmp_def isDiv_def)
  moreover have "getWidth (BinaryExpr k l r) = 1" using w(4) by simp
  ultimately show ?thesis using assms by (auto simp: term_for_bv term_for_bool)
qed

lemma wt_binary:
  assumes "wt (BinaryExpr k l r)"
  shows "wt l" "wt r" "getWidth r = getWidth l" "0 < getWidth l"
  using assms wt_width_pos [of l] by simp_all

lemma arith_builds:
  assumes b: "builds left l" "builds right r" and wt: "wt (BinaryExpr k l r)" "getWidth l \<noteq> 1" "\<not> isCmp k"
    and oper: "\<And>a b w. ty a = BvType w \<Longrightarrow> ty b = BvType w \<Longrightarrow> ty (oper w a b) = BvType w"
      "\<And>\<sigma> a b w. ty a = BvType w \<Longrightarrow> ty b = BvType w \<Longrightarrow> isDiv k \<longrightarrow> val \<sigma> b \<noteq> 0 \<Longrightarrow> k \<noteq> AShr \<Longrightarrow>
        val \<sigma> (oper w a b) = sem_bin k w (val \<sigma> a) (val \<sigma> b)" "k \<noteq> AShr"
  shows "builds (constructArith vc oper left right) (BinaryExpr k l r)"
proof (rule buildsI)
  fix st assume inv: "builder_inv st"
  note w = wt_binary [OF wt(1)]
  obtain tL st1 tR st2 where s: "left st = Some ((tL, getWidth l), st1)" "right st1 = Some ((tR, getWidth r), st2)" "builder_inv st2"
    "extends st st2" "\<And>nm. agrees nm (array_hash st2) \<Longrightarrow> term_for nm tL l" "\<And>nm. agrees nm (array_hash st2) \<Longrightarrow> term_for nm tR r"
    using builds_pair [OF b inv] by blast
  have "term_for nm (oper (getWidth l) tL tR) (BinaryExpr k l r)" if "agrees nm (array_hash st2)" for nm
    by (rule binary_term [OF s(5,6) [OF that] refl w(3) wt(2,3)]) (use oper in blast)+
  then show "\<exists>t st'. constructArith vc oper left right st = Some ((t, getWidth (BinaryExpr k l r)), st') \<and> builder_inv st' \<and>
      extends st st' \<and> (\<forall>nm. agrees nm (array_hash st') \<longrightarrow> term_for nm t (BinaryExpr k l r))"
    using s(1-4) w(3) wt(2,3) by (simp add: constructArith_def)
qed

lemma order_builds:
  assumes b: "builds left l" "builds right r" and wt: "wt (BinaryExpr k l r)" "getWidth l \<noteq> 1" "isCmp k"
    and oper: "\<And>a b w. ty a = BvType w \<Longrightarrow> ty b = BvType w \<Longrightarrow> ty (oper a b) = BoolType"
      "\<And>\<sigma> a b w. ty a = BvType w \<Longrightarrow> ty b = BvType w \<Longrightarrow> tru \<sigma> (oper a b) = (sem_bin k w (val \<sigma> a) (val \<sigma> b) = 1)"
  shows "builds (constructOrder vc oper left right) (BinaryExpr k l r)"
proof (rule buildsI)
  fix st assume inv: "builder_inv st"
  note w = wt_binary [OF wt(1)]
  obtain tL st1 tR st2 where s: "left st = Some ((tL, getWidth l), st1)" "right st1 = Some ((tR, getWidth r), st2)" "builder_inv st2"
    "extends st st2" "\<And>nm. agrees nm (array_hash st2) \<Longrightarrow> term_for nm tL l" "\<And>nm. agrees nm (array_hash st2) \<Longrightarrow> term_for nm tR r"
    using builds_pair [OF b inv] by blast
  have "term_for nm (oper tL tR) (BinaryExpr k l r)" if "agrees nm (array_hash st2)" for nm
    by (rule compare_term [OF s(5,6) [OF that] refl w(3) wt(2,3)]) (use oper in blast)+
  then show "\<exists>t st'. constructOrder vc oper left right st = Some ((t, getWidth (BinaryExpr k l r)), st') \<and> builder_inv st' \<and>
      extends st st' \<and> (\<forall>nm. agrees nm (array_hash st') \<longrightarrow> term_for nm t (BinaryExpr k l r))"
    using s(1-4) w(3) wt(2,3) by (simp add: constructOrder_def)
qed

text \<open>Conjunction, disjunction and exclusive or, on truth values or bit-vectors.\<close>

lemma bitwise_builds:
  assumes b: "builds left l" "builds right r" and wt: "wt (BinaryExpr k l r)" and k: "k = And \<or> k = Or \<or> k = Xor"
    and bool: "\<And>a b. ty a = BoolType \<Longrightarrow> ty b = BoolType \<Longrightarrow> ty (on_bool a b) = BoolType"
      "\<And>\<sigma> a b. ty a = BoolType \<Longrightarrow> ty b = BoolType \<Longrightarrow>
        tru \<sigma> (on_bool a b) = (sem_bin k 1 (of_bool (tru \<sigma> a)) (of_bool (tru \<sigma> b)) = 1)"
    and bv: "\<And>a b w. ty a = BvType w \<Longrightarrow> ty b = BvType w \<Longrightarrow> ty (on_bv a b) = BvType w"
      "\<And>\<sigma> a b w. ty a = BvType w \<Longrightarrow> ty b = BvType w \<Longrightarrow> val \<sigma> (on_bv a b) = sem_bin k w (val \<sigma> a) (val \<sigma> b)"
  shows "builds (constructBitwise vc on_bool on_bv left right) (BinaryExpr k l r)"
proof (rule buildsI)
  fix st assume inv: "builder_inv st"
  note w = wt_binary [OF wt(1)]
  have nk: "\<not> isCmp k" "\<not> isDiv k" "k \<noteq> AShr" using k by (auto simp: isCmp_def isDiv_def)
  obtain tL st1 tR st2 where s: "left st = Some ((tL, getWidth l), st1)" "right st1 = Some ((tR, getWidth r), st2)" "builder_inv st2"
    "extends st st2" "\<And>nm. agrees nm (array_hash st2) \<Longrightarrow> term_for nm tL l" "\<And>nm. agrees nm (array_hash st2) \<Longrightarrow> term_for nm tR r"
    using builds_pair [OF b inv] by blast
  let ?t = "if getWidth l = 1 then on_bool tL tR else on_bv tL tR"
  have "term_for nm ?t (BinaryExpr k l r)" if ag: "agrees nm (array_hash st2)" for nm
  proof (cases "getWidth l = 1")
    case True
    have l: "ty tL = BoolType" "\<And>\<sigma>. term_safe (env_of nm \<sigma>) l \<Longrightarrow> eval (env_of nm \<sigma>) l = of_bool (tru \<sigma> tL)"
      using s(5) [OF ag] eval_bool_cases [OF w(1) True] by (auto simp: term_for_bool [OF True])
    have r1: "getWidth r = 1" using True w(3) by simp
    have r: "ty tR = BoolType" "\<And>\<sigma>. term_safe (env_of nm \<sigma>) r \<Longrightarrow> eval (env_of nm \<sigma>) r = of_bool (tru \<sigma> tR)"
      using s(6) [OF ag] eval_bool_cases [OF w(2) r1] by (auto simp: term_for_bool [OF r1])
    show ?thesis using True nk bool [OF l(1) r(1)] l r by (simp add: term_for_bool)
  next
    case False
    have "term_for nm (on_bv tL tR) (BinaryExpr k l r)"
      by (rule binary_term [OF s(5,6) [OF ag] refl w(3) False nk(1)]) (use bv in blast)+
    then show ?thesis using False by simp
  qed
  then show "\<exists>t st'. constructBitwise vc on_bool on_bv left right st = Some ((t, getWidth (BinaryExpr k l r)), st') \<and> builder_inv st' \<and>
      extends st st' \<and> (\<forall>nm. agrees nm (array_hash st') \<longrightarrow> term_for nm t (BinaryExpr k l r))"
    using s(1-4) w(3) nk by (simp add: constructBitwise_def)
qed

text \<open>A constant on the right, of which no term is built.\<close>

lemma binary_const:
  assumes "term_for nm tL l" and w: "getWidth l = w" "w \<noteq> 1" "\<not> isCmp k" and c: "isDiv k \<longrightarrow> uval c \<noteq> 0"
    and t: "ty tL = BvType w \<Longrightarrow> ty t = BvType w"
      "\<And>\<sigma>. ty tL = BvType w \<Longrightarrow> k = AShr \<longrightarrow> uval c < int w \<Longrightarrow> val \<sigma> t = sem_bin k w (val \<sigma> tL) (uval c)"
  shows "term_for nm t (BinaryExpr k l (ConstantExpr c))"
  using assms by (auto simp: term_for_bv)

lemma div_ops:
  assumes "ty a = BvType w" "ty b = BvType w" "val \<sigma> b \<noteq> 0"
  shows "val \<sigma> (vc_bvDivExpr vc w a b) = sem_bin UDiv w (val \<sigma> a) (val \<sigma> b)"
    "val \<sigma> (vc_bvModExpr vc w a b) = sem_bin URem w (val \<sigma> a) (val \<sigma> b)"
    "val \<sigma> (vc_sbvDivExpr vc w a b) = sem_bin SDiv w (val \<sigma> a) (val \<sigma> b)"
    "val \<sigma> (vc_sbvRemExpr vc w a b) = sem_bin SRem w (val \<sigma> a) (val \<sigma> b)"
  using assms quotient_range [OF val_range [OF assms(1)] val_range [OF assms(2)] assms(3)]
  by (simp_all add: meaning)

text \<open>The three divisions that look for a constant divisor share the shape: the special term or the general one.\<close>

definition division_step :: "'t build \<Rightarrow> 't build \<Rightarrow> bkind \<Rightarrow> expr \<Rightarrow> expr \<Rightarrow> (width \<Rightarrow> ('t \<Rightarrow> 't option) option) \<Rightarrow>
    (width \<Rightarrow> 't \<Rightarrow> 't \<Rightarrow> 't) \<Rightarrow> 't build" where
  "division_step left right k l r special oper st = do {
     ((x, width_out), st) \<leftarrow> left st;
     if width_out = 1 then None
     else case special width_out of
       Some f \<Rightarrow> do { res \<leftarrow> f x; Some ((res, width_out), st) }
     | None \<Rightarrow> do { ((y, width_out), st) \<leftarrow> right st; Some ((oper width_out x y, width_out), st) } }"

lemma division_builds:
  assumes b: "builds left l" "builds right r" and wt: "wt (BinaryExpr k l r)" "getWidth l \<noteq> 1" "\<not> isCmp k" "k \<noteq> AShr"
    and oper: "\<And>a b w. ty a = BvType w \<Longrightarrow> ty b = BvType w \<Longrightarrow> ty (oper w a b) = BvType w"
      "\<And>\<sigma> a b w. ty a = BvType w \<Longrightarrow> ty b = BvType w \<Longrightarrow> isDiv k \<longrightarrow> val \<sigma> b \<noteq> 0 \<Longrightarrow>
        val \<sigma> (oper w a b) = sem_bin k w (val \<sigma> a) (val \<sigma> b)"
    and special: "\<And>f t. special (getWidth l) = Some f \<Longrightarrow> ty t = BvType (getWidth l) \<Longrightarrow> \<exists>c res. r = ConstantExpr c \<and> (isDiv k \<longrightarrow> uval c \<noteq> 0) \<and>
        f t = Some res \<and> bv res (getWidth l) (\<lambda>\<sigma>. sem_bin k (getWidth l) (val \<sigma> t) (uval c))"
  shows "builds (division_step left right k l r special oper) (BinaryExpr k l r)"
proof (rule buildsI)
  fix st assume inv: "builder_inv st"
  note w = wt_binary [OF wt(1)]
  show "\<exists>t st'. division_step left right k l r special oper st = Some ((t, getWidth (BinaryExpr k l r)), st') \<and> builder_inv st' \<and>
      extends st st' \<and> (\<forall>nm. agrees nm (array_hash st') \<longrightarrow> term_for nm t (BinaryExpr k l r))"
  proof (cases "special (getWidth l)")
    case None
    obtain tL st1 tR st2 where s: "left st = Some ((tL, getWidth l), st1)" "right st1 = Some ((tR, getWidth r), st2)" "builder_inv st2"
      "extends st st2" "\<And>nm. agrees nm (array_hash st2) \<Longrightarrow> term_for nm tL l" "\<And>nm. agrees nm (array_hash st2) \<Longrightarrow> term_for nm tR r"
      using builds_pair [OF b inv] by blast
    have "term_for nm (oper (getWidth l) tL tR) (BinaryExpr k l r)" if "agrees nm (array_hash st2)" for nm
      by (rule binary_term [OF s(5,6) [OF that] refl w(3) wt(2,3)]) (use oper in blast)+
    then show ?thesis using None s(1-4) w(3) wt(2,3) by (simp add: division_step_def)
  next
    case (Some f)
    obtain tL st1 where s: "left st = Some ((tL, getWidth l), st1)" "builder_inv st1" "extends st st1"
      "\<And>nm. agrees nm (array_hash st1) \<Longrightarrow> term_for nm tL l"
      using buildsD [OF b(1) inv] by blast
    have "agrees (array_name (array_hash st1)) (array_hash st1)" using s(2) by (simp add: builder_inv_def)
    then have "ty tL = BvType (getWidth l)" using s(4) term_for_bv [OF wt(2)] by blast
    from special [OF Some this] obtain c res where c: "r = ConstantExpr c" "isDiv k \<longrightarrow> uval c \<noteq> 0"
      "f tL = Some res" "bv res (getWidth l) (\<lambda>\<sigma>. sem_bin k (getWidth l) (val \<sigma> tL) (uval c))" by blast
    have "term_for nm res (BinaryExpr k l r)" if "agrees nm (array_hash st1)" for nm
      unfolding c(1) by (rule binary_const [OF s(4) [OF that] refl wt(2,3) c(2)]) (use c(4) in \<open>auto simp: bv_def\<close>)
    then show ?thesis using Some s(1-3) c(3) wt(2,3) by (simp add: division_step_def)
  qed
qed

lemma mul_builds:
  assumes b: "builds left l" "builds right r" and wt: "wt (BinaryExpr Mul l r)" "getWidth l \<noteq> 1"
  shows "builds (constructMul vc l left right) (BinaryExpr Mul l r)"
proof (rule buildsI)
  fix st assume inv: "builder_inv st"
  note w = wt_binary [OF wt(1)]
  have nk: "\<not> isCmp Mul" "\<not> isDiv Mul" by (simp_all add: isCmp_def isDiv_def)
  show "\<exists>t st'. constructMul vc l left right st = Some ((t, getWidth (BinaryExpr Mul l r)), st') \<and> builder_inv st' \<and>
      extends st st' \<and> (\<forall>nm. agrees nm (array_hash st') \<longrightarrow> term_for nm t (BinaryExpr Mul l r))"
  proof (cases "\<exists>c. l = ConstantExpr c \<and> getBitWidth c \<le> 64")
    case True
    then obtain c where c: "l = ConstantExpr c" "getBitWidth c \<le> 64" by blast
    obtain tR st1 where s: "right st = Some ((tR, getWidth r), st1)" "builder_inv st1" "extends st st1"
      "\<And>nm. agrees nm (array_hash st1) \<Longrightarrow> term_for nm tR r"
      using buildsD [OF b(2) inv] by blast
    have r1: "getWidth r \<noteq> 1" using w(3) wt(2) by simp
    have "agrees (array_name (array_hash st1)) (array_hash st1)" using s(2) by (simp add: builder_inv_def)
    then have "ty tR = BvType (getWidth r)" using s(4) term_for_bv [OF r1] by blast
    from constructMulByConstant_bv [OF bv_self [OF this], of "uval c"] w(3,4) c obtain t where
      t: "constructMulByConstant vc tR (getWidth r) (uval c) = Some t" "bv t (getWidth r) (\<lambda>\<sigma>. take_bit (getWidth r) (val \<sigma> tR * uval c))"
      by auto
    have "term_for nm t (BinaryExpr Mul l r)" if "agrees nm (array_hash st1)" for nm
      using s(4) [OF that] t(2) c(1) w(3) r1 nk by (auto simp: term_for_bv bv_def mult.commute)
    then show ?thesis using s(1-3) t(1) c w(3) r1 nk by (simp add: constructMul_def getZExtValue_def)
  next
    case False
    obtain tR st1 tL st2 where s: "right st = Some ((tR, getWidth r), st1)" "left st1 = Some ((tL, getWidth l), st2)" "builder_inv st2"
      "extends st st2" "\<And>nm. agrees nm (array_hash st2) \<Longrightarrow> term_for nm tR r" "\<And>nm. agrees nm (array_hash st2) \<Longrightarrow> term_for nm tL l"
      using builds_pair [OF b(2,1) inv] by blast
    have "term_for nm (vc_bvMultExpr vc (getWidth l) tL tR) (BinaryExpr Mul l r)" if "agrees nm (array_hash st2)" for nm
      by (rule binary_term [OF s(6,5) [OF that] refl w(3) wt(2) nk(1)]) (simp_all add: typing meaning)
    then show ?thesis using s(1-4) w(3) wt(2) nk False by (cases "asConst l") (simp_all add: constructMul_def)
  qed
qed

lemma UDiv_builds:
  assumes b: "builds left l" "builds right r" and wt: "wt (BinaryExpr UDiv l r)" and ok: "stp_binary UDiv l r"
  shows "builds (constructUDiv vc opts r left right) (BinaryExpr UDiv l r)"
proof -
  have k: "getWidth l \<noteq> 1" "\<not> isCmp UDiv" "isDiv UDiv" using ok by (auto simp: stp_binary_def isCmp_def isDiv_def)
  note w = wt_binary [OF wt]
  let ?special = "\<lambda>width. case asConst r of None \<Rightarrow> None | Some CE \<Rightarrow>
    if getBitWidth CE \<le> 64 then
      if isPowerOfTwo (of_int (uval CE) :: 64 word)
      then Some (\<lambda>t. do { n \<leftarrow> indexOfSingleBit64 (of_int (uval CE)); Some (bvRightShift vc t n) })
      else if optimizeDivides opts \<and> width = 32 then Some (\<lambda>t. constructUDivByConstant vc t width (take_bit 32 (uval CE)))
      else None
    else None"
  have "constructUDiv vc opts r left right = division_step left right UDiv l r ?special (vc_bvDivExpr vc)"
  proof
    fix st show "constructUDiv vc opts r left right st = division_step left right UDiv l r ?special (vc_bvDivExpr vc) st"
      by (cases "left st") (auto simp: constructUDiv_def division_step_def Let_def getZExtValue_def Option.bind_assoc split: option.split)
  qed
  moreover have "builds (division_step left right UDiv l r ?special (vc_bvDivExpr vc)) (BinaryExpr UDiv l r)"
  proof (rule division_builds [OF b wt k(1,2)])
    fix f t assume f: "?special (getWidth l) = Some f" and t: "ty t = BvType (getWidth l)"
    then obtain c where c: "r = ConstantExpr c" "getBitWidth c \<le> 64" by (cases "asConst r") (auto split: if_splits)
    have okc: "apint_ok c" "getBitWidth c = getWidth l" using w c(1) by simp_all
    have nz: "uval c \<noteq> 0" using ok k(3) c(1) by (auto simp: stp_binary_def)
    note r = quotient_range(1) [OF val_range [OF t] _ nz]
    have cr: "take_bit (getWidth l) (uval c) = uval c" using apint_okD(4) [OF okc(1)] okc(2) by simp
    show "\<exists>c res. r = ConstantExpr c \<and> (isDiv UDiv \<longrightarrow> uval c \<noteq> 0) \<and> f t = Some res \<and>
      bv res (getWidth l) (\<lambda>\<sigma>. sem_bin UDiv (getWidth l) (val \<sigma> t) (uval c))"
    proof (cases "isPowerOfTwo (of_int (uval c) :: 64 word)")
      case True
      from power_of_two_const [OF okc(1) c(2) True] obtain n where
        n: "indexOfSingleBit64 (of_int (uval c)) = Some n" "uval c = 2 ^ n" by metis
      have "f t = Some (bvRightShift vc t n)" using f c True n(1) by auto
      moreover have "bv (bvRightShift vc t n) (getWidth l) (\<lambda>\<sigma>. sem_bin UDiv (getWidth l) (val \<sigma> t) (uval c))"
        by (rule bv_cong [OF bvRightShift_bv [OF bv_self [OF t] w(4)]]) (use nz r [OF cr] in \<open>simp add: n(2) drop_bit_eq_div\<close>)
      ultimately show ?thesis using c(1) nz by blast
    next
      case False
      then have o: "getWidth l = 32" "f = (\<lambda>t. constructUDivByConstant vc t (getWidth l) (take_bit 32 (uval c)))"
        using f c by (auto split: if_splits)
      have cr32: "take_bit 32 (uval c) = uval c" using cr o(1) by simp
      have d: "0 < uval c" "uval c < 2 ^ 32" using nz apint_okD(2,3) [OF okc(1)] okc(2) o(1) by simp_all
      from constructUDivByConstant_bv [OF bv_self [OF t [unfolded o(1)]] d] obtain res where
        res: "constructUDivByConstant vc t 32 (uval c) = Some res" "bv res 32 (\<lambda>\<sigma>. val \<sigma> t div uval c)" by blast
      have "bv res (getWidth l) (\<lambda>\<sigma>. sem_bin UDiv (getWidth l) (val \<sigma> t) (uval c))"
        unfolding o(1) by (rule bv_cong [OF res(2)]) (use nz r [OF cr] o(1) in simp)
      then show ?thesis using c(1) nz res(1) by (intro exI [of _ c] exI [of _ res]) (simp add: o cr32)
    qed
  qed (use k in \<open>simp_all add: typing div_ops\<close>)
  ultimately show ?thesis by simp
qed

lemma SDiv_builds:
  assumes b: "builds left l" "builds right r" and wt: "wt (BinaryExpr SDiv l r)" and ok: "stp_binary SDiv l r"
  shows "builds (constructSDiv vc opts r left right) (BinaryExpr SDiv l r)"
proof -
  have k: "getWidth l \<noteq> 1" "\<not> isCmp SDiv" "isDiv SDiv" using ok by (auto simp: stp_binary_def isCmp_def isDiv_def)
  note w = wt_binary [OF wt]
  let ?special = "\<lambda>width. case asConst r of None \<Rightarrow> None | Some CE \<Rightarrow>
    if optimizeDivides opts \<and> CE \<noteq> mkAPInt (getBitWidth CE) 1 \<and> CE \<noteq> mkAPInt (getBitWidth CE) (- 1) \<and> width = 32
    then Some (\<lambda>t. if 32 < getBitWidth CE then None else constructSDivByConstant vc t width (uval CE)) else None"
  have "constructSDiv vc opts r left right = division_step left right SDiv l r ?special (vc_sbvDivExpr vc)"
  proof
    fix st show "constructSDiv vc opts r left right st = division_step left right SDiv l r ?special (vc_sbvDivExpr vc) st"
      by (cases "left st") (auto simp: constructSDiv_def division_step_def Let_def getZExtValue_def Option.bind_assoc split: option.split)
  qed
  moreover have "builds (division_step left right SDiv l r ?special (vc_sbvDivExpr vc)) (BinaryExpr SDiv l r)"
  proof (rule division_builds [OF b wt k(1,2)])
    fix f t assume f: "?special (getWidth l) = Some f" and t: "ty t = BvType (getWidth l)"
    then obtain c where c: "r = ConstantExpr c" by (cases "asConst r") auto
    have okc: "apint_ok c" "getBitWidth c = getWidth l" using w c by simp_all
    have o: "getWidth l = 32" "f = (\<lambda>t. if 32 < getBitWidth c then None else constructSDivByConstant vc t (getWidth l) (uval c))"
      using f c by (auto split: if_splits)
    have nz: "uval c \<noteq> 0" using ok k(3) c by (auto simp: stp_binary_def)
    then have "take_bit 32 (uval c) \<noteq> 0" using apint_okD(4) [OF okc(1)] okc(2) o(1) by simp
    from constructSDivByConstant_bv [OF bv_self [OF t [unfolded o(1)]] this] obtain res where
      res: "constructSDivByConstant vc t 32 (uval c) = Some res"
        "bv res 32 (\<lambda>\<sigma>. take_bit 32 (sgn_val 32 (val \<sigma> t) sdiv sgn_val 32 (uval c)))" by blast
    have "bv res (getWidth l) (\<lambda>\<sigma>. sem_bin SDiv (getWidth l) (val \<sigma> t) (uval c))"
      unfolding o(1) by (rule bv_cong [OF res(2)]) (simp add: nz)
    then show "\<exists>c res. r = ConstantExpr c \<and> (isDiv SDiv \<longrightarrow> uval c \<noteq> 0) \<and> f t = Some res \<and>
      bv res (getWidth l) (\<lambda>\<sigma>. sem_bin SDiv (getWidth l) (val \<sigma> t) (uval c))"
      using c nz res(1) okc(2) by (intro exI [of _ c] exI [of _ res]) (simp add: o)
  qed (use k in \<open>simp_all add: typing div_ops\<close>)
  ultimately show ?thesis by simp
qed

lemma URem_builds:
  assumes b: "builds left l" "builds right r" and wt: "wt (BinaryExpr URem l r)" and ok: "stp_binary URem l r"
  shows "builds (constructURem vc opts r left right) (BinaryExpr URem l r)"
proof -
  have k: "getWidth l \<noteq> 1" "\<not> isCmp URem" "isDiv URem" using ok by (auto simp: stp_binary_def isCmp_def isDiv_def)
  note w = wt_binary [OF wt]
  let ?special = "\<lambda>width. case asConst r of None \<Rightarrow> None | Some CE \<Rightarrow>
    if getBitWidth CE \<le> 64 then
      if isPowerOfTwo (of_int (uval CE) :: 64 word)
      then Some (\<lambda>t. do { bits \<leftarrow> indexOfSingleBit64 (of_int (uval CE));
        Some (if bits = 0 then bvZero vc width
              else vc_bvConcatExpr vc (bvZero vc (width - bits)) (bvExtract vc t (bits - 1) 0)) })
      else if optimizeDivides opts \<and> width = 32 then Some (\<lambda>t. do {
        quotient \<leftarrow> constructUDivByConstant vc t width (take_bit 32 (uval CE));
        quot_times_divisor \<leftarrow> constructMulByConstant vc quotient width (uval CE);
        Some (vc_bvMinusExpr vc width t quot_times_divisor) })
      else None
    else None"
  have "constructURem vc opts r left right = division_step left right URem l r ?special (vc_bvModExpr vc)"
  proof
    fix st show "constructURem vc opts r left right st = division_step left right URem l r ?special (vc_bvModExpr vc) st"
      by (cases "left st") (auto simp: constructURem_def division_step_def Let_def getZExtValue_def Option.bind_assoc
          split: option.split intro!: Option.bind_cong)
  qed
  moreover have "builds (division_step left right URem l r ?special (vc_bvModExpr vc)) (BinaryExpr URem l r)"
  proof (rule division_builds [OF b wt k(1,2)])
    fix f t assume f: "?special (getWidth l) = Some f" and t: "ty t = BvType (getWidth l)"
    then obtain c where c: "r = ConstantExpr c" "getBitWidth c \<le> 64" by (cases "asConst r") (auto split: if_splits)
    have okc: "apint_ok c" "getBitWidth c = getWidth l" using w c(1) by simp_all
    have nz: "uval c \<noteq> 0" using ok k(3) c(1) by (auto simp: stp_binary_def)
    have cr: "take_bit (getWidth l) (uval c) = uval c" using apint_okD(4) [OF okc(1)] okc(2) by simp
    note r = quotient_range(2) [OF val_range [OF t] cr nz]
    show "\<exists>c res. r = ConstantExpr c \<and> (isDiv URem \<longrightarrow> uval c \<noteq> 0) \<and> f t = Some res \<and>
      bv res (getWidth l) (\<lambda>\<sigma>. sem_bin URem (getWidth l) (val \<sigma> t) (uval c))"
    proof (cases "isPowerOfTwo (of_int (uval c) :: 64 word)")
      case True
      from power_of_two_const [OF okc(1) c(2) True] obtain n where
        n: "indexOfSingleBit64 (of_int (uval c)) = Some n" "uval c = 2 ^ n" "n < getWidth l" unfolding okc(2) by metis
      let ?res = "if n = 0 then bvZero vc (getWidth l)
        else vc_bvConcatExpr vc (bvZero vc (getWidth l - n)) (bvExtract vc t (n - 1) 0)"
      have "f t = Some ?res" using f c True n(1) by auto
      moreover have "bv ?res (getWidth l) (\<lambda>\<sigma>. sem_bin URem (getWidth l) (val \<sigma> t) (uval c))"
      proof (cases "n = 0")
        case True
        then show ?thesis using bvZero_bv [OF w(4)] n(2) by simp
      next
        case False
        have e: "bv (bvExtract vc t (n - 1) 0) n (\<lambda>\<sigma>. take_bit n (val \<sigma> t))"
          using extract_bv [OF bv_self [OF t], of 0 "n - 1"] n(3) False by (simp add: bvExtract_def)
        have "sem_bin URem (getWidth l) (val \<sigma> t) (uval c) = take_bit n (val \<sigma> t)" for \<sigma>
          using r nz by (simp add: n(2) take_bit_eq_mod)
        then show ?thesis using concat_bv [OF bvZero_bv e, of "getWidth l - n"] n(3) False by simp
      qed
      ultimately show ?thesis using c(1) nz by blast
    next
      case False
      then have o: "getWidth l = 32" "f = (\<lambda>t. do {
          quotient \<leftarrow> constructUDivByConstant vc t (getWidth l) (take_bit 32 (uval c));
          quot_times_divisor \<leftarrow> constructMulByConstant vc quotient (getWidth l) (uval c);
          Some (vc_bvMinusExpr vc (getWidth l) t quot_times_divisor) })"
        using f c by (auto split: if_splits)
      have cr32: "take_bit 32 (uval c) = uval c" using cr o(1) by simp
      have d: "0 < uval c" "uval c < 2 ^ 32" using nz apint_okD(2,3) [OF okc(1)] okc(2) o(1) by simp_all
      note t32 = bv_self [OF t [unfolded o(1)]]
      from constructUDivByConstant_bv [OF t32 d] obtain q where
        q: "constructUDivByConstant vc t 32 (uval c) = Some q" "bv q 32 (\<lambda>\<sigma>. val \<sigma> t div uval c)" by blast
      from constructMulByConstant_bv [OF q(2), of "uval c"] obtain m where
        m: "constructMulByConstant vc q 32 (uval c) = Some m" "bv m 32 (\<lambda>\<sigma>. take_bit 32 (val \<sigma> t div uval c * uval c))" by auto
      have "bv (vc_bvMinusExpr vc 32 t m) (getWidth l) (\<lambda>\<sigma>. sem_bin URem (getWidth l) (val \<sigma> t) (uval c))"
        unfolding o(1)
      proof (rule bv_cong [OF minus_bv [OF t32 m(2)]])
        fix \<sigma>
        have "val \<sigma> t - val \<sigma> t div uval c * uval c = val \<sigma> t mod uval c" by (simp add: minus_div_mult_eq_mod)
        then show "take_bit 32 (val \<sigma> t - take_bit 32 (val \<sigma> t div uval c * uval c)) = sem_bin URem 32 (val \<sigma> t) (uval c)"
          using nz by (simp add: bv_simps)
      qed
      then show ?thesis using c(1) nz q(1) m(1)
        by (intro exI [of _ c] exI [of _ "vc_bvMinusExpr vc 32 t m"]) (simp add: o cr32)
    qed
  qed (use k in \<open>simp_all add: typing div_ops\<close>)
  ultimately show ?thesis by simp
qed

lemma unsigned_limited_small: "apint_ok c \<Longrightarrow> uval c < 2 ^ 32 \<Longrightarrow> unsigned_limited c = nat (uval c)"
  using take_bit_id [of "uval c" 32] apint_okD(2) [of c] by (simp add: unsigned_limited_def getLimitedValue_def)

lemma shift_builds:
  assumes b: "builds left l" "builds right r" and wt: "wt (BinaryExpr k l r)" and ok: "stp_binary k l r" and k: "isShift k"
    and const: "\<And>t n. ty t = BvType (getWidth l) \<Longrightarrow> ty (by_const t (getWidth l) n) = BvType (getWidth l) \<and>
        (\<forall>\<sigma>. (k = AShr \<longrightarrow> n < getWidth l) \<longrightarrow> val \<sigma> (by_const t (getWidth l) n) = sem_bin k (getWidth l) (val \<sigma> t) (int n))"
    and var: "\<And>t s. ty t = BvType (getWidth l) \<Longrightarrow> ty s = BvType (getWidth l) \<Longrightarrow> \<exists>res. by_var t s = Some res \<and>
        ty res = BvType (getWidth l) \<and>
        (\<forall>\<sigma>. (k = AShr \<longrightarrow> val \<sigma> s < int (getWidth l)) \<longrightarrow> val \<sigma> res = sem_bin k (getWidth l) (val \<sigma> t) (val \<sigma> s))"
  shows "builds (constructShift vc by_const by_var r left right) (BinaryExpr k l r)"
proof (rule buildsI)
  fix st assume inv: "builder_inv st"
  note w = wt_binary [OF wt]
  have nk: "\<not> isCmp k" "\<not> isDiv k" "getWidth l \<noteq> 1" using k ok by (auto simp: isShift_def isCmp_def isDiv_def stp_binary_def)
  have r1: "getWidth r \<noteq> 1" using nk(3) w(3) by simp
  show "\<exists>t st'. constructShift vc by_const by_var r left right st = Some ((t, getWidth (BinaryExpr k l r)), st') \<and> builder_inv st' \<and>
      extends st st' \<and> (\<forall>nm. agrees nm (array_hash st') \<longrightarrow> term_for nm t (BinaryExpr k l r))"
  proof (cases "asConst r")
    case (Some c)
    then have c: "r = ConstantExpr c" by simp
    then have okc: "apint_ok c" using w by simp
    have "uval c < 2 ^ 32" using ok k c by (auto simp: stp_binary_def)
    then have n: "unsigned_limited c = nat (uval c)" "int (nat (uval c)) = uval c"
      using unsigned_limited_small [OF okc] apint_okD(2) [OF okc] by simp_all
    obtain tL st1 where s: "left st = Some ((tL, getWidth l), st1)" "builder_inv st1" "extends st st1"
      "\<And>nm. agrees nm (array_hash st1) \<Longrightarrow> term_for nm tL l"
      using buildsD [OF b(1) inv] by blast
    have "term_for nm (by_const tL (getWidth l) (nat (uval c))) (BinaryExpr k l r)" if "agrees nm (array_hash st1)" for nm
      unfolding c
    proof (rule binary_const [OF s(4) [OF that] refl nk(3,1)])
      show "val \<sigma> (by_const tL (getWidth l) (nat (uval c))) = sem_bin k (getWidth l) (val \<sigma> tL) (uval c)"
        if "ty tL = BvType (getWidth l)" "k = AShr \<longrightarrow> uval c < int (getWidth l)" for \<sigma>
        using const [OF that(1), of "nat (uval c)"] that(2) n(2) apint_okD(2) [OF okc] by (simp add: nat_less_iff)
    qed (use const nk(2) in \<open>simp_all\<close>)
    then show ?thesis using s(1-3) Some n(1) nk by (simp add: constructShift_def)
  next
    case None
    obtain tL st1 tR st2 where s: "left st = Some ((tL, getWidth l), st1)" "right st1 = Some ((tR, getWidth r), st2)" "builder_inv st2"
      "extends st st2" "\<And>nm. agrees nm (array_hash st2) \<Longrightarrow> term_for nm tL l" "\<And>nm. agrees nm (array_hash st2) \<Longrightarrow> term_for nm tR r"
      using builds_pair [OF b inv] by blast
    have "agrees (array_name (array_hash st2)) (array_hash st2)" using s(3) by (simp add: builder_inv_def)
    then have "ty tL = BvType (getWidth l)" "ty tR = BvType (getWidth l)"
      using s(5,6) term_for_bv [OF nk(3)] term_for_bv [OF r1] w(3) by metis+
    from var [OF this] obtain res where res: "by_var tL tR = Some res" "ty res = BvType (getWidth l)"
      "\<And>\<sigma>. k = AShr \<longrightarrow> val \<sigma> tR < int (getWidth l) \<Longrightarrow> val \<sigma> res = sem_bin k (getWidth l) (val \<sigma> tL) (val \<sigma> tR)" by blast
    have "term_for nm res (BinaryExpr k l r)" if "agrees nm (array_hash st2)" for nm
      by (rule binary_term [OF s(5,6) [OF that] refl w(3) nk(3,1)]) (use res in blast)+
    then show ?thesis using s(1-4) None res(1) nk by (simp add: constructShift_def)
  qed
qed

lemma bvD_all: "bv t w f \<Longrightarrow> ty t = BvType w \<and> (\<forall>\<sigma>. val \<sigma> t = f \<sigma>)"
  by (simp add: bv_def)

lemma shifts_build:
  assumes b: "builds left l" "builds right r" and wt: "wt (BinaryExpr k l r)" and ok: "stp_binary k l r" and k: "isShift k"
  shows "builds (constructBinary vc opts k l r left right) (BinaryExpr k l r)"
proof -
  let ?w = "getWidth l"
  note w = wt_binary [OF wt]
  have less: "?w < 2 ^ ?w" "?w < 2 ^ 32" using ok k by (simp_all add: stp_binary_def)
  note var = activeBits_le [OF w(4)] w(4) less
  have nn: "0 \<le> val \<sigma> t" if "ty t = BvType ?w" for \<sigma> t using val_range [OF that] take_bit_eqD by metis
  consider "k = Shl" | "k = LShr" | "k = AShr" using k by (auto simp: isShift_def)
  then show ?thesis
  proof cases
    case 1
    show ?thesis unfolding 1 constructBinary.simps
    proof (rule shift_builds [OF b wt [unfolded 1] ok [unfolded 1] k [unfolded 1]])
      fix t n assume t: "ty t = BvType ?w"
      have "take_bit ?w (push_bit n (val \<sigma> t)) = 0" if "\<not> n < ?w" for \<sigma>
        using that by (simp add: take_bit_push_bit)
      then show "ty (bvLeftShift vc t n) = BvType ?w \<and>
          (\<forall>\<sigma>. (Shl = AShr \<longrightarrow> n < ?w) \<longrightarrow> val \<sigma> (bvLeftShift vc t n) = sem_bin Shl ?w (val \<sigma> t) (int n))"
        using bvLeftShift_bv [OF bv_self [OF t] w(4), of n] by (auto simp: bv_def)
    next
      fix t s assume t: "ty t = BvType ?w" "ty s = BvType ?w"
      from bvVarLeftShift_bv [OF bv_self [OF t(1)] bv_self [OF t(2)] var]
      show "\<exists>res. bvVarLeftShift vc t s = Some res \<and> ty res = BvType ?w \<and>
          (\<forall>\<sigma>. (Shl = AShr \<longrightarrow> val \<sigma> s < int ?w) \<longrightarrow> val \<sigma> res = sem_bin Shl ?w (val \<sigma> t) (val \<sigma> s))"
        by (auto simp: bv_def)
    qed
  next
    case 2
    show ?thesis unfolding 2 constructBinary.simps
    proof (rule shift_builds [OF b wt [unfolded 2] ok [unfolded 2] k [unfolded 2]])
      fix t n assume t: "ty t = BvType ?w"
      have "drop_bit n (val \<sigma> t) = 0" if "\<not> n < ?w" for \<sigma>
        using that by (intro full_drop [OF val_range [OF t]]) simp
      then show "ty (bvRightShift vc t n) = BvType ?w \<and>
          (\<forall>\<sigma>. (LShr = AShr \<longrightarrow> n < ?w) \<longrightarrow> val \<sigma> (bvRightShift vc t n) = sem_bin LShr ?w (val \<sigma> t) (int n))"
        using bvRightShift_bv [OF bv_self [OF t] w(4), of n] by (auto simp: bv_def)
    next
      fix t s assume t: "ty t = BvType ?w" "ty s = BvType ?w"
      from bvVarRightShift_bv [OF bv_self [OF t(1)] bv_self [OF t(2)] var]
      show "\<exists>res. bvVarRightShift vc t s = Some res \<and> ty res = BvType ?w \<and>
          (\<forall>\<sigma>. (LShr = AShr \<longrightarrow> val \<sigma> s < int ?w) \<longrightarrow> val \<sigma> res = sem_bin LShr ?w (val \<sigma> t) (val \<sigma> s))"
        by (auto simp: bv_def)
    qed
  next
    case 3
    show ?thesis unfolding 3 constructBinary.simps
    proof (rule shift_builds [OF b wt [unfolded 3] ok [unfolded 3] k [unfolded 3]])
      fix t n assume t: "ty t = BvType ?w"
      have "?w - 1 < ?w" using w(4) by simp
      from constructAShr_bv [OF bv_self [OF t] w(4) bvBoolExtract_bool [OF bv_self [OF t] this], of n]
      show "ty (constructAShrByConstant vc t n (bvBoolExtract vc t (?w - 1))) = BvType ?w \<and>
          (\<forall>\<sigma>. (AShr = AShr \<longrightarrow> n < ?w) \<longrightarrow>
            val \<sigma> (constructAShrByConstant vc t n (bvBoolExtract vc t (?w - 1))) = sem_bin AShr ?w (val \<sigma> t) (int n))"
        by (auto simp: bv_def)
    next
      fix t s assume t: "ty t = BvType ?w" "ty s = BvType ?w"
      from bvVarArithRightShift_bv [OF bv_self [OF t(1)] bv_self [OF t(2)] var]
      show "\<exists>res. bvVarArithRightShift vc t s = Some res \<and> ty res = BvType ?w \<and>
          (\<forall>\<sigma>. (AShr = AShr \<longrightarrow> val \<sigma> s < int ?w) \<longrightarrow> val \<sigma> res = sem_bin AShr ?w (val \<sigma> t) (val \<sigma> s))"
        by (auto simp: bv_def)
    qed
  qed
qed

lemma Eq_builds:
  assumes b: "builds left l" "builds right r" and wt: "wt (BinaryExpr Eq l r)"
  shows "builds (constructEq vc l left right) (BinaryExpr Eq l r)"
proof (rule buildsI)
  fix st assume inv: "builder_inv st"
  note w = wt_binary [OF wt]
  have nk: "isCmp Eq" "\<not> isDiv Eq" by (simp_all add: isCmp_def isDiv_def)
  obtain tL st1 tR st2 where s: "left st = Some ((tL, getWidth l), st1)" "right st1 = Some ((tR, getWidth r), st2)" "builder_inv st2"
    "extends st st2" "\<And>nm. agrees nm (array_hash st2) \<Longrightarrow> term_for nm tL l" "\<And>nm. agrees nm (array_hash st2) \<Longrightarrow> term_for nm tR r"
    using builds_pair [OF b inv] by blast
  let ?t = "if getWidth l = 1 then (case asConst l of Some CE \<Rightarrow> if isTrue CE then tR else vc_notExpr vc tR | None \<Rightarrow> vc_iffExpr vc tL tR)
    else vc_eqExpr vc tL tR"
  have "term_for nm ?t (BinaryExpr Eq l r)" if ag: "agrees nm (array_hash st2)" for nm
  proof (cases "getWidth l = 1")
    case True
    have l: "ty tL = BoolType" "\<And>\<sigma>. term_safe (env_of nm \<sigma>) l \<Longrightarrow> eval (env_of nm \<sigma>) l = of_bool (tru \<sigma> tL)"
      using s(5) [OF ag] eval_bool_cases [OF w(1) True] by (auto simp: term_for_bool [OF True])
    have r1: "getWidth r = 1" using True w(3) by simp
    have r: "ty tR = BoolType" "\<And>\<sigma>. term_safe (env_of nm \<sigma>) r \<Longrightarrow> eval (env_of nm \<sigma>) r = of_bool (tru \<sigma> tR)"
      using s(6) [OF ag] eval_bool_cases [OF w(2) r1] by (auto simp: term_for_bool [OF r1])
    show ?thesis
    proof (cases "asConst l")
      case None
      then show ?thesis using True nk l r by (auto simp: term_for_bool typing meaning)
    next
      case (Some c)
      then have c: "l = ConstantExpr c" by simp
      then have okc: "apint_ok c" "getBitWidth c = 1" using w(1) True by simp_all
      show ?thesis
        using True nk r c apint_ok_isTrue [OF okc] apint_ok_bool_cases [OF okc] by (auto simp: term_for_bool typing meaning)
    qed
  next
    case False
    have "term_for nm (vc_eqExpr vc tL tR) (BinaryExpr Eq l r)"
      by (rule compare_term [OF s(5,6) [OF ag] refl w(3) False nk(1)]) (simp_all add: typing meaning)
    then show ?thesis using False by simp
  qed
  moreover have "constructEq vc l left right st = Some ((?t, getWidth (BinaryExpr Eq l r)), st2)"
    using s(1,2) w(3) nk by (cases "asConst l") (simp_all add: constructEq_def)
  ultimately show "\<exists>t st'. constructEq vc l left right st = Some ((t, getWidth (BinaryExpr Eq l r)), st') \<and> builder_inv st' \<and>
      extends st st' \<and> (\<forall>nm. agrees nm (array_hash st') \<longrightarrow> term_for nm t (BinaryExpr Eq l r))"
    using s(3,4) by blast
qed

text \<open>All binary kinds the builder handles.\<close>

lemma bool_ops:
  "ty a = BoolType \<Longrightarrow> ty b = BoolType \<Longrightarrow> ty (vc_iteExpr vc a (vc_notExpr vc b) b) = BoolType"
  "ty a = BoolType \<Longrightarrow> ty b = BoolType \<Longrightarrow> tru \<sigma> (vc_iteExpr vc a (vc_notExpr vc b) b) \<longleftrightarrow> tru \<sigma> a \<noteq> tru \<sigma> b"
  by (simp_all add: typing meaning)

lemma binary_builds:
  assumes b: "builds left l" "builds right r" and wt: "wt (BinaryExpr k l r)" and ok: "stp_binary k l r"
  shows "builds (constructBinary vc opts k l r left right) (BinaryExpr k l r)"
proof (cases "isShift k")
  case True
  then show ?thesis by (rule shifts_build [OF b wt ok])
next
  case False
  have n1: "k \<notin> {And, Or, Xor, Eq} \<Longrightarrow> getWidth l \<noteq> 1" using ok by (simp add: stp_binary_def)
  show ?thesis
  proof (cases k)
    case UDiv
    show ?thesis using UDiv_builds [OF b wt [unfolded UDiv] ok [unfolded UDiv]] by (simp add: UDiv)
  next
    case SDiv
    show ?thesis using SDiv_builds [OF b wt [unfolded SDiv] ok [unfolded SDiv]] by (simp add: SDiv)
  next
    case URem
    show ?thesis using URem_builds [OF b wt [unfolded URem] ok [unfolded URem]] by (simp add: URem)
  next
    case Mul
    show ?thesis using mul_builds [OF b wt [unfolded Mul]] n1 by (simp add: Mul)
  next
    case Eq
    show ?thesis using Eq_builds [OF b wt [unfolded Eq]] by (simp add: Eq)
  next
    case Add
    show ?thesis unfolding Add constructBinary.simps
      by (rule arith_builds [OF b wt [unfolded Add]]) (use n1 Add in \<open>simp_all add: typing meaning isCmp_def\<close>)
  next
    case Sub
    show ?thesis unfolding Sub constructBinary.simps
      by (rule arith_builds [OF b wt [unfolded Sub]]) (use n1 Sub in \<open>simp_all add: typing meaning isCmp_def\<close>)
  next
    case SRem
    show ?thesis unfolding SRem constructBinary.simps
      by (rule arith_builds [OF b wt [unfolded SRem]]) (use n1 SRem in \<open>simp_all add: typing div_ops isCmp_def isDiv_def\<close>)
  next
    case And
    show ?thesis unfolding And constructBinary.simps
      by (rule bitwise_builds [OF b wt [unfolded And]]) (simp_all add: typing meaning)
  next
    case Or
    show ?thesis unfolding Or constructBinary.simps
      by (rule bitwise_builds [OF b wt [unfolded Or]]) (simp_all add: typing meaning)
  next
    case Xor
    show ?thesis unfolding Xor constructBinary.simps
      by (rule bitwise_builds [OF b wt [unfolded Xor]]) (simp_all add: bool_ops typing(23) meaning(23))
  next
    case Ult
    show ?thesis unfolding Ult constructBinary.simps
      by (rule order_builds [OF b wt [unfolded Ult]]) (use n1 Ult in \<open>simp_all add: typing meaning isCmp_def\<close>)
  next
    case Ule
    show ?thesis unfolding Ule constructBinary.simps
      by (rule order_builds [OF b wt [unfolded Ule]]) (use n1 Ule in \<open>simp_all add: typing meaning isCmp_def\<close>)
  next
    case Slt
    show ?thesis unfolding Slt constructBinary.simps
      by (rule order_builds [OF b wt [unfolded Slt]]) (use n1 Slt in \<open>simp_all add: typing meaning isCmp_def\<close>)
  next
    case Sle
    show ?thesis unfolding Sle constructBinary.simps
      by (rule order_builds [OF b wt [unfolded Sle]]) (use n1 Sle in \<open>simp_all add: typing meaning isCmp_def\<close>)
  qed (use ok False in \<open>simp_all add: stp_binary_def isShift_def\<close>)
qed

subsection \<open>The other expressions\<close>

lemma unary_builds:
  assumes "builds m e" and "\<And>st. m' st = do { ((x, w), st) \<leftarrow> m st; Some ((f x w, g w), st) }"
    and "g (getWidth e) = getWidth e'" "\<And>nm t. term_for nm t e \<Longrightarrow> term_for nm (f t (getWidth e)) e'"
  shows "builds m' e'"
proof (rule buildsI)
  fix st assume inv: "builder_inv st"
  obtain t st' where s: "m st = Some ((t, getWidth e), st')" "builder_inv st'" "extends st st'"
    "\<And>nm. agrees nm (array_hash st') \<Longrightarrow> term_for nm t e" using buildsD [OF assms(1) inv] by blast
  then show "\<exists>t st'. m' st = Some ((t, getWidth e'), st') \<and> builder_inv st' \<and> extends st st' \<and>
      (\<forall>nm. agrees nm (array_hash st') \<longrightarrow> term_for nm t e')"
    using assms(2-4) by simp
qed

lemma extract_term_for:
  assumes "term_for nm t e" "wt (ExtractExpr e off w)" "getWidth e \<noteq> 1"
  shows "term_for nm (if w = 1 then bvBoolExtract vc t off else vc_bvExtract vc t (off + w - 1) off) (ExtractExpr e off w)"
proof -
  have b: "0 < w" "off + w \<le> getWidth e" using assms(2) by simp_all
  have t: "ty t = BvType (getWidth e)" using assms(1,3) by (simp add: term_for_bv)
  show ?thesis
  proof (cases "w = 1")
    case True
    have "take_bit 1 (drop_bit off v) = 1 \<longleftrightarrow> bit v off" for v :: int
      by (simp add: bit_iff_odd_drop_bit odd_iff_mod_2_eq_one take_bit_eq_mod)
    then show ?thesis using True assms(1,3) bvBoolExtract_bool [OF bv_self [OF t], of off] b
      by (simp add: term_for_bv term_for_bool)
  next
    case False
    then show ?thesis using assms(1,3) b extract_bv [OF bv_self [OF t], of off "off + w - 1"]
      by (simp add: term_for_bv bv_def)
  qed
qed

lemma ext_term_for:
  assumes "term_for nm t e" "wt e" "getWidth e < w"
  shows "term_for nm (if getWidth e = 1 then vc_iteExpr vc t (bvOne vc w) (bvZero vc w)
      else vc_bvConcatExpr vc (bvZero vc (w - getWidth e)) t) (ZExtExpr e w)"
    "term_for nm (if getWidth e = 1 then vc_iteExpr vc t (bvMinusOne vc w) (bvZero vc w)
      else vc_bvSignExtend vc t w) (SExtExpr e w)"
proof -
  have w: "w \<noteq> 1" "0 < w" "0 < getWidth e" using assms(3) wt_width_pos [OF assms(2)] by auto
  note cs = bvOne_bv [OF w(2)] bvZero_bv [OF w(2)] bvMinusOne_bv [OF w(2)]
  show "term_for nm (if getWidth e = 1 then vc_iteExpr vc t (bvOne vc w) (bvZero vc w)
      else vc_bvConcatExpr vc (bvZero vc (w - getWidth e)) t) (ZExtExpr e w)"
  proof (cases "getWidth e = 1")
    case True
    then show ?thesis using assms(1) eval_bool_cases [OF assms(2) True] w cs(1,2)
      by (auto simp: term_for_bv term_for_bool [OF True] bv_def typing meaning)
  next
    case False
    then have "ty t = BvType (getWidth e)" using assms(1) by (simp add: term_for_bv)
    from concat_bv [OF bvZero_bv bv_self [OF this], of "w - getWidth e"] False assms(1,3) w
    show ?thesis by (simp add: term_for_bv bv_def)
  qed
  show "term_for nm (if getWidth e = 1 then vc_iteExpr vc t (bvMinusOne vc w) (bvZero vc w)
      else vc_bvSignExtend vc t w) (SExtExpr e w)"
  proof (cases "getWidth e = 1")
    case True
    have s: "sgn_val 1 1 = - 1" "sgn_val 1 0 = 0" by (simp_all add: sgn_val_def)
    have "eval \<rho> e \<noteq> 1 \<Longrightarrow> sgn_val 1 (eval \<rho> e) = 0" for \<rho> using eval_bool_cases [OF assms(2) True] s(2) by metis
    with s show ?thesis using True assms(1) w cs(2,3)
      by (auto simp: term_for_bv term_for_bool [OF True] bv_def typing meaning)
  next
    case False
    then have "ty t = BvType (getWidth e)" using assms(1) by (simp add: term_for_bv)
    from sext_bv [OF bv_self [OF this] w(3), of w] False assms(1,3) w
    show ?thesis by (simp add: term_for_bv bv_def)
  qed
qed

lemma not_term_for:
  assumes "term_for nm t e" "wt e"
  shows "term_for nm (if getWidth e = 1 then vc_notExpr vc t else vc_bvNotExpr vc t) (NotExpr e)"
proof (cases "getWidth e = 1")
  case True
  have n: "take_bit 1 (NOT 0) = (1 :: int)" "take_bit 1 (NOT 1) = (0 :: int)" by (simp_all add: One_nat_def)
  have "take_bit 1 (NOT (eval \<rho> e)) = 1 \<longleftrightarrow> eval \<rho> e \<noteq> 1" for \<rho>
    using eval_bool_cases [OF assms(2) True, of \<rho>] n by auto
  then show ?thesis using True assms(1) by (simp add: term_for_bool typing meaning)
next
  case False
  then show ?thesis using assms(1) by (simp add: term_for_bv typing meaning)
qed

lemma select_term_for:
  assumes "term_for nm c' c" "term_for nm t' t" "term_for nm f' f" "wt (SelectExpr c t f)"
  shows "term_for nm (vc_iteExpr vc c' t' f') (SelectExpr c t f)"
proof -
  have w: "getWidth c = 1" "getWidth f = getWidth t" using assms(4) by simp_all
  show ?thesis
  proof (cases "getWidth t = 1")
    case True
    then show ?thesis using assms(1-3) w by (simp add: term_for_bool typing meaning)
  next
    case False
    then show ?thesis using assms(1-3) w by (simp add: term_for_bool term_for_bv typing meaning)
  qed
qed

subsection \<open>Every accepted expression\<close>

definition buildsU :: "('t stp_builder \<Rightarrow> ('t \<times> 't stp_builder) option) \<Rightarrow> array \<Rightarrow> updates \<Rightarrow> bool" where
  "buildsU m a us \<longleftrightarrow> (\<forall>st. builder_inv st \<longrightarrow> (\<exists>t st'. m st = Some (t, st') \<and> builder_inv st' \<and>
     extends st st' \<and> (\<forall>nm. agrees nm (array_hash st') \<longrightarrow> array_for nm t a us)))"

lemma buildsUD:
  assumes "buildsU m a us" "builder_inv st"
  obtains t st' where "m st = Some (t, st')" "builder_inv st'" "extends st st'"
    "\<And>nm. agrees nm (array_hash st') \<Longrightarrow> array_for nm t a us"
  using assms unfolding buildsU_def by blast

lemma read_term_for:
  assumes "array_for nm t a us" "term_for nm i' i" "wt (ReadExpr a us i)" "stp_array a"
  shows "term_for nm (vc_readExpr vc t i') (ReadExpr a us i)"
proof -
  have w: "getWidth i = arr_domain a" "arr_domain a \<noteq> 1" "arr_range a \<noteq> 1" "wt i" using assms(3,4) by (simp_all add: stp_array_def)
  have i: "ty i' = BvType (arr_domain a)" "\<And>\<sigma>. term_safe (env_of nm \<sigma>) i \<Longrightarrow> val \<sigma> i' = eval (env_of nm \<sigma>) i"
    using assms(2) w by (simp_all add: term_for_bv)
  have t: "ty t = ArrayType (arr_domain a) (arr_range a)" using assms(1) by (simp add: array_for_def)
  have "0 \<le> eval \<rho> i" "eval \<rho> i < 2 ^ arr_domain a" for \<rho> using eval_range [OF w(4)] w(1) by simp_all
  then show ?thesis using assms(1) i read_term [OF t i(1)] w by (auto simp: term_for_bv array_for_def)
qed

lemma write_array_for:
  assumes "array_for nm t a n" "term_for nm i' i" "term_for nm v' v" "wtU a (UpdateNode i v n)" "stp_array a"
  shows "array_for nm (vc_writeExpr vc t i' v') a (UpdateNode i v n)"
proof -
  have w: "getWidth i = arr_domain a" "getWidth v = arr_range a" "arr_domain a \<noteq> 1" "arr_range a \<noteq> 1"
    using assms(4,5) by (simp_all add: stp_array_def)
  have i: "ty i' = BvType (arr_domain a)" "\<And>\<sigma>. term_safe (env_of nm \<sigma>) i \<Longrightarrow> val \<sigma> i' = eval (env_of nm \<sigma>) i"
    using assms(2) w by (simp_all add: term_for_bv)
  have v: "ty v' = BvType (arr_range a)" "\<And>\<sigma>. term_safe (env_of nm \<sigma>) v \<Longrightarrow> val \<sigma> v' = eval (env_of nm \<sigma>) v"
    using assms(3) w by (simp_all add: term_for_bv)
  have t: "ty t = ArrayType (arr_domain a) (arr_range a)" using assms(1) by (simp add: array_for_def)
  show ?thesis using assms(1) i v write_term [OF t i(1) v(1)] by (auto simp: array_for_def)
qed

lemma update_hash_inv:
  assumes "builder_inv st" "\<And>nm. agrees nm (array_hash st) \<Longrightarrow> array_for nm t a us"
  shows "builder_inv (st\<lparr>update_node_hash := (update_node_hash st)((a, us) \<mapsto> t)\<rparr>)"
  using assms unfolding builder_inv_def by auto

lemma construct_main:
  "wt e \<Longrightarrow> stp_ok e \<Longrightarrow> builds (construct vc opts e) e"
  "wtU a us \<Longrightarrow> array_ok a \<Longrightarrow> stp_array a \<Longrightarrow> stp_okU us \<Longrightarrow> buildsU (getArrayForUpdate vc opts a us) a us"
proof (induction e and us arbitrary: and a)
  case (ConstantExpr c)
  then show ?case by (intro constant_builds) simp
next
  case (NotOptimizedExpr e)
  have "term_for nm t e \<Longrightarrow> term_for nm t (NotOptimizedExpr e)" for nm t by (simp add: term_for_def)
  with NotOptimizedExpr show ?case
    by (intro construct_builds) (auto simp: builds_def constructActual.simps)
next
  case (ReadExpr a us i)
  show ?case
  proof (intro construct_builds buildsI)
    fix st assume inv: "builder_inv st"
    have ok: "wtU a us" "array_ok a" "stp_array a" "stp_okU us" "wt i" "stp_ok i" using ReadExpr.prems by simp_all
    obtain t st1 where 1: "getArrayForUpdate vc opts a us st = Some (t, st1)" "builder_inv st1" "extends st st1"
      "\<And>nm. agrees nm (array_hash st1) \<Longrightarrow> array_for nm t a us" using buildsUD [OF ReadExpr.IH(1) [OF ok(1-4)] inv] by blast
    obtain i' st2 where 2: "construct vc opts i st1 = Some ((i', getWidth i), st2)" "builder_inv st2" "extends st1 st2"
      "\<And>nm. agrees nm (array_hash st2) \<Longrightarrow> term_for nm i' i" using buildsD [OF ReadExpr.IH(2) [OF ok(5,6)] 1(2)] by blast
    have "term_for nm (vc_readExpr vc t i') (ReadExpr a us i)" if "agrees nm (array_hash st2)" for nm
      using read_term_for [OF 1(4) 2(4) ReadExpr.prems(1) ok(3)] that agrees_extends [OF that 2(3)] by blast
    then show "\<exists>t st'. constructActual vc opts (ReadExpr a us i) st = Some ((t, getWidth (ReadExpr a us i)), st') \<and> builder_inv st' \<and>
        extends st st' \<and> (\<forall>nm. agrees nm (array_hash st') \<longrightarrow> term_for nm t (ReadExpr a us i))"
      using 1(1) 2(1,2) extends_trans [OF 1(3) 2(3)] by (simp add: constructActual.simps)
  qed
next
  case (SelectExpr c t f)
  show ?case
  proof (intro construct_builds buildsI)
    fix st assume inv: "builder_inv st"
    have ok: "wt c" "stp_ok c" "wt t" "stp_ok t" "wt f" "stp_ok f" "getWidth f = getWidth t" using SelectExpr.prems by simp_all
    obtain c' st1 t' st2 where 1: "construct vc opts c st = Some ((c', getWidth c), st1)"
      "construct vc opts t st1 = Some ((t', getWidth t), st2)" "builder_inv st2" "extends st st2"
      "\<And>nm. agrees nm (array_hash st2) \<Longrightarrow> term_for nm c' c" "\<And>nm. agrees nm (array_hash st2) \<Longrightarrow> term_for nm t' t"
      using builds_pair [OF SelectExpr.IH(1) [OF ok(1,2)] SelectExpr.IH(2) [OF ok(3,4)] inv] by blast
    obtain f' st3 where 2: "construct vc opts f st2 = Some ((f', getWidth f), st3)" "builder_inv st3" "extends st2 st3"
      "\<And>nm. agrees nm (array_hash st3) \<Longrightarrow> term_for nm f' f" using buildsD [OF SelectExpr.IH(3) [OF ok(5,6)] 1(3)] by blast
    have "term_for nm (vc_iteExpr vc c' t' f') (SelectExpr c t f)" if "agrees nm (array_hash st3)" for nm
      using select_term_for [OF 1(5,6) 2(4) SelectExpr.prems(1)] that agrees_extends [OF that 2(3)] by blast
    then show "\<exists>t' st'. constructActual vc opts (SelectExpr c t f) st = Some ((t', getWidth (SelectExpr c t f)), st') \<and> builder_inv st' \<and>
        extends st st' \<and> (\<forall>nm. agrees nm (array_hash st') \<longrightarrow> term_for nm t' (SelectExpr c t f))"
      using 1(1,2) 2(1,2) extends_trans [OF 1(4) 2(3)] ok(7) by (simp add: constructActual.simps)
  qed
next
  case (ConcatExpr l r)
  show ?case
  proof (intro construct_builds buildsI)
    fix st assume inv: "builder_inv st"
    have ok: "wt r" "stp_ok r" "wt l" "stp_ok l" "getWidth l \<noteq> 1" "getWidth r \<noteq> 1" using ConcatExpr.prems by simp_all
    obtain r' st1 l' st2 where 1: "construct vc opts r st = Some ((r', getWidth r), st1)"
      "construct vc opts l st1 = Some ((l', getWidth l), st2)" "builder_inv st2" "extends st st2"
      "\<And>nm. agrees nm (array_hash st2) \<Longrightarrow> term_for nm r' r" "\<And>nm. agrees nm (array_hash st2) \<Longrightarrow> term_for nm l' l"
      using builds_pair [OF ConcatExpr.IH(2) [OF ok(1,2)] ConcatExpr.IH(1) [OF ok(3,4)] inv] by blast
    have "0 < getWidth l" "0 < getWidth r" using wt_width_pos ok(1,3) by blast+
    then have "term_for nm (vc_bvConcatExpr vc l' r') (ConcatExpr l r)" if "agrees nm (array_hash st2)" for nm
      using 1(5,6) [OF that] ok(5,6) by (simp add: term_for_bv typing meaning)
    then show "\<exists>t st'. constructActual vc opts (ConcatExpr l r) st = Some ((t, getWidth (ConcatExpr l r)), st') \<and> builder_inv st' \<and>
        extends st st' \<and> (\<forall>nm. agrees nm (array_hash st') \<longrightarrow> term_for nm t (ConcatExpr l r))"
      using 1(1-4) by (simp add: constructActual.simps)
  qed
next
  case (ExtractExpr e off w)
  then have ok: "wt e" "stp_ok e" "getWidth e \<noteq> 1" by simp_all
  show ?case
    by (rule construct_builds, rule unary_builds [OF ExtractExpr.IH [OF ok(1,2)],
        where f = "\<lambda>src _. if w = 1 then bvBoolExtract vc src off else vc_bvExtract vc src (off + w - 1) off" and g = "\<lambda>_. w"])
      (use extract_term_for [OF _ ExtractExpr.prems(1) ok(3)] in \<open>simp_all add: constructActual.simps\<close>)
next
  case (NotExpr e)
  then have ok: "wt e" "stp_ok e" by simp_all
  show ?case
    by (rule construct_builds, rule unary_builds [OF NotExpr.IH [OF ok],
        where f = "\<lambda>x w. if w = 1 then vc_notExpr vc x else vc_bvNotExpr vc x" and g = "\<lambda>w. w"])
      (use not_term_for [OF _ ok(1)] in \<open>simp_all add: constructActual.simps\<close>)
next
  case (ZExtExpr e w)
  then have ok: "wt e" "stp_ok e" "getWidth e < w" by simp_all
  show ?case
    by (rule construct_builds, rule unary_builds [OF ZExtExpr.IH [OF ok(1,2)],
        where f = "\<lambda>x srcWidth. if srcWidth = 1 then vc_iteExpr vc x (bvOne vc w) (bvZero vc w)
            else vc_bvConcatExpr vc (bvZero vc (w - srcWidth)) x" and g = "\<lambda>_. w"])
      (use ext_term_for(1) [OF _ ok(1,3)] in \<open>simp_all add: constructActual.simps\<close>)
next
  case (SExtExpr e w)
  then have ok: "wt e" "stp_ok e" "getWidth e < w" by simp_all
  show ?case
    by (rule construct_builds, rule unary_builds [OF SExtExpr.IH [OF ok(1,2)],
        where f = "\<lambda>x srcWidth. if srcWidth = 1 then vc_iteExpr vc x (bvMinusOne vc w) (bvZero vc w)
            else vc_bvSignExtend vc x w" and g = "\<lambda>_. w"])
      (use ext_term_for(2) [OF _ ok(1,3)] in \<open>simp_all add: constructActual.simps\<close>)
next
  case (BinaryExpr k l r)
  then have ok: "wt l" "stp_ok l" "wt r" "stp_ok r" "stp_binary k l r" by simp_all
  show ?case
    using binary_builds [OF BinaryExpr.IH(1) [OF ok(1,2)] BinaryExpr.IH(2) [OF ok(3,4)] BinaryExpr.prems(1) ok(5)]
    by (intro construct_builds) (simp add: constructActual.simps)
next
  case NullNode
  show ?case unfolding buildsU_def
  proof (intro allI impI)
    fix st assume inv: "builder_inv st"
    obtain t st' where "getInitialArray vc a st = (t, st')" "builder_inv st'" "extends st st'"
      "\<And>nm. agrees nm (array_hash st') \<Longrightarrow> array_for nm t a NullNode"
      using getInitialArray_builds [OF inv NullNode(2,3)] by blast
    then show "\<exists>t st'. getArrayForUpdate vc opts a NullNode st = Some (t, st') \<and> builder_inv st' \<and>
        extends st st' \<and> (\<forall>nm. agrees nm (array_hash st') \<longrightarrow> array_for nm t a NullNode)" by simp
  qed
next
  case (UpdateNode i v n)
  show ?case unfolding buildsU_def
  proof (intro allI impI)
    fix st assume inv: "builder_inv st"
    have ok: "wtU a n" "stp_okU n" "wt i" "stp_ok i" "wt v" "stp_ok v" using UpdateNode.prems by simp_all
    show "\<exists>t st'. getArrayForUpdate vc opts a (UpdateNode i v n) st = Some (t, st') \<and> builder_inv st' \<and>
        extends st st' \<and> (\<forall>nm. agrees nm (array_hash st') \<longrightarrow> array_for nm t a (UpdateNode i v n))"
    proof (cases "update_node_hash st (a, UpdateNode i v n)")
      case (Some t)
      then have "array_for nm t a (UpdateNode i v n)" if "agrees nm (array_hash st)" for nm
        using inv that unfolding builder_inv_def by blast
      then show ?thesis using Some inv extends_refl by auto
    next
      case None
      obtain t st1 where 1: "getArrayForUpdate vc opts a n st = Some (t, st1)" "builder_inv st1" "extends st st1"
        "\<And>nm. agrees nm (array_hash st1) \<Longrightarrow> array_for nm t a n"
        using buildsUD [OF UpdateNode.IH(3) [OF ok(1) UpdateNode.prems(2,3) ok(2)] inv] by blast
      obtain i' st2 v' st3 where 2: "construct vc opts i st1 = Some ((i', getWidth i), st2)"
        "construct vc opts v st2 = Some ((v', getWidth v), st3)" "builder_inv st3" "extends st1 st3"
        "\<And>nm. agrees nm (array_hash st3) \<Longrightarrow> term_for nm i' i" "\<And>nm. agrees nm (array_hash st3) \<Longrightarrow> term_for nm v' v"
        using builds_pair [OF UpdateNode.IH(1) [OF ok(3,4)] UpdateNode.IH(2) [OF ok(5,6)] 1(2)] by blast
      let ?t = "vc_writeExpr vc t i' v'"
      let ?st = "st3\<lparr>update_node_hash := (update_node_hash st3)((a, UpdateNode i v n) \<mapsto> ?t)\<rparr>"
      have a: "array_for nm ?t a (UpdateNode i v n)" if "agrees nm (array_hash st3)" for nm
        using write_array_for [OF 1(4) 2(5,6) UpdateNode.prems(1,3)] that agrees_extends [OF that 2(4)] by blast
      have "extends st ?st" using extends_trans [OF 1(3) 2(4)] by (simp add: extends_def)
      moreover have "getArrayForUpdate vc opts a (UpdateNode i v n) st = Some (?t, ?st)"
        using None 1(1) 2(1,2) by (simp add: Let_def)
      ultimately show ?thesis using update_hash_inv [OF 2(3) a] a by auto
    qed
  qed
qed

lemma new_builder_inv: "builder_inv new_builder"
  by (simp add: builder_inv_def new_builder_def agrees_def)

lemma build_builds:
  assumes "wt e" "stp_ok e" "builder_inv st"
  obtains t st' where "build vc opts e st = Some (t, st')" "builder_inv st'" "extends st st'"
    "\<And>nm. agrees nm (array_hash st') \<Longrightarrow> term_for nm t e"
proof -
  obtain t st' where c: "construct vc opts e st = Some ((t, getWidth e), st')" "builder_inv st'" "extends st st'"
    "\<And>nm. agrees nm (array_hash st') \<Longrightarrow> term_for nm t e"
    using buildsD [OF construct_main(1) [OF assms(1,2)] assms(3)] by blast
  let ?st = "st'\<lparr>constructed := Map.empty\<rparr>"
  have "builder_inv ?st" using c(2) by (simp add: builder_inv_def)
  moreover have "extends st ?st" using c(3) by (simp add: extends_def)
  ultimately show thesis using that [of t ?st] c(1,4) by (simp add: build_def)
qed

lemma initial_read_inv: "builder_inv st \<Longrightarrow> array_ok a \<Longrightarrow> stp_array a \<Longrightarrow> builder_inv (snd (getInitialRead vc a i st))"
proof -
  assume a: "builder_inv st" "array_ok a" "stp_array a"
  obtain t st' where "getInitialArray vc a st = (t, st')" "builder_inv st'"
    using getInitialArray_builds [OF a] by blast
  then show ?thesis by (simp add: getInitialRead_def)
qed

end

subsection \<open>The states of a builder\<close>

text \<open>The public operations of the builder, from a new builder on.\<close>

inductive builder_reach :: "'t stp_ops \<Rightarrow> stp_options \<Rightarrow> 't stp_builder \<Rightarrow> bool" for vc opts where
  reach_new: "builder_reach vc opts new_builder"
| reach_build: "builder_reach vc opts st \<Longrightarrow> wt e \<Longrightarrow> stp_ok e \<Longrightarrow> build vc opts e st = Some (t, st') \<Longrightarrow> builder_reach vc opts st'"
| reach_read: "builder_reach vc opts st \<Longrightarrow> array_ok a \<Longrightarrow> stp_array a \<Longrightarrow> getInitialRead vc a i st = (t, st') \<Longrightarrow> builder_reach vc opts st'"

context stp_interface
begin

lemma reach_inv: "builder_reach vc opts st \<Longrightarrow> builder_inv st"
proof (induction rule: builder_reach.induct)
  case (reach_build st e t st')
  obtain t0 st0 where "build vc opts e st = Some (t0, st0)" "builder_inv st0"
    using build_builds [OF reach_build.hyps(2,3) reach_build.IH] by metis
  with reach_build.hyps(4) show ?case by simp
next
  case (reach_read st a i t st')
  then show ?case using initial_read_inv [OF reach_read.IH reach_read.hyps(2,3), of i] by simp
qed (rule new_builder_inv)

lemma built_term:
  assumes "builder_reach vc opts st" "wt e" "stp_ok e"
  shows "\<exists>t st'. build vc opts e st = Some (t, st') \<and> builder_reach vc opts st' \<and>
    term_for (array_name (array_hash st')) t e"
proof -
  obtain t st' where b: "build vc opts e st = Some (t, st')" "builder_inv st'"
    "\<And>nm. agrees nm (array_hash st') \<Longrightarrow> term_for nm t e"
    using build_builds [OF assms(2,3) reach_inv [OF assms(1)]] by metis
  have "agrees (array_name (array_hash st')) (array_hash st')" using b(2) by (simp add: builder_inv_def)
  with b builder_reach.reach_build [OF assms b(1)] show ?thesis by blast
qed

end

subsection \<open>An implementation of the interface\<close>

text \<open>Terms as their type and their meaning: the laws of the interface are consistent.\<close>

datatype sem_term =
    SemBool "stp_model \<Rightarrow> bool"
  | SemBv width "stp_model \<Rightarrow> int"
  | SemArray width width "stp_model \<Rightarrow> int \<Rightarrow> int"

fun sem_ty :: "sem_term \<Rightarrow> vc_type" where
  "sem_ty (SemBool f) = BoolType"
| "sem_ty (SemBv w f) = BvType w"
| "sem_ty (SemArray iw vw f) = ArrayType iw vw"

fun sem_tru :: "stp_model \<Rightarrow> sem_term \<Rightarrow> bool" where
  "sem_tru \<sigma> (SemBool f) = f \<sigma>"
| "sem_tru \<sigma> _ = False"

fun sem_val :: "stp_model \<Rightarrow> sem_term \<Rightarrow> int" where
  "sem_val \<sigma> (SemBv w f) = take_bit w (f \<sigma>)"
| "sem_val \<sigma> _ = 0"

fun sem_cont :: "stp_model \<Rightarrow> sem_term \<Rightarrow> int \<Rightarrow> int" where
  "sem_cont \<sigma> (SemArray iw vw f) x = take_bit vw (f \<sigma> x)"
| "sem_cont \<sigma> _ x = 0"

fun sem_len :: "sem_term \<Rightarrow> width" where
  "sem_len (SemBv w f) = w"
| "sem_len _ = 0"

definition sem_bv2 :: "(width \<Rightarrow> int \<Rightarrow> int \<Rightarrow> int) \<Rightarrow> sem_term \<Rightarrow> sem_term \<Rightarrow> sem_term" where
  "sem_bv2 f a b = SemBv (sem_len a) (\<lambda>\<sigma>. f (sem_len a) (sem_val \<sigma> a) (sem_val \<sigma> b))"

definition sem_rel :: "(width \<Rightarrow> int \<Rightarrow> int \<Rightarrow> bool) \<Rightarrow> sem_term \<Rightarrow> sem_term \<Rightarrow> sem_term" where
  "sem_rel f a b = SemBool (\<lambda>\<sigma>. f (sem_len a) (sem_val \<sigma> a) (sem_val \<sigma> b))"

definition sem_var :: "string \<Rightarrow> vc_type \<Rightarrow> sem_term" where
  "sem_var name t = (case t of ArrayType iw vw \<Rightarrow> SemArray iw vw (\<lambda>\<sigma>. \<sigma> name) | _ \<Rightarrow> SemBool (\<lambda>\<sigma>. True))"

definition sem_ite :: "sem_term \<Rightarrow> sem_term \<Rightarrow> sem_term \<Rightarrow> sem_term" where
  "sem_ite c a b = (case a of
     SemBool f \<Rightarrow> SemBool (\<lambda>\<sigma>. if sem_tru \<sigma> c then sem_tru \<sigma> a else sem_tru \<sigma> b)
   | _ \<Rightarrow> SemBv (sem_len a) (\<lambda>\<sigma>. if sem_tru \<sigma> c then sem_val \<sigma> a else sem_val \<sigma> b))"

definition sem_read :: "sem_term \<Rightarrow> sem_term \<Rightarrow> sem_term" where
  "sem_read a i = (case a of SemArray iw vw f \<Rightarrow> SemBv vw (\<lambda>\<sigma>. sem_cont \<sigma> a (sem_val \<sigma> i)) | _ \<Rightarrow> a)"

definition sem_write :: "sem_term \<Rightarrow> sem_term \<Rightarrow> sem_term \<Rightarrow> sem_term" where
  "sem_write a i v = (case a of SemArray iw vw f \<Rightarrow> SemArray iw vw (\<lambda>\<sigma>. (sem_cont \<sigma> a)(sem_val \<sigma> i := sem_val \<sigma> v)) | _ \<Rightarrow> a)"

definition sem_ops :: "sem_term stp_ops" where
  "sem_ops = \<lparr>vc_trueExpr = SemBool (\<lambda>\<sigma>. True), vc_falseExpr = SemBool (\<lambda>\<sigma>. False), vc_varExpr = sem_var,
     vc_getBVLength = sem_len, vc_bvConstExprFromInt = \<lambda>w v. SemBv w (\<lambda>\<sigma>. v), vc_bvConstExprFromLL = \<lambda>w v. SemBv w (\<lambda>\<sigma>. v),
     vc_eqExpr = sem_rel (\<lambda>w. (=)), vc_iffExpr = \<lambda>a b. SemBool (\<lambda>\<sigma>. sem_tru \<sigma> a = sem_tru \<sigma> b),
     vc_notExpr = \<lambda>a. SemBool (\<lambda>\<sigma>. \<not> sem_tru \<sigma> a), vc_andExpr = \<lambda>a b. SemBool (\<lambda>\<sigma>. sem_tru \<sigma> a \<and> sem_tru \<sigma> b),
     vc_orExpr = \<lambda>a b. SemBool (\<lambda>\<sigma>. sem_tru \<sigma> a \<or> sem_tru \<sigma> b), vc_iteExpr = sem_ite,
     vc_bvConcatExpr = \<lambda>a b. SemBv (sem_len a + sem_len b) (\<lambda>\<sigma>. push_bit (sem_len b) (sem_val \<sigma> a) + sem_val \<sigma> b),
     vc_bvExtract = \<lambda>a hi lo. SemBv (hi - lo + 1) (\<lambda>\<sigma>. drop_bit lo (sem_val \<sigma> a)),
     vc_bvSignExtend = \<lambda>a w. SemBv w (\<lambda>\<sigma>. sgn_val (sem_len a) (sem_val \<sigma> a)),
     vc_bvPlusExpr = \<lambda>w. sem_bv2 (\<lambda>w a b. a + b), vc_bvMinusExpr = \<lambda>w. sem_bv2 (\<lambda>w a b. a - b),
     vc_bvMultExpr = \<lambda>w. sem_bv2 (\<lambda>w a b. a * b), vc_bvDivExpr = \<lambda>w. sem_bv2 (\<lambda>w a b. a div b),
     vc_bvModExpr = \<lambda>w. sem_bv2 (\<lambda>w a b. a mod b), vc_sbvDivExpr = \<lambda>w. sem_bv2 (\<lambda>w a b. sgn_val w a sdiv sgn_val w b),
     vc_sbvRemExpr = \<lambda>w. sem_bv2 (\<lambda>w a b. sgn_val w a smod sgn_val w b),
     vc_bvUMinusExpr = \<lambda>a. SemBv (sem_len a) (\<lambda>\<sigma>. - sem_val \<sigma> a), vc_bvNotExpr = \<lambda>a. SemBv (sem_len a) (\<lambda>\<sigma>. NOT (sem_val \<sigma> a)),
     vc_bvAndExpr = sem_bv2 (\<lambda>w a b. a AND b), vc_bvOrExpr = sem_bv2 (\<lambda>w a b. a OR b), vc_bvXorExpr = sem_bv2 (\<lambda>w a b. a XOR b),
     vc_bvLtExpr = sem_rel (\<lambda>w a b. a < b), vc_bvLeExpr = sem_rel (\<lambda>w a b. a \<le> b),
     vc_sbvLtExpr = sem_rel (\<lambda>w a b. sgn_val w a < sgn_val w b), vc_sbvLeExpr = sem_rel (\<lambda>w a b. sgn_val w a \<le> sgn_val w b),
     vc_readExpr = sem_read, vc_writeExpr = sem_write\<rparr>"

lemma sem_ty_cases:
  "sem_ty t = BoolType \<longleftrightarrow> (\<exists>f. t = SemBool f)" "sem_ty t = BvType w \<longleftrightarrow> (\<exists>f. t = SemBv w f)"
  "sem_ty t = ArrayType iw vw \<longleftrightarrow> (\<exists>f. t = SemArray iw vw f)"
  by (cases t; auto)+

lemma sem_ops_interface: "stp_interface sem_ops sem_ty sem_tru sem_val sem_cont"
proof
  fix t :: sem_term and w \<sigma> assume "sem_ty t = BvType w" then show "take_bit w (sem_val \<sigma> t) = sem_val \<sigma> t"
    by (auto simp: sem_ty_cases)
qed (auto simp: sem_ops_def sem_ty_cases sem_rel_def sem_bv2_def sem_var_def sem_ite_def sem_read_def sem_write_def
    intro!: concat_range quotient_range intro: take_bit_id)

interpretation sem: stp_interface sem_ops sem_ty sem_tru sem_val sem_cont
  by (rule sem_ops_interface)

subsection \<open>Properties\<close>

text \<open>
  C38: The terms of the STP builder: in every state that the public operations of the builder lead to, a well-typed expression
  that meets the builder's assertions is built into a term of the right type, no assertion fails, and in every model of
  STP the term has the value of the expression in the environment the model stands for (divisors that are not zero,
  arithmetic right shifts below the width). The multiplications, shifts and divisions by constants, the chains of cases of
  the variable shifts and both caches are part of this.
\<close>

theorem stp_construct_correct:
  assumes "stp_interface vc ty tru val cont" "builder_reach vc opts st" "wt e" "stp_ok e"
  shows "\<exists>t st'. build vc opts e st = Some (t, st') \<and> builder_reach vc opts st' \<and>
    ty t = (if getWidth e = 1 then BoolType else BvType (getWidth e)) \<and>
    (\<forall>\<sigma> \<rho>. \<rho> = env_of (array_name (array_hash st')) \<sigma> \<and> term_safe \<rho> e \<longrightarrow>
      (if getWidth e = 1 then tru \<sigma> t \<longleftrightarrow> eval \<rho> e = 1 else val \<sigma> t = eval \<rho> e))"
  using stp_interface.built_term [OF assms]
  by (simp add: stp_interface.term_for_def [OF assms(1)] stp_interface.typed_def [OF assms(1)]
      stp_interface.denotes_def [OF assms(1)])

definition sample_word :: array where
  "sample_word = \<lparr>arr_addr = 1, arr_name = ''x'', arr_size = 1, arr_domain = 32, arr_range = 32, constantValues = []\<rparr>"

definition sample_quotient :: expr where
  "sample_quotient = BinaryExpr SDiv (ReadExpr sample_word NullNode (ConstantExpr (APInt 32 0))) (ConstantExpr (APInt 32 7))"

theorem stp_construct_correct_witness:
  "\<exists>t st'. build sem_ops \<lparr>optimizeDivides = True, UseConstructHash = True\<rparr> sample_quotient new_builder = Some (t, st') \<and>
    sem_ty t = BvType 32 \<and> (\<forall>\<sigma>. sem_val \<sigma> t = eval (env_of (array_name (array_hash st')) \<sigma>) sample_quotient)"
proof -
  have e: "wt sample_quotient" "stp_ok sample_quotient" "getWidth sample_quotient = 32" "\<And>\<rho>. term_safe \<rho> sample_quotient"
    by (simp_all add: sample_quotient_def sample_word_def array_ok_def stp_array_def isSymbolicArray_def isConstantArray_def
        apint_ok_def stp_binary_def isShift_def isDiv_def isCmp_def take_bit_eq_mod)
  from stp_construct_correct [OF sem_ops_interface reach_new e(1,2)] show ?thesis using e(3,4) by fastforce
qed

text \<open>New arrays are numbered in the order in which the builder meets them.\<close>

lemma hash_fresh:
  "map_of (array_hash st) x = None \<Longrightarrow> array_hash (snd (getInitialArray vc x st)) =
    (x, initialArray vc x (unique_name (arr_name x) (length (array_hash st)))) # array_hash st"
  by (simp add: getInitialArray_def Let_def)

lemma fold_hash:
  "distinct xs \<Longrightarrow> \<forall>x\<in>set xs. map_of (array_hash st) x = None \<Longrightarrow>
    map_of (array_hash (fold (\<lambda>x st. snd (getInitialArray vc x st)) xs st)) y =
      (if y \<in> set xs
       then Some (initialArray vc y (unique_name (arr_name y) (length (array_hash st) + length (takeWhile (\<lambda>x. x \<noteq> y) xs))))
       else map_of (array_hash st) y)"
proof (induction xs arbitrary: st)
  case (Cons x xs)
  have "map_of (array_hash st) x = None" using Cons.prems by simp
  note h = hash_fresh [OF this, of vc]
  have "\<forall>z\<in>set xs. map_of (array_hash (snd (getInitialArray vc x st))) z = None"
    using Cons.prems unfolding h by auto
  with Cons.IH [of "snd (getInitialArray vc x st)"] Cons.prems(1) show ?case by (auto simp: h)
qed simp

text \<open>
  C39: Two arrays may share a name: the builder makes names unique by appending the number of arrays seen so far, and the
  results coincide for an array \<open>a1\<close> seen first and an array \<open>a\<close> seen eleventh. Both are then the same array for STP,
  which takes arrays for equal by name, so that the query constrains their contents to be equal.
\<close>

theorem stp_names_collide:
  "let arr = (\<lambda>addr name. \<lparr>arr_addr = addr, arr_name = name, arr_size = 4, arr_domain = 32, arr_range = 8, constantValues = []\<rparr>);
       a = arr 0 ''a1''; b = arr 10 ''a'';
       st = fold (\<lambda>x st. snd (getInitialArray vc x st)) (a # map (\<lambda>i. arr i ''b'') [1..<10] @ [b]) new_builder
   in a \<noteq> b \<and> map_of (array_hash st) a = Some (vc_varExpr vc ''a10'' (ArrayType 32 8)) \<and>
     map_of (array_hash st) b = Some (vc_varExpr vc ''a10'' (ArrayType 32 8))"
proof -
  define arr where "arr = (\<lambda>addr name. \<lparr>arr_addr = addr, arr_name = name, arr_size = 4, arr_domain = 32, arr_range = 8,
    constantValues = []\<rparr> :: array)"
  let ?xs = "arr 0 ''a1'' # map (\<lambda>i. arr i ''b'') [1..<10] @ [arr 10 ''a'']"
  have "map arr_addr ?xs = 0 # [1..<10] @ [10]" by (simp add: arr_def comp_def)
  moreover have "distinct (0 # [1..<10] @ [10 :: nat])" by simp
  ultimately have "distinct ?xs" by (metis distinct_map)
  note f = fold_hash [OF this, of new_builder vc, unfolded new_builder_def, simplified]
  have ab: "arr 0 ''a1'' \<noteq> arr 10 ''a''" "\<And>i. i < 10 \<Longrightarrow> arr i n \<noteq> arr 10 ''a''" for n by (simp_all add: arr_def)
  have "takeWhile (\<lambda>x. x \<noteq> arr 10 ''a'') ?xs = arr 0 ''a1'' # map (\<lambda>i. arr i ''b'') [1..<10]"
    using ab by (auto simp: takeWhile_append)
  moreover have u: "unique_name ''a1'' 0 = ''a10''" "unique_name ''a'' 10 = ''a10''" by code_simp+
  moreover have "initialArray vc (arr k n) m = vc_varExpr vc m (ArrayType 32 8)" "arr_name (arr k n) = n" for k n m
    by (simp_all add: arr_def initialArray_def isConstantArray_def isSymbolicArray_def buildArray_def)
  ultimately show ?thesis
    unfolding Let_def arr_def [symmetric] new_builder_def by (simp add: f ab)
qed


end
