(* ===== verification/Spec2Isabelle.thy ===== *)
theory Spec2Isabelle
  imports Constraints ImmutableIter SolverChain ObjectState STPSound
begin

text \<open>
  A verification library for KLEE, the symbolic execution engine of this repository (\<open>src/klee\<close>). KLEE runs a
  program on symbolic input: values are expressions over arrays of input bytes, memory objects hold bytes that may be
  such expressions, a path is a list of constraints, and a chain of solvers decides what holds on a path. The
  development models that core: the expression language and everything that rewrites it, memory objects, and the chain
  of solvers down to the interface of the core solver.

  How the parts interact. The interpreter builds expressions with the simplifying constructors, keeps path conditions
  in a constraint manager, reads and writes memory objects through expressions, and asks queries (constraints and an
  expression) of the solver front end. The front end asks the chain: independent solver over branch cache over
  counterexample cache over core solver. The caches store expressions under structural equality and order, the
  counterexample cache indexes sets of constraints with a set-trie, and evaluates assignments with the expression
  evaluator. Address spaces and states use the immutable balanced tree.

  Expressions.
  \<^item> \<open>Prelude\<close>: widths, truncation, the named collections of simplification rules.
  \<^item> \<open>ConstantExprs\<close> (\<open>Expr.h\<close>, \<open>Expr.cpp\<close>: class \<open>ConstantExpr\<close>): constants are a width and a value (\<open>apint\<close>), with one
    function \<open>CE_X\<close> per method.
  \<^item> \<open>Exprs\<close> (\<open>Expr.h\<close>): the expression classes as a datatype, update lists, arrays as records with their address,
    widths, well-typedness (the assertions of the constructors) and the denotation \<open>eval\<close> under an environment that
    gives every symbolic array its bytes. \<open>div_safe\<close> marks the environments in which no division by zero occurs.
  \<^item> \<open>ExprCreate\<close> (\<open>Expr.cpp\<close>): every \<open>create\<close> method and its static helpers, as total functions. \<open>ExprSound\<close> shows that
    each returns an expression equivalent to the plain node.
  \<^item> \<open>ExprEval\<close> (\<open>ExprVisitor.cpp\<close>, \<open>ExprEvaluator.cpp\<close>, \<open>Assignment.h\<close>, \<open>Assignment.cpp\<close>): the visitor as open recursion,
    the evaluator as its instance, assignments. What evaluates to a constant has that value.
  \<^item> \<open>ExprWeight\<close> and \<open>Constraints\<close> (\<open>Constraints.cpp\<close>): the constraint manager; adding and rewriting constraints ends
    (the weight of an expression decreases) and keeps the set of solutions.
  \<^item> \<open>ExprOrder\<close> (\<open>Expr.cpp\<close>, \<open>Updates.cpp\<close>): hashing and comparison; the comparison is a total order and makes \<open>expr\<close> an
    instance of \<open>linorder\<close>. \<open>ExprUtil\<close> (\<open>ExprUtil.cpp\<close>): the collectors of arrays and reads.

  Data structures.
  \<^item> \<open>ImmutableTree\<close>, \<open>ImmutableIter\<close> (\<open>ImmutableTree.h\<close>): the balanced tree, its refinement of a finite map, its height,
    and its iterators as stacks of nodes.
  \<^item> \<open>MapOfSets\<close> (\<open>MapOfSets.h\<close>): the set-trie with subset and superset search.
  \<^item> \<open>Bits\<close> (\<open>Bits.h\<close>): bit tricks on 32-bit and 64-bit words.

  Memory.
  \<^item> \<open>ObjectState\<close> (\<open>Memory.h\<close>, \<open>Memory.cpp\<close>, \<open>BitArray.h\<close>, \<open>ArrayCache.cpp\<close>): the contents of an object are a concrete
    store, a table of known symbolic bytes, and a lazily flushed list of updates. The invariant \<open>os_inv\<close> extends the one
    the source states in a comment; every operation is an \<open>os_step\<close>, which says what each byte is afterwards in
    every environment, so reads and writes refine loads from and stores to an array of bytes. Bounds checks are exact.

  Solvers.
  \<^item> \<open>Solver\<close> (\<open>Solver.h\<close>, \<open>SolverImpl.h\<close>, \<open>SolverImpl.cpp\<close>, \<open>Solver.cpp\<close>, \<open>DummySolver.cpp\<close>): a solver is a record of four
    computations, each a state transformer that returns an answer, fails or aborts (a failed assertion). The locale
    \<open>solver_contract\<close> says what an answer means; \<open>full_contract\<close> adds that initial values may be asked for any query.
    They are interpreted on the dummy solver, which always fails, and on the solver that answers by the meaning of the
    query (a specification: it chooses a solution and does not compute one).
  \<^item> \<open>CachingSolver\<close> (\<open>IncompleteSolver.cpp\<close>, \<open>CachingSolver.cpp\<close>), \<open>CexCachingSolver\<close>, \<open>IndependentSolver\<close>,
    \<open>ValidatingSolver\<close> (and \<open>AssignmentValidatingSolver.cpp\<close>): each shows that its solver keeps the contract when the
    solver below does. \<open>SolverChain\<close> (\<open>ConstructSolverChain.cpp\<close>) composes them with sublocales and states that the front
    end over the whole chain answers as documented. The core solver is the parameter of all these theories.

  \<^item> \<open>ConstantDivision\<close> (\<open>ConstantDivision.cpp\<close>), \<open>STPBuilder\<close> and \<open>STPSound\<close> (\<open>STPBuilder.cpp\<close>, \<open>ArrayExprHash.h\<close>): the terms one
    core solver is given. The functions of STP are a record of operations; the locale \<open>stp_interface\<close> states the type and
    the value of what each returns, and is interpreted on terms that are their own meaning. Multiplication by sums of
    shifts, division by a multiplier, variable shifts as chains of cases and both caches are shown to build terms with the
    value of the expression.

  Conventions. A failed assertion, an \<open>abort\<close> or an access outside a vector is \<open>None\<close> or the outcome \<open>Aborted\<close>, never a
  default value. Addresses of objects are part of the model where the code compares them. Machine integers that can wrap
  are words, or are truncated with \<open>take_bit\<close>; widths and sizes that only count are naturals. No fuel is used: every loop
  is structural or has a termination proof, which rests on a size, a weight, or the length of a worklist. Hypotheses of
  properties are discharged at concrete inputs by the witness that follows each property.

  Not modelled. The interpreter itself (\<open>Executor.cpp\<close> and the files that serve it), module passes and call graphs work on
  LLVM's data structures, which are outside the repository. The builders of terms for Z3 and metaSMT depend on those
  libraries and follow the plan of the one for STP. Printers, the parser, logging solvers, command line tools, time and file support are input and output. The C
  runtime runs inside the interpreter. Reference counts and freeing of memory are not observable in the model.
\<close>

end
